(* ===== verification/FK_Prelude.thy ===== *)
theory FK_Prelude
  imports Main "HOL-Library.Word"
begin

text \<open>
  Shared vocabulary of the FlowKernel development: machine integer types, the memory
  errors a C++ object lifetime violation would be, the collections of rules the component
  theories fill, ring-index arithmetic, and the combinator for the loop
  \<^verbatim>\<open>while (q.pop(x)) { ... }\<close>.
\<close>

unbundle bit_operations_syntax

type_synonym u8 = "8 word"
type_synonym u64 = "64 word"
type_synonym bytes = "8 word list"

text \<open>
  What the code would do wrong if an operation touched raw storage outside its lifetime.
  Every operation on raw storage returns one of these instead of an unspecified value.
\<close>

datatype mem_error =
    OutOfBounds      \<comment> \<open>index outside the buffer\<close>
  | UninitRead       \<comment> \<open>a slot that holds no constructed object is read or destroyed\<close>
  | OverwriteLive    \<comment> \<open>an object is constructed over a live one, which leaks it\<close>
  | NullDeref        \<comment> \<open>a null or freed pointer is dereferenced\<close>

named_theorems ring_simps \<open>ring index arithmetic\<close>
named_theorems inv_preserved \<open>operations that keep their component's invariant\<close>
named_theorems frame_simps \<open>fields an operation leaves alone\<close>

subsection \<open>Masked increments\<close>

lemma mask_eq_pow2_minus_1:
  "(2 ^ k :: u64) - 1 = mask k"
  by (simp add: mask_eq_exp_minus_1)

lemma unat_and_mask_u64:
  "unat ((w :: u64) AND mask k) = unat w mod 2 ^ k"
proof -
  have "w AND mask k = take_bit k w" by (simp only: take_bit_eq_mask)
  then show ?thesis by (simp only: unsigned_take_bit_eq take_bit_eq_mod [where 'a = nat])
qed

lemma unat_pow2_u64:
  assumes "k < 64"
  shows "unat ((2 :: u64) ^ k) = 2 ^ k"
proof -
  have "(2 :: nat) ^ k < 2 ^ 64"
    using assms by (intro power_strict_increasing) simp_all
  then show ?thesis
    using unat_of_nat [where 'a = 64 and x = "2 ^ k"] by simp
qed

subsection \<open>Ring indices as naturals\<close>

text \<open>
  \<open>ring_dist N h t\<close> is how many slots lie from \<open>h\<close> up to \<open>t\<close> going round a ring of
  \<open>N\<close> slots, \<open>ring_idx N h i\<close> the slot \<open>i\<close> steps after \<open>h\<close>. Both are case
  distinctions instead of \<open>mod\<close>, so linear arithmetic decides the goals about them.
\<close>

definition ring_dist :: "nat \<Rightarrow> nat \<Rightarrow> nat \<Rightarrow> nat" where
  "ring_dist N h t = (if h \<le> t then t - h else t + N - h)"

definition ring_idx :: "nat \<Rightarrow> nat \<Rightarrow> nat \<Rightarrow> nat" where
  "ring_idx N h i = (if h + i < N then h + i else h + i - N)"

definition ring_succ :: "nat \<Rightarrow> nat \<Rightarrow> nat" where
  "ring_succ N t = (if Suc t = N then 0 else Suc t)"

lemma succ_mod_ring: "t < N \<Longrightarrow> (t + 1) mod N = ring_succ N t"
  by (cases "Suc t = N") (auto simp: ring_succ_def)

lemma ring_succ_less [ring_simps]: "t < N \<Longrightarrow> ring_succ N t < N"
  by (auto simp: ring_succ_def)

lemma unat_masked_succ:
  assumes "k < 64" and "unat t < 2 ^ k"
  shows "unat ((t + 1) AND ((2 ^ k :: u64) - 1)) = ring_succ (2 ^ k) (unat t)"
proof -
  have "(2::nat) ^ k dvd 2 ^ 64"
    using assms(1) by (intro le_imp_power_dvd) simp
  then have "(unat t + 1) mod 2 ^ 64 mod 2 ^ k = (unat t + 1) mod 2 ^ k"
    by (rule mod_mod_cancel)
  moreover have "unat (t + 1) = (unat t + 1) mod 2 ^ 64"
    by (simp add: unat_word_ariths)
  ultimately show ?thesis
    using assms(2) by (simp only: mask_eq_pow2_minus_1 unat_and_mask_u64 succ_mod_ring)
qed

lemma ring_dist_same [ring_simps]: "ring_dist N h h = 0"
  by (simp add: ring_dist_def)

lemma ring_dist_less [ring_simps]: "h < N \<Longrightarrow> t < N \<Longrightarrow> ring_dist N h t < N"
  by (auto simp: ring_dist_def)

lemma ring_dist_zero [ring_simps]:
  "h < N \<Longrightarrow> t < N \<Longrightarrow> ring_dist N h t = 0 \<longleftrightarrow> h = t"
  by (auto simp: ring_dist_def)

lemma ring_idx_less [ring_simps]: "h < N \<Longrightarrow> i < N \<Longrightarrow> ring_idx N h i < N"
  by (auto simp: ring_idx_def)

lemma ring_idx_dist [ring_simps]: "h < N \<Longrightarrow> t < N \<Longrightarrow> ring_idx N h (ring_dist N h t) = t"
  by (auto simp: ring_dist_def ring_idx_def)

lemma ring_dist_idx [ring_simps]: "h < N \<Longrightarrow> i < N \<Longrightarrow> ring_dist N h (ring_idx N h i) = i"
  by (auto simp: ring_dist_def ring_idx_def)

lemma ring_idx_0 [ring_simps]: "h < N \<Longrightarrow> ring_idx N h 0 = h"
  by (auto simp: ring_idx_def)

lemma ring_full_iff:
  "h < N \<Longrightarrow> t < N \<Longrightarrow> ring_succ N t = h \<longleftrightarrow> ring_dist N h t = N - 1"
  by (auto simp: ring_succ_def ring_dist_def)

lemma ring_dist_succ_tail:
  "h < N \<Longrightarrow> t < N \<Longrightarrow> ring_succ N t \<noteq> h \<Longrightarrow>
     ring_dist N h (ring_succ N t) = Suc (ring_dist N h t)"
  by (auto simp: ring_succ_def ring_dist_def split: if_splits)

lemma ring_dist_succ_head:
  "h < N \<Longrightarrow> t < N \<Longrightarrow> h \<noteq> t \<Longrightarrow>
     ring_dist N h t = Suc (ring_dist N (ring_succ N h) t)"
  by (auto simp: ring_succ_def ring_dist_def split: if_splits)

lemma ring_idx_succ_head:
  "h < N \<Longrightarrow> Suc i < N \<Longrightarrow> ring_idx N (ring_succ N h) i = ring_idx N h (Suc i)"
  by (auto simp: ring_succ_def ring_idx_def split: if_splits)

lemma ring_idx_inj:
  assumes "h < N" "i < N" "j < N"
  shows "ring_idx N h i = ring_idx N h j \<longleftrightarrow> i = j"
  using assms by (auto simp: ring_idx_def split: if_splits)

lemma ring_dist_inj:
  assumes "h < N" "i < N" "j < N"
  shows "ring_dist N h i = ring_dist N h j \<longleftrightarrow> i = j"
  using assms by (auto simp: ring_dist_def split: if_splits)

lemma ring_dist_succ_self: "h < N \<Longrightarrow> ring_dist N (ring_succ N h) h = N - 1"
  by (auto simp: ring_dist_def ring_succ_def)

subsection \<open>The drain loop\<close>

text \<open>
  \<^verbatim>\<open>while (q.pop(x)) { body(x); }\<close> over a queue \<open>q\<close> and the rest of the state
  \<open>s\<close>. \<open>None\<close> is a loop that does not end; \<open>Inl\<close> a memory error of \<open>pop\<close>.
\<close>

partial_function (option) drain_loop ::
    "('q \<Rightarrow> 'e + 'a option \<times> 'q) \<Rightarrow> ('a \<Rightarrow> 's \<Rightarrow> 's) \<Rightarrow> 'q \<Rightarrow> 's \<Rightarrow> ('e + 'q \<times> 's) option" where
  "drain_loop pop body q s =
     (case pop q of
        Inl e \<Rightarrow> Some (Inl e)
      | Inr (None, q') \<Rightarrow> Some (Inr (q', s))
      | Inr (Some x, q') \<Rightarrow> drain_loop pop body q' (body x s))"

end
