(* ===== verification/Fifo_Interface.thy ===== *)
theory Fifo_Interface
  imports FK_Prelude
begin

text \<open>
  The contract of a bounded first-in first-out channel that counts what it rejects, and
  what its clients may conclude from the contract alone: the drain loop empties it in
  order and ends, and over any sequence of operations nothing is lost, duplicated or
  reordered and every rejected item is counted.
\<close>

subsection \<open>Operation sequences\<close>

datatype 'a fifo_op = Push 'a | Pop

text \<open>What a run has accepted, delivered and rejected so far, each in order.\<close>

record 'a fifo_trace =
  accepted :: "'a list"
  delivered :: "'a list"
  rejected :: "'a list"

fun fifo_run ::
    "('q \<Rightarrow> 'a \<Rightarrow> 'e + bool \<times> 'q) \<Rightarrow> ('q \<Rightarrow> 'e + 'a option \<times> 'q) \<Rightarrow> 'a fifo_op list \<Rightarrow>
       'q \<times> 'a fifo_trace \<Rightarrow> 'e + 'q \<times> 'a fifo_trace" where
  "fifo_run push pop [] (q, t) = Inr (q, t)"
| "fifo_run push pop (Push x # ops) (q, t) =
     (case push q x of
        Inl e \<Rightarrow> Inl e
      | Inr (True, q') \<Rightarrow> fifo_run push pop ops (q', t\<lparr>accepted := accepted t @ [x]\<rparr>)
      | Inr (False, q') \<Rightarrow> fifo_run push pop ops (q', t\<lparr>rejected := rejected t @ [x]\<rparr>))"
| "fifo_run push pop (Pop # ops) (q, t) =
     (case pop q of
        Inl e \<Rightarrow> Inl e
      | Inr (None, q') \<Rightarrow> fifo_run push pop ops (q', t)
      | Inr (Some x, q') \<Rightarrow> fifo_run push pop ops (q', t\<lparr>delivered := delivered t @ [x]\<rparr>))"

subsection \<open>The contract\<close>

locale bounded_fifo =
  fixes push :: "'q \<Rightarrow> 'a \<Rightarrow> 'e + bool \<times> 'q"
    and pop :: "'q \<Rightarrow> 'e + 'a option \<times> 'q"
    and ok :: "'q \<Rightarrow> bool"
    and contents :: "'q \<Rightarrow> 'a list"
    and room :: "'q \<Rightarrow> nat"
    and drops :: "'q \<Rightarrow> u64"
  assumes bounded: "ok q \<Longrightarrow> length (contents q) \<le> room q"
    and push_accepts: "ok q \<Longrightarrow> length (contents q) < room q \<Longrightarrow>
          \<exists>q'. push q x = Inr (True, q') \<and> ok q' \<and> contents q' = contents q @ [x] \<and>
               room q' = room q \<and> drops q' = drops q"
    and push_rejects: "ok q \<Longrightarrow> length (contents q) = room q \<Longrightarrow>
          \<exists>q'. push q x = Inr (False, q') \<and> ok q' \<and> contents q' = contents q \<and>
               room q' = room q \<and> drops q' = drops q + 1"
    and pop_delivers: "ok q \<Longrightarrow> contents q = x # xs \<Longrightarrow>
          \<exists>q'. pop q = Inr (Some x, q') \<and> ok q' \<and> contents q' = xs \<and>
               room q' = room q \<and> drops q' = drops q"
    and pop_none: "ok q \<Longrightarrow> contents q = [] \<Longrightarrow> pop q = Inr (None, q)"
begin

lemma push_cases:
  assumes "ok q"
  obtains (accept) q' where "push q x = Inr (True, q')" "ok q'" "length (contents q) < room q"
      "contents q' = contents q @ [x]" "room q' = room q" "drops q' = drops q"
    | (reject) q' where "push q x = Inr (False, q')" "ok q'" "length (contents q) = room q"
      "contents q' = contents q" "room q' = room q" "drops q' = drops q + 1"
  using assms bounded [of q] push_accepts [of q x] push_rejects [of q x]
  by (cases "length (contents q) = room q") fastforce+

lemma pop_cases:
  assumes "ok q"
  obtains (empty) "contents q = []" "pop q = Inr (None, q)"
    | (deliver) x q' where "contents q = x # contents q'" "pop q = Inr (Some x, q')" "ok q'"
      "room q' = room q" "drops q' = drops q"
  using assms pop_none [of q] pop_delivers [of q] by (cases "contents q") fastforce+

text \<open>
  The drain loop returns, applies its body to the queued items in order, and leaves the
  queue empty.
\<close>

lemma drain_all:
  assumes "ok q"
  shows "\<exists>q'. drain_loop pop body q s = Some (Inr (q', fold body (contents q) s)) \<and>
              ok q' \<and> contents q' = [] \<and> room q' = room q \<and> drops q' = drops q"
  using assms
proof (induction "length (contents q)" arbitrary: q s)
  case 0
  then show ?case by (simp add: drain_loop.simps pop_none)
next
  case (Suc n)
  from Suc.prems show ?case
  proof (cases rule: pop_cases)
    case empty
    with Suc.hyps(2) show ?thesis by simp
  next
    case (deliver x q')
    with Suc.hyps Suc.prems show ?thesis
      using Suc.hyps(1) [of q' "body x s"] by (simp add: drain_loop.simps [of pop body q s])
  qed
qed

text \<open>The bookkeeping equation that every operation keeps.\<close>

definition balanced :: "'a list \<Rightarrow> u64 \<Rightarrow> 'q \<times> 'a fifo_trace \<Rightarrow> bool" where
  "balanced xs0 d0 = (\<lambda>(q, t). ok q \<and> xs0 @ accepted t = delivered t @ contents q \<and>
     drops q = d0 + of_nat (length (rejected t)))"

lemma run_balanced:
  assumes "balanced xs0 d0 (q, t)"
  shows "\<exists>q' t'. fifo_run push pop ops (q, t) = Inr (q', t') \<and> balanced xs0 d0 (q', t') \<and>
           room q' = room q"
  using assms
proof (induction ops arbitrary: q t)
  case Nil
  then show ?case by simp
next
  case (Cons op ops)
  then have ok: "ok q" by (simp add: balanced_def)
  show ?case
  proof (cases op)
    case (Push x)
    from ok show ?thesis
    proof (cases rule: push_cases [where x = x])
      case (accept q')
      with Cons Push show ?thesis
        using Cons.IH [of q' "t\<lparr>accepted := accepted t @ [x]\<rparr>"]
        by (simp add: balanced_def flip: append_assoc)
    next
      case (reject q')
      with Cons Push show ?thesis
        using Cons.IH [of q' "t\<lparr>rejected := rejected t @ [x]\<rparr>"]
        by (simp add: balanced_def add_ac)
    qed
  next
    case Pop
    from ok show ?thesis
    proof (cases rule: pop_cases)
      case empty
      with Cons Pop show ?thesis by simp
    next
      case (deliver x q')
      with Cons Pop show ?thesis
        using Cons.IH [of q' "t\<lparr>delivered := delivered t @ [x]\<rparr>"]
        by (simp add: balanced_def)
    qed
  qed
qed

lemma run_conserves:
  assumes "ok q" and "contents q = []" and "drops q = 0"
  shows "\<exists>q' t. fifo_run push pop ops (q, \<lparr>accepted = [], delivered = [], rejected = []\<rparr>) = Inr (q', t) \<and>
           accepted t = delivered t @ contents q' \<and>
           drops q' = of_nat (length (rejected t)) \<and> length (contents q') \<le> room q"
  using run_balanced [of "[]" 0 q "\<lparr>accepted = [], delivered = [], rejected = []\<rparr>" ops] assms
  by (auto simp: balanced_def dest: bounded)

end

end
