(* ===== verification/MPSC_Queue.thy ===== *)
theory MPSC_Queue
  imports Fifo_Interface
begin

text \<open>
  \<^verbatim>\<open>include/robot_dataflow/mpsc_queue.hpp\<close>: the bounded ring queue that carries
  the CRITICAL and NORMAL samples. The storage is raw: a slot holds an object (\<open>Some\<close>)
  or none, and a read of an empty slot, a construction over a live object or an index
  outside the buffer is a \<open>mem_error\<close>. \<open>Capacity\<close> is the template parameter.
\<close>

subsection \<open>State and operations\<close>

record 'a mpsc_queue =
  Capacity :: u64
  buffer :: "'a option list"
  head :: u64
  tail :: u64
  dropped :: u64

text \<open>The class's static assertion. It lets \<open>Capacity = 0\<close> through.\<close>

definition capacity_assert :: "u64 \<Rightarrow> bool" where
  "capacity_assert cap \<longleftrightarrow> cap AND (cap - 1) = 0"

definition mpsc_new :: "u64 \<Rightarrow> 'a mpsc_queue" where
  "mpsc_new cap = \<lparr>Capacity = cap, buffer = replicate (unat cap) None, head = 0, tail = 0, dropped = 0\<rparr>"

text \<open>\<^verbatim>\<open>get_ptr\<close>: a raw slot access is defined inside the buffer only.\<close>

definition get_ptr :: "'a mpsc_queue \<Rightarrow> u64 \<Rightarrow> mem_error + nat" where
  "get_ptr q index = (if unat index < length (buffer q) then Inr (unat index) else Inl OutOfBounds)"

text \<open>Placement new, a read of the object, and its destructor call.\<close>

definition construct_at :: "'a mpsc_queue \<Rightarrow> u64 \<Rightarrow> 'a \<Rightarrow> mem_error + 'a mpsc_queue" where
  "construct_at q index item =
     (case get_ptr q index of
        Inl e \<Rightarrow> Inl e
      | Inr i \<Rightarrow> if buffer q ! i \<noteq> None then Inl OverwriteLive
                 else Inr (q\<lparr>buffer := (buffer q)[i := Some item]\<rparr>))"

definition read_at :: "'a mpsc_queue \<Rightarrow> u64 \<Rightarrow> mem_error + 'a" where
  "read_at q index =
     (case get_ptr q index of
        Inl e \<Rightarrow> Inl e
      | Inr i \<Rightarrow> (case buffer q ! i of None \<Rightarrow> Inl UninitRead | Some x \<Rightarrow> Inr x))"

definition destroy_at :: "'a mpsc_queue \<Rightarrow> u64 \<Rightarrow> mem_error + 'a mpsc_queue" where
  "destroy_at q index =
     (case get_ptr q index of
        Inl e \<Rightarrow> Inl e
      | Inr i \<Rightarrow> if buffer q ! i = None then Inl UninitRead
                 else Inr (q\<lparr>buffer := (buffer q)[i := None]\<rparr>))"

definition push :: "'a mpsc_queue \<Rightarrow> 'a \<Rightarrow> mem_error + bool \<times> 'a mpsc_queue" where
  "push q item =
     (let t = tail q;
          nxt = (t + 1) AND (Capacity q - 1)
      in if nxt = head q then Inr (False, q\<lparr>dropped := dropped q + 1\<rparr>)
         else case construct_at q t item of
                Inl e \<Rightarrow> Inl e
              | Inr q' \<Rightarrow> Inr (True, q'\<lparr>tail := nxt\<rparr>))"

definition pop :: "'a mpsc_queue \<Rightarrow> mem_error + 'a option \<times> 'a mpsc_queue" where
  "pop q =
     (let h = head q
      in if h = tail q then Inr (None, q)
         else case read_at q h of
                Inl e \<Rightarrow> Inl e
              | Inr item \<Rightarrow>
                  (case destroy_at q h of
                     Inl e \<Rightarrow> Inl e
                   | Inr q' \<Rightarrow> Inr (Some item, q'\<lparr>head := (h + 1) AND (Capacity q' - 1)\<rparr>)))"

definition dropped_count :: "'a mpsc_queue \<Rightarrow> u64" where
  "dropped_count q = dropped q"

text \<open>
  The destructor's loop \<^verbatim>\<open>while (h != t) { get_ptr(h)->~T(); h = ... }\<close> over the
  local index \<open>h\<close>. \<open>None\<close> is a loop that does not end.
\<close>

partial_function (option) destroy_from ::
    "'a mpsc_queue \<Rightarrow> u64 \<Rightarrow> (mem_error + 'a mpsc_queue) option" where
  "destroy_from q h =
     (if h = tail q then Some (Inr q)
      else case destroy_at q h of
             Inl e \<Rightarrow> Some (Inl e)
           | Inr q' \<Rightarrow> destroy_from q' ((h + 1) AND (Capacity q' - 1)))"

definition mpsc_destroy :: "'a mpsc_queue \<Rightarrow> (mem_error + 'a mpsc_queue) option" where
  "mpsc_destroy q = destroy_from q (head q)"

subsection \<open>Invariant and abstraction\<close>

text \<open>How many slots the ring has, how many are taken, and what they hold in order.\<close>

definition ring_size :: "'a mpsc_queue \<Rightarrow> nat" where
  "ring_size q = unat (Capacity q)"

definition used :: "'a mpsc_queue \<Rightarrow> nat" where
  "used q = ring_dist (ring_size q) (unat (head q)) (unat (tail q))"

definition queue_list :: "'a mpsc_queue \<Rightarrow> 'a list" where
  "queue_list q = map (\<lambda>i. the (buffer q ! ring_idx (ring_size q) (unat (head q)) i)) [0..<used q]"

text \<open>
  The capacity is a power of two that fits \<open>size_t\<close>, both indices are inside the ring,
  and a slot holds an object exactly when it lies between \<open>head\<close> and \<open>tail\<close>.
\<close>

definition mpsc_inv :: "'a mpsc_queue \<Rightarrow> bool" where
  "mpsc_inv q \<longleftrightarrow>
     (\<exists>k < 64. Capacity q = 2 ^ k) \<and>
     length (buffer q) = ring_size q \<and>
     unat (head q) < ring_size q \<and> unat (tail q) < ring_size q \<and>
     (\<forall>i < ring_size q. buffer q ! i \<noteq> None \<longleftrightarrow>
        ring_dist (ring_size q) (unat (head q)) i < used q)"

lemma mpsc_invD:
  assumes "mpsc_inv q"
  shows "length (buffer q) = ring_size q" "unat (head q) < ring_size q"
    "unat (tail q) < ring_size q" "used q < ring_size q"
  using assms by (auto simp: mpsc_inv_def used_def ring_simps)

lemma slot_live:
  "mpsc_inv q \<Longrightarrow> i < ring_size q \<Longrightarrow>
     buffer q ! i \<noteq> None \<longleftrightarrow> ring_dist (ring_size q) (unat (head q)) i < used q"
  by (simp add: mpsc_inv_def)

lemma unat_next:
  assumes "mpsc_inv q" "unat i < ring_size q"
  shows "unat ((i + 1) AND (Capacity q - 1)) = ring_succ (ring_size q) (unat i)"
proof -
  from assms(1) obtain k where k: "k < 64" "Capacity q = 2 ^ k"
    by (auto simp: mpsc_inv_def)
  then have "ring_size q = 2 ^ k" by (simp add: ring_size_def unat_pow2_u64)
  with k assms(2) show ?thesis by (simp add: unat_masked_succ)
qed

lemma length_queue_list [simp]: "length (queue_list q) = used q"
  by (simp add: queue_list_def)

lemma queue_list_nth:
  "i < used q \<Longrightarrow> queue_list q ! i = the (buffer q ! ring_idx (ring_size q) (unat (head q)) i)"
  by (simp add: queue_list_def)

lemma used_0_iff: "mpsc_inv q \<Longrightarrow> used q = 0 \<longleftrightarrow> head q = tail q"
  by (auto simp: used_def ring_simps mpsc_invD dest: unsigned_word_eqI)

lemma get_ptr_inv: "mpsc_inv q \<Longrightarrow> unat i < ring_size q \<Longrightarrow> get_ptr q i = Inr (unat i)"
  by (simp add: get_ptr_def mpsc_invD)

lemma full_iff:
  assumes "mpsc_inv q"
  shows "(tail q + 1) AND (Capacity q - 1) = head q \<longleftrightarrow> used q = ring_size q - 1"
proof -
  have "(tail q + 1) AND (Capacity q - 1) = head q \<longleftrightarrow>
        ring_succ (ring_size q) (unat (tail q)) = unat (head q)"
    using unat_next [OF assms mpsc_invD(3) [OF assms]] by (metis unsigned_word_eqI)
  then show ?thesis
    using ring_full_iff [OF mpsc_invD(2) mpsc_invD(3), OF assms assms] by (simp add: used_def)
qed

subsection \<open>What each operation does\<close>

lemma push_full:
  assumes "mpsc_inv q" "used q = ring_size q - 1"
  shows "push q x = Inr (False, q\<lparr>dropped := dropped q + 1\<rparr>)"
  using assms by (simp add: push_def Let_def full_iff)

lemma construct_at_tail:
  assumes "mpsc_inv q" "(tail q + 1) AND (Capacity q - 1) \<noteq> head q"
  shows "construct_at q (tail q) x = Inr (q\<lparr>buffer := (buffer q)[unat (tail q) := Some x]\<rparr>)"
proof -
  have "buffer q ! unat (tail q) = None"
    using slot_live [OF assms(1) mpsc_invD(3) [OF assms(1)]] by (simp add: used_def)
  then show ?thesis by (simp add: construct_at_def get_ptr_inv [OF assms(1) mpsc_invD(3) [OF assms(1)]])
qed

lemma push_not_full:
  assumes "mpsc_inv q" "used q \<noteq> ring_size q - 1"
  shows "push q x = Inr (True, q\<lparr>buffer := (buffer q)[unat (tail q) := Some x],
                                 tail := (tail q + 1) AND (Capacity q - 1)\<rparr>)"
  using assms by (simp add: push_def Let_def construct_at_tail full_iff)

lemma dropped_update_inv: "mpsc_inv (q\<lparr>dropped := d\<rparr>) = mpsc_inv q"
  by (simp add: mpsc_inv_def ring_size_def used_def)

lemma dropped_update_list: "queue_list (q\<lparr>dropped := d\<rparr>) = queue_list q"
  by (simp add: queue_list_def ring_size_def used_def)

lemma push_not_full_effect:
  fixes x :: 'a and q :: "'a mpsc_queue"
  assumes inv: "mpsc_inv q" and room: "used q \<noteq> ring_size q - 1"
  defines "q' \<equiv> q\<lparr>buffer := (buffer q)[unat (tail q) := Some x],
                    tail := (tail q + 1) AND (Capacity q - 1)\<rparr>"
  shows "mpsc_inv q'" "queue_list q' = queue_list q @ [x]"
proof -
  let ?N = "ring_size q" and ?h = "unat (head q)" and ?t = "unat (tail q)"
  note b = mpsc_invD [OF inv]
  have N': "ring_size q' = ?N" and h': "head q' = head q" by (simp_all add: q'_def ring_size_def)
  have t': "unat (tail q') = ring_succ ?N ?t" using unat_next [OF inv b(3)] by (simp add: q'_def)
  have "ring_succ ?N ?t \<noteq> ?h"
    using room ring_full_iff [OF b(2,3)] by (simp add: used_def)
  then have u': "used q' = Suc (used q)"
    using ring_dist_succ_tail [OF b(2,3)] by (simp add: used_def N' h' t')
  have live: "buffer q' ! i \<noteq> None \<longleftrightarrow> ring_dist ?N ?h i < Suc (used q)" if "i < ?N" for i
    using that b slot_live [OF inv that] ring_dist_inj [OF b(2) that b(3)]
    by (auto simp: q'_def nth_list_update used_def less_Suc_eq)
  show "mpsc_inv q'"
    using inv b live t' by (simp add: mpsc_inv_def N' h' u') (simp add: q'_def ring_simps)
  show "queue_list q' = queue_list q @ [x]"
  proof (rule nth_equalityI)
    fix i assume "i < length (queue_list q')"
    then have i: "i < Suc (used q)" by (simp add: u')
    have at: "ring_idx ?N ?h i = ?t \<longleftrightarrow> i = used q"
      using i b ring_idx_inj [of ?h ?N i "used q"] ring_idx_dist [OF b(2,3)] by (simp add: used_def)
    have new: "queue_list q' ! i = the (((buffer q)[?t := Some x]) ! ring_idx ?N ?h i)"
      using i by (subst queue_list_nth) (simp_all add: u' N' h', simp add: q'_def)
    show "queue_list q' ! i = (queue_list q @ [x]) ! i"
    proof (cases "i = used q")
      case True
      then have "ring_idx ?N ?h i = ?t" using at by simp
      with b have "queue_list q' ! i = x" by (subst new) simp
      with True show ?thesis by (simp add: nth_append)
    next
      case False
      with i at have "i < used q" "ring_idx ?N ?h i \<noteq> ?t" by simp_all
      then show ?thesis by (simp add: new nth_append queue_list_nth)
    qed
  qed (simp add: u')
qed

lemma pop_empty: "mpsc_inv q \<Longrightarrow> used q = 0 \<Longrightarrow> pop q = Inr (None, q)"
  by (simp add: pop_def Let_def used_0_iff)

lemma pop_nonempty:
  assumes inv: "mpsc_inv q" and ne: "used q \<noteq> 0"
  defines "q' \<equiv> q\<lparr>buffer := (buffer q)[unat (head q) := None],
                    head := (head q + 1) AND (Capacity q - 1)\<rparr>"
  shows "pop q = Inr (Some (queue_list q ! 0), q')"
    "mpsc_inv q'" "queue_list q = queue_list q ! 0 # queue_list q'"
proof -
  let ?N = "ring_size q" and ?h = "unat (head q)" and ?t = "unat (tail q)"
  note b = mpsc_invD [OF inv]
  have ht: "?h \<noteq> ?t" using ne by (auto simp: used_def ring_simps)
  have first: "queue_list q ! 0 = the (buffer q ! ?h)"
    using ne b by (simp add: queue_list_nth ring_simps)
  have "buffer q ! ?h \<noteq> None"
    using slot_live [OF inv b(2)] ne by (simp add: ring_simps)
  then show "pop q = Inr (Some (queue_list q ! 0), q')"
    using ne used_0_iff [OF inv] first
    by (auto simp: pop_def Let_def read_at_def destroy_at_def get_ptr_inv [OF inv b(2)] q'_def)
  have N': "ring_size q' = ?N" and t': "tail q' = tail q" by (simp_all add: q'_def ring_size_def)
  have h': "unat (head q') = ring_succ ?N ?h" using unat_next [OF inv b(2)] by (simp add: q'_def)
  have u': "used q = Suc (used q')"
    using ring_dist_succ_head [OF b(2,3) ht] by (simp add: used_def N' h' t')
  have live: "buffer q' ! i \<noteq> None \<longleftrightarrow> ring_dist ?N (ring_succ ?N ?h) i < used q'" if i: "i < ?N" for i
  proof (cases "i = ?h")
    case True
    with b u' show ?thesis by (simp add: q'_def ring_dist_succ_self)
  next
    case False
    then have "ring_dist ?N ?h i = Suc (ring_dist ?N (ring_succ ?N ?h) i)"
      using ring_dist_succ_head [OF b(2) i] by simp
    with False b i show ?thesis using slot_live [OF inv i] u' by (simp add: q'_def)
  qed
  show "mpsc_inv q'"
    using inv b live h' by (simp add: mpsc_inv_def N' t') (simp add: q'_def ring_simps)
  show "queue_list q = queue_list q ! 0 # queue_list q'"
  proof (rule nth_equalityI)
    fix i assume i: "i < length (queue_list q)"
    show "queue_list q ! i = (queue_list q ! 0 # queue_list q') ! i"
    proof (cases i)
      case (Suc j)
      with i b u' have j: "j < used q'" "Suc j < ?N" by simp_all
      have "ring_idx ?N ?h (Suc j) \<noteq> ?h"
        using ring_idx_inj [of ?h ?N "Suc j" 0] b j by (simp add: ring_simps)
      with Suc i j b show ?thesis
        by (simp add: queue_list_nth N' h' ring_idx_succ_head) (simp add: q'_def)
    qed simp
  qed (simp add: u')
qed

lemma mpsc_new_inv:
  assumes "k < 64"
  defines "q \<equiv> mpsc_new (2 ^ k) :: 'a mpsc_queue"
  shows "mpsc_inv q" "queue_list q = []" "ring_size q = 2 ^ k" "dropped q = 0"
  unfolding q_def
  using assms by (auto simp: mpsc_inv_def mpsc_new_def ring_size_def used_def queue_list_def
      unat_pow2_u64 ring_dist_def)

subsection \<open>The ring queue is a bounded FIFO\<close>

interpretation mq: bounded_fifo push pop mpsc_inv queue_list "\<lambda>q. ring_size q - 1" dropped
proof
  fix q :: "'a mpsc_queue" and x and xs
  assume inv: "mpsc_inv q"
  show "length (queue_list q) \<le> ring_size q - 1"
    using mpsc_invD(4) [OF inv] by simp
  show "\<exists>q'. push q x = Inr (True, q') \<and> mpsc_inv q' \<and> queue_list q' = queue_list q @ [x] \<and>
           ring_size q' - 1 = ring_size q - 1 \<and> dropped q' = dropped q"
    if "length (queue_list q) < ring_size q - 1"
    using that push_not_full [OF inv] push_not_full_effect [OF inv]
    by (simp add: ring_size_def)
  show "\<exists>q'. push q x = Inr (False, q') \<and> mpsc_inv q' \<and> queue_list q' = queue_list q \<and>
           ring_size q' - 1 = ring_size q - 1 \<and> dropped q' = dropped q + 1"
    if "length (queue_list q) = ring_size q - 1"
    using that push_full [OF inv] inv
    by (simp add: dropped_update_inv dropped_update_list ring_size_def)
  show "\<exists>q'. pop q = Inr (Some x, q') \<and> mpsc_inv q' \<and> queue_list q' = xs \<and>
           ring_size q' - 1 = ring_size q - 1 \<and> dropped q' = dropped q"
    if xs: "queue_list q = x # xs"
  proof -
    from xs have "used q \<noteq> 0" by (metis length_queue_list list.size(3) length_0_conv list.distinct(1))
    then show ?thesis
      using pop_nonempty [OF inv] xs by (simp add: ring_size_def)
  qed
  show "pop q = Inr (None, q)" if "queue_list q = []"
    using that pop_empty [OF inv] by (metis length_queue_list list.size(3))
qed

subsection \<open>Destruction\<close>

lemma all_dead:
  assumes "mpsc_inv q" "used q = 0"
  shows "buffer q = replicate (ring_size q) None"
  using assms by (intro nth_equalityI) (auto simp: mpsc_inv_def)

lemma destroy_from_all:
  assumes "mpsc_inv (q\<lparr>head := h\<rparr>)"
  shows "destroy_from q h = Some (Inr (q\<lparr>buffer := replicate (ring_size q) None\<rparr>))"
  using assms
proof (induction "used (q\<lparr>head := h\<rparr>)" arbitrary: q h)
  case 0
  then have "h = tail q" using used_0_iff [OF "0.prems"] by simp
  moreover have "buffer q = replicate (ring_size q) None"
    using all_dead [OF "0.prems"] "0.hyps" by (simp add: ring_size_def)
  ultimately show ?case by (simp add: destroy_from.simps)
next
  case (Suc n)
  let ?q = "q\<lparr>head := h\<rparr>"
  let ?p = "q\<lparr>buffer := (buffer q)[unat h := None]\<rparr>" and ?h = "(h + 1) AND (Capacity q - 1)"
  have ne: "used ?q \<noteq> 0" using Suc.hyps(2) by simp
  note step = pop_nonempty [OF Suc.prems ne]
  have inv: "mpsc_inv (?p\<lparr>head := ?h\<rparr>)" using step(2) by simp
  have "used ?q = Suc (used (?p\<lparr>head := ?h\<rparr>))"
    using arg_cong [OF step(3), of length] by simp
  then have IH: "destroy_from ?p ?h = Some (Inr (?p\<lparr>buffer := replicate (ring_size ?p) None\<rparr>))"
    using Suc.hyps inv by simp
  have "h \<noteq> tail q" using ne used_0_iff [OF Suc.prems] by simp
  moreover have "get_ptr q h = Inr (unat h)"
    using mpsc_invD [OF Suc.prems] by (simp add: get_ptr_def ring_size_def)
  moreover have "buffer q ! unat h \<noteq> None"
    using slot_live [OF Suc.prems mpsc_invD(2) [OF Suc.prems]] ne by (simp add: ring_simps)
  ultimately show ?case using IH by (subst destroy_from.simps) (simp add: destroy_at_def ring_size_def)
qed

lemma mpsc_destroy_all:
  "mpsc_inv q \<Longrightarrow> mpsc_destroy q = Some (Inr (q\<lparr>buffer := replicate (ring_size q) None\<rparr>))"
  by (simp add: mpsc_destroy_def destroy_from_all)

subsection \<open>The capacity assertion\<close>

lemma and_pred_nat:
  "(n :: nat) AND (n - 1) = 0 \<Longrightarrow> n = 0 \<or> (\<exists>k. n = 2 ^ k)"
proof (induction n rule: less_induct)
  case (less n)
  consider "n = 0" | "n = 1" | m where "n = 2 * m" "m > 0" | m where "n = 2 * m + 1" "m > 0"
    by (metis Suc_eq_plus1 add_cancel_left_left gr0I mult_0_right oddE evenE)
  then show ?case
  proof cases
    case 3
    have "2 * m - 1 = 2 * (m - 1) + 1" using 3(2) by simp
    moreover have "(2 * m) AND (2 * (m - 1) + 1) = 2 * (m AND (m - 1))"
      by (subst and_rec) simp
    ultimately have "(2 * m) AND (2 * m - 1) = 2 * (m AND (m - 1))" by simp
    with 3 less.prems have "m AND (m - 1) = 0" by simp
    with 3 less.IH [of m] obtain k where "m = 2 ^ k" by auto
    with 3 show ?thesis by (intro disjI2 exI [of _ "Suc k"]) simp
  next
    case 4
    have "(2 * m + 1) AND (2 * m) = 2 * (m AND m)"
      by (subst and_rec) simp
    with 4 less.prems show ?thesis by simp
  qed (auto intro: exI [of _ 0])
qed

lemma capacity_assert_iff:
  "capacity_assert cap \<longleftrightarrow> cap = 0 \<or> (\<exists>k < 64. cap = 2 ^ k)"
proof
  assume "capacity_assert cap"
  then have "unat (cap AND (cap - 1)) = 0" by (simp add: capacity_assert_def)
  then have and0: "unat cap AND unat (cap - 1) = 0" by (simp add: unsigned_and_eq)
  show "cap = 0 \<or> (\<exists>k < 64. cap = 2 ^ k)"
  proof (cases "cap = 0")
    case False
    then have "unat (cap - 1) = unat cap - 1" by (rule unat_minus_one)
    with and0 False obtain k where k: "unat cap = 2 ^ k"
      using and_pred_nat [of "unat cap"] by (auto simp: unat_eq_0)
    have "(2::nat) ^ k < 2 ^ 64" using unsigned_less [of cap, where 'a = nat] k by simp
    then have "k < 64" by (simp only: power_strict_increasing_iff)
    moreover from this k have "cap = 2 ^ k"
      by (intro unsigned_word_eqI [where 'a = nat]) (simp add: unat_pow2_u64)
    ultimately show ?thesis by blast
  qed simp
next
  assume "cap = 0 \<or> (\<exists>k < 64. cap = 2 ^ k)"
  then show "capacity_assert cap"
  proof
    assume "\<exists>k < 64. cap = 2 ^ k"
    then obtain k where k: "k < 64" "cap = 2 ^ k" by blast
    have "unat (cap AND (cap - 1)) = unat cap mod 2 ^ k"
      by (simp only: k(2) mask_eq_pow2_minus_1 unat_and_mask_u64)
    with k show ?thesis by (simp add: capacity_assert_def unat_pow2_u64 unat_eq_0)
  qed (simp add: capacity_assert_def)
qed

subsection \<open>Properties\<close>

text \<open>
  Whatever sequence of pushes and pops a queue of any legal capacity goes through, no
  operation touches storage outside an object's lifetime; what was accepted is what was
  delivered followed by what is still queued, in order; the drop counter counts exactly
  the rejected items; and at most \<open>Capacity - 1\<close> items are queued.
\<close>

theorem mpsc_run_conserves:
  fixes ops :: "'a fifo_op list"
  assumes "k < 64"
  shows "\<exists>q t. fifo_run push pop ops (mpsc_new (2 ^ k), \<lparr>accepted = [], delivered = [], rejected = []\<rparr>) = Inr (q, t) \<and>
           accepted t = delivered t @ queue_list q \<and>
           dropped_count q = of_nat (length (rejected t)) \<and>
           length (queue_list q) \<le> 2 ^ k - 1"
  using mq.run_conserves [of "mpsc_new (2 ^ k)" ops] mpsc_new_inv [OF assms, where 'a = 'a]
  by (simp add: dropped_count_def)

theorem mpsc_run_conserves_witness:
  "\<exists>q t. fifo_run push pop [Push 1, Push 2, Push 3, Push 4, Pop, Push (5 :: int)]
       (mpsc_new (2 ^ 2), \<lparr>accepted = [], delivered = [], rejected = []\<rparr>) = Inr (q, t) \<and>
     accepted t = delivered t @ queue_list q \<and>
     dropped_count q = of_nat (length (rejected t)) \<and> length (queue_list q) \<le> 2 ^ 2 - 1"
  using mpsc_run_conserves [of 2 "[Push 1, Push 2, Push 3, Push 4, Pop, Push 5]"] by simp

text \<open>
  The ring implements the abstract bounded queue: \<open>push\<close> appends exactly when fewer
  than \<open>Capacity - 1\<close> items are queued and otherwise only counts a drop; \<open>pop\<close> removes
  the oldest item; neither fails.
\<close>

theorem mpsc_refines_list:
  assumes "mpsc_inv q"
  shows "(case push q x of
            Inr (done, q') \<Rightarrow> mpsc_inv q' \<and> (done \<longleftrightarrow> length (queue_list q) < unat (Capacity q) - 1) \<and>
              queue_list q' = (if done then queue_list q @ [x] else queue_list q) \<and>
              dropped q' = (if done then dropped q else dropped q + 1)
          | Inl e \<Rightarrow> False) \<and>
         (case pop q of
            Inr (r, q') \<Rightarrow> mpsc_inv q' \<and> queue_list q = (case r of None \<Rightarrow> [] | Some y \<Rightarrow> [y]) @ queue_list q' \<and>
              (r = None \<longleftrightarrow> queue_list q = []) \<and> dropped q' = dropped q
          | Inl e \<Rightarrow> False)"
proof
  show "case push q x of
            Inr (done, q') \<Rightarrow> mpsc_inv q' \<and> (done \<longleftrightarrow> length (queue_list q) < unat (Capacity q) - 1) \<and>
              queue_list q' = (if done then queue_list q @ [x] else queue_list q) \<and>
              dropped q' = (if done then dropped q else dropped q + 1)
          | Inl e \<Rightarrow> False"
    using assms by (cases rule: mq.push_cases [where x = x]) (auto simp: ring_size_def)
  show "case pop q of
            Inr (r, q') \<Rightarrow> mpsc_inv q' \<and> queue_list q = (case r of None \<Rightarrow> [] | Some y \<Rightarrow> [y]) @ queue_list q' \<and>
              (r = None \<longleftrightarrow> queue_list q = []) \<and> dropped q' = dropped q
          | Inl e \<Rightarrow> False"
    using assms by (cases rule: mq.pop_cases) (auto simp: assms)
qed

theorem mpsc_refines_list_witness:
  "mpsc_inv (mpsc_new 4 :: int mpsc_queue) \<and>
   (case push (mpsc_new 4 :: int mpsc_queue) 7 of
      Inr (done, q') \<Rightarrow> mpsc_inv q' \<and> done \<and> queue_list q' = [7]
    | Inl e \<Rightarrow> False)"
proof -
  have inv: "mpsc_inv (mpsc_new 4 :: int mpsc_queue)" "queue_list (mpsc_new 4 :: int mpsc_queue) = []"
    using mpsc_new_inv [of 2] by simp_all
  have "Capacity (mpsc_new 4 :: int mpsc_queue) = 4" by (simp add: mpsc_new_def)
  with inv show ?thesis
    using mpsc_refines_list [OF inv(1), of 7] by (auto split: sum.splits prod.splits)
qed

text \<open>
  C27. The destructor ends, destroys every queued object exactly once and nothing else, and
  leaves no object alive in the storage.
\<close>

theorem mpsc_destroy_releases_all:
  assumes "mpsc_inv q"
  shows "mpsc_destroy q = Some (Inr (q\<lparr>buffer := replicate (unat (Capacity q)) None\<rparr>))"
  using mpsc_destroy_all [OF assms] by (simp add: ring_size_def)

theorem mpsc_destroy_releases_all_witness:
  "mpsc_destroy (mpsc_new 8 :: int mpsc_queue) = Some (Inr (mpsc_new 8))"
  using mpsc_destroy_releases_all [of "mpsc_new 8 :: int mpsc_queue"] mpsc_new_inv [of 3]
  by (simp add: mpsc_new_def)

text \<open>
  The static assertion on the capacity admits exactly the powers of two and also zero,
  and a queue of capacity zero writes outside its storage on the first push.
\<close>

theorem mpsc_capacity_assert:
  "(capacity_assert cap \<longleftrightarrow> cap = 0 \<or> (\<exists>k < 64. cap = 2 ^ k)) \<and>
   push (mpsc_new 0) x = Inl OutOfBounds"
  by (simp add: capacity_assert_iff)
     (simp add: push_def construct_at_def get_ptr_def mpsc_new_def Let_def)

end
