(* ===== verification/MPSC_Concurrent.thy ===== *)
theory MPSC_Concurrent
  imports MPSC_Queue
begin

text \<open>
  The same queue under real concurrency: any number of producer threads in
  \<^verbatim>\<open>push\<close> and one consumer in \<^verbatim>\<open>pop\<close>, one atomic access at a time
  in any interleaving. The release/acquire accesses to \<open>head_\<close> and \<open>tail_\<close> are not
  assumed to be sequentially consistent: a load returns any value stored at or after the
  newest one the loading side has already seen, so a producer may act on an old
  \<open>head_\<close> and the consumer on an old \<open>tail_\<close>. The producers see each other's
  accesses through the spin lock, so they share one view.
\<close>

subsection \<open>Program counters and the system state\<close>

text \<open>A producer inside \<^verbatim>\<open>push(item)\<close>; the arguments are its locals.\<close>

datatype 'a ppc =
    PIdle
  | PSpin 'a                 \<comment> \<open>before \<open>push_lock_.test_and_set\<close>\<close>
  | PLoadTail 'a             \<comment> \<open>holds the lock, before \<open>tail_.load(relaxed)\<close>\<close>
  | PLoadHead 'a u64 u64     \<comment> \<open>has \<open>t\<close> and \<open>next\<close>, before \<open>head_.load(acquire)\<close>\<close>
  | PDrop 'a                 \<comment> \<open>found the queue full, before \<open>dropped_.fetch_add\<close>\<close>
  | PConstruct 'a u64 u64    \<comment> \<open>before the placement new at \<open>t\<close>\<close>
  | PStoreTail 'a u64        \<comment> \<open>before \<open>tail_.store(next, release)\<close>\<close>
  | PUnlock bool             \<comment> \<open>before \<open>push_lock_.clear\<close>, with the result\<close>

text \<open>The consumer inside \<^verbatim>\<open>pop\<close>.\<close>

datatype 'a cpc =
    CIdle
  | CLoadTail u64            \<comment> \<open>has \<open>h\<close>, before \<open>tail_.load(acquire)\<close>\<close>
  | CMove u64                \<comment> \<open>before \<open>item = std::move(*get_ptr(h))\<close>\<close>
  | CDestroy u64 'a          \<comment> \<open>before \<open>get_ptr(h)->~T()\<close>\<close>
  | CStoreHead u64 'a        \<comment> \<open>before \<open>head_.store(h + 1, release)\<close>\<close>

text \<open>
  \<open>head_log\<close> and \<open>tail_log\<close> list every value the two indices have held, oldest first;
  \<open>head_seen\<close> and \<open>tail_seen\<close> are positions in them. \<open>owner\<close>, \<open>sent\<close>,
  \<open>received\<close> and \<open>refused\<close> only record what happened.
\<close>

record 'a mpsc_sys =
  ring :: "'a mpsc_queue"
  push_lock :: bool
  prod :: "nat \<Rightarrow> 'a ppc"
  cons :: "'a cpc"
  head_log :: "u64 list"
  tail_log :: "u64 list"
  head_seen :: nat
  tail_seen :: nat
  fault :: "mem_error option"
  owner :: "nat option"
  sent :: "'a list"
  received :: "'a list"
  refused :: "'a list"

definition mpsc_sys_init :: "u64 \<Rightarrow> 'a mpsc_sys" where
  "mpsc_sys_init cap =
     \<lparr>ring = mpsc_new cap, push_lock = False, prod = (\<lambda>_. PIdle), cons = CIdle,
      head_log = [0], tail_log = [0], head_seen = 0, tail_seen = 0, fault = None,
      owner = None, sent = [], received = [], refused = []\<rparr>"

abbreviation set_prod :: "nat \<Rightarrow> 'a ppc \<Rightarrow> 'a mpsc_sys \<Rightarrow> 'a mpsc_sys" where
  "set_prod p pc s \<equiv> s\<lparr>prod := (prod s)(p := pc)\<rparr>"

subsection \<open>One atomic step of a thread\<close>

inductive mpsc_step :: "'a mpsc_sys \<Rightarrow> 'a mpsc_sys \<Rightarrow> bool" where
  call_push: "prod s p = PIdle \<Longrightarrow> mpsc_step s (set_prod p (PSpin x) s)"
| spin: "prod s p = PSpin x \<Longrightarrow> push_lock s \<Longrightarrow> mpsc_step s s"
| lock: "prod s p = PSpin x \<Longrightarrow> \<not> push_lock s \<Longrightarrow>
    mpsc_step s (set_prod p (PLoadTail x) (s\<lparr>push_lock := True, owner := Some p\<rparr>))"
| load_tail: "prod s p = PLoadTail x \<Longrightarrow> t = tail (ring s) \<Longrightarrow>
    mpsc_step s (set_prod p (PLoadHead x t ((t + 1) AND (Capacity (ring s) - 1))) s)"
| load_head_full: "prod s p = PLoadHead x t nxt \<Longrightarrow> head_seen s \<le> j \<Longrightarrow> j < length (head_log s) \<Longrightarrow>
    nxt = head_log s ! j \<Longrightarrow> mpsc_step s (set_prod p (PDrop x) (s\<lparr>head_seen := j\<rparr>))"
| load_head_room: "prod s p = PLoadHead x t nxt \<Longrightarrow> head_seen s \<le> j \<Longrightarrow> j < length (head_log s) \<Longrightarrow>
    nxt \<noteq> head_log s ! j \<Longrightarrow> mpsc_step s (set_prod p (PConstruct x t nxt) (s\<lparr>head_seen := j\<rparr>))"
| drop_item: "prod s p = PDrop x \<Longrightarrow>
    mpsc_step s (set_prod p (PUnlock False)
      (s\<lparr>ring := (ring s)\<lparr>dropped := dropped (ring s) + 1\<rparr>, refused := refused s @ [x]\<rparr>))"
| construct: "prod s p = PConstruct x t nxt \<Longrightarrow> construct_at (ring s) t x = Inr r \<Longrightarrow>
    mpsc_step s (set_prod p (PStoreTail x nxt) (s\<lparr>ring := r\<rparr>))"
| construct_fault: "prod s p = PConstruct x t nxt \<Longrightarrow> construct_at (ring s) t x = Inl e \<Longrightarrow>
    mpsc_step s (s\<lparr>fault := Some e\<rparr>)"
| store_tail: "prod s p = PStoreTail x nxt \<Longrightarrow>
    mpsc_step s (set_prod p (PUnlock True)
      (s\<lparr>ring := (ring s)\<lparr>tail := nxt\<rparr>, tail_log := tail_log s @ [nxt], sent := sent s @ [x]\<rparr>))"
| unlock: "prod s p = PUnlock done \<Longrightarrow>
    mpsc_step s (set_prod p PIdle (s\<lparr>push_lock := False, owner := None\<rparr>))"
| call_pop: "cons s = CIdle \<Longrightarrow> mpsc_step s (s\<lparr>cons := CLoadTail (head (ring s))\<rparr>)"
| load_tail_empty: "cons s = CLoadTail h \<Longrightarrow> tail_seen s \<le> j \<Longrightarrow> j < length (tail_log s) \<Longrightarrow>
    h = tail_log s ! j \<Longrightarrow> mpsc_step s (s\<lparr>cons := CIdle, tail_seen := j\<rparr>)"
| load_tail_item: "cons s = CLoadTail h \<Longrightarrow> tail_seen s \<le> j \<Longrightarrow> j < length (tail_log s) \<Longrightarrow>
    h \<noteq> tail_log s ! j \<Longrightarrow> mpsc_step s (s\<lparr>cons := CMove h, tail_seen := j\<rparr>)"
| move: "cons s = CMove h \<Longrightarrow> read_at (ring s) h = Inr x \<Longrightarrow> mpsc_step s (s\<lparr>cons := CDestroy h x\<rparr>)"
| move_fault: "cons s = CMove h \<Longrightarrow> read_at (ring s) h = Inl e \<Longrightarrow> mpsc_step s (s\<lparr>fault := Some e\<rparr>)"
| destroy: "cons s = CDestroy h x \<Longrightarrow> destroy_at (ring s) h = Inr r \<Longrightarrow>
    mpsc_step s (s\<lparr>cons := CStoreHead h x, ring := r\<rparr>)"
| destroy_fault: "cons s = CDestroy h x \<Longrightarrow> destroy_at (ring s) h = Inl e \<Longrightarrow>
    mpsc_step s (s\<lparr>fault := Some e\<rparr>)"
| store_head: "cons s = CStoreHead h x \<Longrightarrow> nxt = (h + 1) AND (Capacity (ring s) - 1) \<Longrightarrow>
    mpsc_step s (s\<lparr>cons := CIdle, ring := (ring s)\<lparr>head := nxt\<rparr>, head_log := head_log s @ [nxt],
                  received := received s @ [x]\<rparr>)"

inductive mpsc_reachable :: "u64 \<Rightarrow> 'a mpsc_sys \<Rightarrow> bool" for cap where
  start: "mpsc_reachable cap (mpsc_sys_init cap)"
| step: "mpsc_reachable cap s \<Longrightarrow> mpsc_step s s' \<Longrightarrow> mpsc_reachable cap s'"

subsection \<open>The invariant\<close>

text \<open>The index word after \<open>j\<close> stores.\<close>

definition pos :: "nat \<Rightarrow> nat \<Rightarrow> u64" where
  "pos N j = of_nat (j mod N)"

abbreviation nheads :: "'a mpsc_sys \<Rightarrow> nat" where
  "nheads s \<equiv> length (received s)"

abbreviation ntails :: "'a mpsc_sys \<Rightarrow> nat" where
  "ntails s \<equiv> length (sent s)"

definition index_inv :: "nat \<Rightarrow> 'a mpsc_sys \<Rightarrow> bool" where
  "index_inv N s \<longleftrightarrow>
     (\<exists>k < 64. N = 2 ^ k) \<and> Capacity (ring s) = of_nat N \<and> length (buffer (ring s)) = N \<and>
     head (ring s) = pos N (nheads s) \<and> tail (ring s) = pos N (ntails s) \<and>
     head_log s = map (pos N) [0..<Suc (nheads s)] \<and>
     tail_log s = map (pos N) [0..<Suc (ntails s)] \<and>
     head_seen s \<le> nheads s \<and> nheads s \<le> tail_seen s \<and> tail_seen s \<le> ntails s \<and>
     ntails s < head_seen s + N"

text \<open>The object a producer has built but not yet published.\<close>

fun built :: "'a ppc \<Rightarrow> 'a option" where
  "built (PStoreTail x _) = Some x"
| "built _ = None"

definition unpublished :: "'a mpsc_sys \<Rightarrow> 'a option" where
  "unpublished s = (case owner s of None \<Rightarrow> None | Some p \<Rightarrow> built (prod s p))"

fun slot_taken :: "'a cpc \<Rightarrow> bool" where
  "slot_taken (CStoreHead _ _) = True"
| "slot_taken _ = False"

definition buffer_inv :: "nat \<Rightarrow> 'a mpsc_sys \<Rightarrow> bool" where
  "buffer_inv N s \<longleftrightarrow>
     received s = take (nheads s) (sent s) \<and> fault s = None \<and>
     dropped (ring s) = of_nat (length (refused s)) \<and>
     (\<forall>i. nheads s \<le> i \<and> i < ntails s \<longrightarrow>
        buffer (ring s) ! (i mod N) = (if i = nheads s \<and> slot_taken (cons s) then None else Some (sent s ! i))) \<and>
     (\<forall>i. ntails s \<le> i \<and> i < nheads s + N \<longrightarrow>
        buffer (ring s) ! (i mod N) = (if i = ntails s then unpublished s else None))"

fun holds_lock :: "'a ppc \<Rightarrow> bool" where
  "holds_lock PIdle = False"
| "holds_lock (PSpin _) = False"
| "holds_lock _ = True"

definition lock_inv :: "'a mpsc_sys \<Rightarrow> bool" where
  "lock_inv s \<longleftrightarrow> (push_lock s \<longleftrightarrow> owner s \<noteq> None) \<and> (\<forall>p. holds_lock (prod s p) \<longleftrightarrow> owner s = Some p)"

fun ppc_ok :: "nat \<Rightarrow> 'a mpsc_sys \<Rightarrow> 'a ppc \<Rightarrow> bool" where
  "ppc_ok N s (PLoadHead x t nxt) \<longleftrightarrow> t = pos N (ntails s) \<and> nxt = pos N (Suc (ntails s))"
| "ppc_ok N s (PConstruct x t nxt) \<longleftrightarrow> t = pos N (ntails s) \<and> nxt = pos N (Suc (ntails s)) \<and>
     Suc (ntails s) < head_seen s + N"
| "ppc_ok N s (PStoreTail x nxt) \<longleftrightarrow> nxt = pos N (Suc (ntails s)) \<and> Suc (ntails s) < head_seen s + N"
| "ppc_ok N s _ \<longleftrightarrow> True"

fun cpc_ok :: "nat \<Rightarrow> 'a mpsc_sys \<Rightarrow> 'a cpc \<Rightarrow> bool" where
  "cpc_ok N s CIdle \<longleftrightarrow> True"
| "cpc_ok N s (CLoadTail h) \<longleftrightarrow> h = pos N (nheads s)"
| "cpc_ok N s (CMove h) \<longleftrightarrow> h = pos N (nheads s) \<and> nheads s < tail_seen s"
| "cpc_ok N s (CDestroy h x) \<longleftrightarrow> h = pos N (nheads s) \<and> nheads s < tail_seen s \<and> x = sent s ! nheads s"
| "cpc_ok N s (CStoreHead h x) \<longleftrightarrow> h = pos N (nheads s) \<and> nheads s < tail_seen s \<and> x = sent s ! nheads s"

definition sys_inv :: "nat \<Rightarrow> 'a mpsc_sys \<Rightarrow> bool" where
  "sys_inv N s \<longleftrightarrow> index_inv N s \<and> buffer_inv N s \<and> lock_inv s \<and>
     (\<forall>p. ppc_ok N s (prod s p)) \<and> cpc_ok N s (cons s)"

subsection \<open>Index arithmetic\<close>

definition ring_capacity :: "nat \<Rightarrow> bool" where
  "ring_capacity N \<longleftrightarrow> (\<exists>k < 64. N = 2 ^ k)"

lemma ring_capacity_bounds: "ring_capacity N \<Longrightarrow> 0 < N \<and> N < 2 ^ 64"
  unfolding ring_capacity_def by (auto simp only: zero_less_power power_strict_increasing_iff)

lemma unat_pos:
  assumes "ring_capacity N"
  shows "unat (pos N j) = j mod N"
proof -
  have "j mod N < 2 ^ 64"
    using ring_capacity_bounds [OF assms] mod_less_divisor [of N j] by linarith
  then show ?thesis by (simp add: pos_def unat_of_nat)
qed

lemma pos_eq_iff: "ring_capacity N \<Longrightarrow> pos N i = pos N j \<longleftrightarrow> i mod N = j mod N"
  by (metis unat_pos unsigned_word_eqI)

lemma mod_window:
  assumes "i \<le> j" "j < i + N"
  shows "(i :: nat) mod N = j mod N \<longleftrightarrow> i = j"
proof
  assume "i mod N = j mod N"
  then have "N dvd j - i" using mod_eq_dvd_iff_nat [OF assms(1)] by metis
  moreover have "j - i < N" using assms by linarith
  ultimately have "j - i = 0" by (meson nat_dvd_not_less neq0_conv)
  with assms(1) show "i = j" by simp
qed simp

lemma pos_window_eq:
  "ring_capacity N \<Longrightarrow> i \<le> j \<Longrightarrow> j < i + N \<Longrightarrow> pos N i = pos N j \<longleftrightarrow> i = j"
  by (simp add: pos_eq_iff mod_window)

lemma pos_full_eq:
  assumes "ring_capacity N" "i \<le> j" "j < i + N"
  shows "pos N (Suc j) = pos N i \<longleftrightarrow> Suc j = i + N"
proof (cases "Suc j = i + N")
  case False
  with assms have "pos N i = pos N (Suc j) \<longleftrightarrow> i = Suc j" by (intro pos_window_eq) simp_all
  with assms False show ?thesis by auto
qed (simp add: pos_def)

lemma pos_Suc:
  assumes "ring_capacity N"
  shows "(pos N j + 1) AND ((of_nat N :: u64) - 1) = pos N (Suc j)"
proof -
  from assms obtain k where k: "k < 64" "N = 2 ^ k" by (auto simp: ring_capacity_def)
  have "unat (pos N j) < 2 ^ k" using unat_pos [OF assms, of j] k by simp
  then have "unat ((pos N j + 1) AND ((2 ^ k :: u64) - 1)) = ring_succ N (unat (pos N j))"
    using unat_masked_succ k by simp
  also have "\<dots> = Suc j mod N"
    using succ_mod_ring [of "j mod N" N] ring_capacity_bounds [OF assms] unat_pos [OF assms, of j]
    by (simp add: mod_Suc_eq)
  finally show ?thesis
    using unat_pos [OF assms, of "Suc j"] k by (intro unsigned_word_eqI [where 'a = nat]) simp
qed

lemma index_inv_capacity: "index_inv N s \<Longrightarrow> ring_capacity N"
  by (simp add: index_inv_def ring_capacity_def)

lemma get_ptr_pos:
  "index_inv N s \<Longrightarrow> get_ptr (ring s) (pos N j) = Inr (j mod N)"
  using index_inv_capacity [of N s] ring_capacity_bounds [of N]
  by (auto simp: get_ptr_def unat_pos index_inv_def)

subsection \<open>Every step keeps the invariant\<close>

lemma sys_invD:
  assumes "sys_inv N s"
  shows "index_inv N s" "buffer_inv N s" "lock_inv s" "ppc_ok N s (prod s p)" "cpc_ok N s (cons s)"
    "ring_capacity N"
  using assms index_inv_capacity by (auto simp: sys_inv_def)

lemma no_lock_ok: "\<not> holds_lock pc \<Longrightarrow> ppc_ok N s pc"
  by (cases pc) simp_all

lemma ppc_ok_cong: "ntails s' = ntails s \<Longrightarrow> head_seen s' = head_seen s \<Longrightarrow> ppc_ok N s' pc = ppc_ok N s pc"
  by (cases pc) simp_all

lemma holder:
  assumes "sys_inv N s" "holds_lock (prod s p)"
  shows "owner s = Some p" "push_lock s" "p' \<noteq> p \<Longrightarrow> \<not> holds_lock (prod s p')"
    "unpublished s = built (prod s p)"
  using assms by (auto simp: sys_inv_def lock_inv_def unpublished_def)

text \<open>A step of the lock's holder: only the shared data and its own counter need checking.\<close>

lemma holder_step_inv:
  assumes inv: "sys_inv N s" and p: "holds_lock (prod s p)" "holds_lock pc"
    and s': "owner s' = owner s" "push_lock s' = push_lock s" "prod s' = (prod s)(p := pc)"
    and new: "index_inv N s'" "buffer_inv N s'" "ppc_ok N s' pc" "cpc_ok N s' (cons s')"
  shows "sys_inv N s'"
proof -
  have "lock_inv s'"
    using inv p s' holder(1) [OF inv p(1)] by (auto simp: sys_inv_def lock_inv_def)
  moreover have "ppc_ok N s' (prod s' p')" for p'
    using s'(3) new(3) holder(3) [OF inv p(1), of p'] by (cases "p' = p") (simp_all add: no_lock_ok)
  ultimately show ?thesis using new by (simp add: sys_inv_def)
qed

text \<open>A step of the consumer.\<close>

lemma consumer_step_inv:
  assumes inv: "sys_inv N s"
    and s': "owner s' = owner s" "push_lock s' = push_lock s" "prod s' = prod s"
      "sent s' = sent s" "head_seen s' = head_seen s"
    and new: "index_inv N s'" "buffer_inv N s'" "cpc_ok N s' (cons s')"
  shows "sys_inv N s'"
  using inv s' new ppc_ok_cong [of s' s N] by (auto simp: sys_inv_def lock_inv_def)

lemma load_head_value:
  assumes "index_inv N s" "j < length (head_log s)"
  shows "head_log s ! j = pos N j" "j \<le> nheads s"
  using assms by (auto simp: index_inv_def nth_append simp del: upt_Suc)

lemma load_tail_value:
  assumes "index_inv N s" "j < length (tail_log s)"
  shows "tail_log s ! j = pos N j" "j \<le> ntails s"
  using assms by (auto simp: index_inv_def nth_append simp del: upt_Suc)

lemma live_slot:
  "buffer_inv N s \<Longrightarrow> nheads s \<le> i \<Longrightarrow> i < ntails s \<Longrightarrow>
     buffer (ring s) ! (i mod N) = (if i = nheads s \<and> slot_taken (cons s) then None else Some (sent s ! i))"
  by (simp add: buffer_inv_def)

lemma free_slot:
  "buffer_inv N s \<Longrightarrow> ntails s \<le> i \<Longrightarrow> i < nheads s + N \<Longrightarrow>
     buffer (ring s) ! (i mod N) = (if i = ntails s then unpublished s else None)"
  by (simp add: buffer_inv_def)

lemma window:
  assumes "index_inv N s"
  shows "nheads s \<le> ntails s" "ntails s < nheads s + N" "0 < N"
  using assms ring_capacity_bounds [OF index_inv_capacity [OF assms]] by (auto simp: index_inv_def)

lemma construct_ok:
  assumes inv: "sys_inv N s" and pc: "prod s p = PConstruct x t nxt"
  shows "construct_at (ring s) t x =
     Inr ((ring s)\<lparr>buffer := (buffer (ring s))[ntails s mod N := Some x]\<rparr>)"
proof -
  note i = sys_invD [OF inv]
  have "unpublished s = None" using holder(4) [OF inv, of p] pc by simp
  then have "buffer (ring s) ! (ntails s mod N) = None"
    using free_slot [OF i(2), of "ntails s"] window [OF i(1)] by simp
  moreover have "t = pos N (ntails s)" using i(4) [of p] pc by simp
  ultimately show ?thesis by (simp add: construct_at_def get_ptr_pos [OF i(1)])
qed

lemma read_ok:
  assumes inv: "sys_inv N s" and pc: "cons s = CMove h"
  shows "read_at (ring s) h = Inr (sent s ! nheads s)"
proof -
  note i = sys_invD [OF inv]
  have lt: "nheads s < ntails s" using i(1,5) pc by (auto simp: index_inv_def)
  then have "buffer (ring s) ! (nheads s mod N) = Some (sent s ! nheads s)"
    using live_slot [OF i(2), of "nheads s"] pc by simp
  moreover have "h = pos N (nheads s)" using i(5) pc by simp
  ultimately show ?thesis by (simp add: read_at_def get_ptr_pos [OF i(1)])
qed

lemma destroy_ok:
  assumes inv: "sys_inv N s" and pc: "cons s = CDestroy h x"
  shows "destroy_at (ring s) h =
     Inr ((ring s)\<lparr>buffer := (buffer (ring s))[nheads s mod N := None]\<rparr>)"
proof -
  note i = sys_invD [OF inv]
  have lt: "nheads s < ntails s" using i(1,5) pc by (auto simp: index_inv_def)
  then have "buffer (ring s) ! (nheads s mod N) = Some (sent s ! nheads s)"
    using live_slot [OF i(2), of "nheads s"] pc by simp
  moreover have "h = pos N (nheads s)" using i(5) pc by simp
  ultimately show ?thesis by (simp add: destroy_at_def get_ptr_pos [OF i(1)])
qed

lemma construct_inv:
  assumes inv: "sys_inv N s" and pc: "prod s p = PConstruct x t nxt"
  shows "sys_inv N (set_prod p (PStoreTail x nxt)
     (s\<lparr>ring := (ring s)\<lparr>buffer := (buffer (ring s))[ntails s mod N := Some x]\<rparr>\<rparr>))" (is "sys_inv N ?s'")
proof (rule holder_step_inv [OF inv])
  note i = sys_invD [OF inv] and w = window [OF sys_invD(1) [OF inv]]
  note h = holder [OF inv, of p, unfolded pc, simplified]
  have len: "ntails s mod N < length (buffer (ring s))" using i(1) w(3) by (simp add: index_inv_def)
  have live: "buffer (ring ?s') ! (j mod N) = buffer (ring s) ! (j mod N)"
    if "nheads s \<le> j" "j < ntails s" for j
    using that w mod_window [of j "ntails s" N] by simp
  have free: "buffer (ring ?s') ! (j mod N) = (if j = ntails s then Some x else None)"
    if "ntails s \<le> j" "j < nheads s + N" for j
    using that w len free_slot [OF i(2) that] mod_window [of "ntails s" j N] by (auto simp: nth_list_update)
  show "index_inv N ?s'" using i(1) by (simp add: index_inv_def)
  show "buffer_inv N ?s'"
    using i(2) h(1) live free by (simp add: buffer_inv_def unpublished_def)
  show "ppc_ok N ?s' (PStoreTail x nxt)" using i(4) [of p] pc by simp
  show "cpc_ok N ?s' (cons ?s')" using i(5) by (cases "cons s") simp_all
qed (simp_all add: pc)

lemma store_tail_inv:
  assumes inv: "sys_inv N s" and pc: "prod s p = PStoreTail x nxt"
  shows "sys_inv N (set_prod p (PUnlock True)
     (s\<lparr>ring := (ring s)\<lparr>tail := nxt\<rparr>, tail_log := tail_log s @ [nxt], sent := sent s @ [x]\<rparr>))"
    (is "sys_inv N ?s'")
proof (rule holder_step_inv [OF inv])
  note i = sys_invD [OF inv] and w = window [OF sys_invD(1) [OF inv]]
  note h = holder [OF inv, of p, unfolded pc, simplified]
  have nxt: "nxt = pos N (Suc (ntails s))" "Suc (ntails s) < head_seen s + N"
    using i(4) [of p] pc by simp_all
  have top: "buffer (ring s) ! (ntails s mod N) = Some x"
    using free_slot [OF i(2), of "ntails s"] w h(4) by simp
  have not_emptied: "nheads s = ntails s \<Longrightarrow> \<not> slot_taken (cons s)"
    using i(1,5) by (cases "cons s") (auto simp: index_inv_def)
  show "index_inv N ?s'" using i(1) nxt by (auto simp: index_inv_def)
  show "buffer_inv N ?s'"
    unfolding buffer_inv_def
  proof (intro conjI allI impI)
    fix j
    assume j: "nheads ?s' \<le> j \<and> j < ntails ?s'"
    show "buffer (ring ?s') ! (j mod N) =
        (if j = nheads ?s' \<and> slot_taken (cons ?s') then None else Some (sent ?s' ! j))"
      using j top not_emptied live_slot [OF i(2), of j]
      by (cases "j = ntails s") (auto simp: nth_append)
  next
    fix j
    assume j: "ntails ?s' \<le> j \<and> j < nheads ?s' + N"
    then show "buffer (ring ?s') ! (j mod N) = (if j = ntails ?s' then unpublished ?s' else None)"
      using free_slot [OF i(2), of j] h(1) by (simp add: unpublished_def)
  qed (use i(1,2) in \<open>auto simp: buffer_inv_def index_inv_def\<close>)
  show "ppc_ok N ?s' (PUnlock True)" by simp
  show "cpc_ok N ?s' (cons ?s')"
    using i(1,5) by (cases "cons s") (auto simp: nth_append index_inv_def)
qed (simp_all add: pc)

lemma destroy_inv:
  assumes inv: "sys_inv N s" and pc: "cons s = CDestroy h x"
  shows "sys_inv N (s\<lparr>cons := CStoreHead h x,
     ring := (ring s)\<lparr>buffer := (buffer (ring s))[nheads s mod N := None]\<rparr>\<rparr>)" (is "sys_inv N ?s'")
proof (rule consumer_step_inv [OF inv])
  note i = sys_invD [OF inv] and w = window [OF sys_invD(1) [OF inv]]
  have lt: "nheads s < ntails s" using i(1,5) pc by (auto simp: index_inv_def)
  have len: "nheads s mod N < length (buffer (ring s))" using i(1) w(3) by (simp add: index_inv_def)
  have other: "buffer (ring ?s') ! (j mod N) = (if j = nheads s then None else buffer (ring s) ! (j mod N))"
    if "nheads s \<le> j" "j < nheads s + N" for j
    using that len mod_window [of "nheads s" j N] by (auto simp: nth_list_update)
  show "index_inv N ?s'" using i(1) by (simp add: index_inv_def)
  show "buffer_inv N ?s'"
    unfolding buffer_inv_def
  proof (intro conjI allI impI)
    fix j
    assume "nheads ?s' \<le> j \<and> j < ntails ?s'"
    then show "buffer (ring ?s') ! (j mod N) =
        (if j = nheads ?s' \<and> slot_taken (cons ?s') then None else Some (sent ?s' ! j))"
      using other [of j] w live_slot [OF i(2), of j] by simp
  next
    fix j
    assume "ntails ?s' \<le> j \<and> j < nheads ?s' + N"
    then show "buffer (ring ?s') ! (j mod N) = (if j = ntails ?s' then unpublished ?s' else None)"
      using other [of j] lt free_slot [OF i(2), of j] by (simp add: unpublished_def split: option.split)
  qed (use i(2) in \<open>auto simp: buffer_inv_def\<close>)
  show "cpc_ok N ?s' (cons ?s')" using i(5) pc by simp
qed simp_all

lemma store_head_inv:
  assumes inv: "sys_inv N s" and pc: "cons s = CStoreHead h x"
    and nxt: "nxt = (h + 1) AND (Capacity (ring s) - 1)"
  shows "sys_inv N (s\<lparr>cons := CIdle, ring := (ring s)\<lparr>head := nxt\<rparr>, head_log := head_log s @ [nxt],
     received := received s @ [x]\<rparr>)" (is "sys_inv N ?s'")
proof (rule consumer_step_inv [OF inv])
  note i = sys_invD [OF inv] and w = window [OF sys_invD(1) [OF inv]]
  have c: "h = pos N (nheads s)" "nheads s < tail_seen s" "x = sent s ! nheads s"
    using i(5) pc by simp_all
  have lt: "nheads s < ntails s" using i(1) c(2) by (auto simp: index_inv_def)
  have nxt': "nxt = pos N (Suc (nheads s))"
    using nxt c(1) i(1) pos_Suc [OF i(6)] by (simp add: index_inv_def)
  have gone: "buffer (ring s) ! (nheads s mod N) = None"
    using live_slot [OF i(2), of "nheads s"] lt pc by simp
  show "index_inv N ?s'" using i(1) nxt' c(2) by (auto simp: index_inv_def)
  show "buffer_inv N ?s'"
    unfolding buffer_inv_def
  proof (intro conjI allI impI)
    show "received ?s' = take (nheads ?s') (sent ?s')"
      using i(2) lt c(3) by (simp add: buffer_inv_def take_Suc_conv_app_nth)
  next
    fix j
    assume "nheads ?s' \<le> j \<and> j < ntails ?s'"
    then show "buffer (ring ?s') ! (j mod N) =
        (if j = nheads ?s' \<and> slot_taken (cons ?s') then None else Some (sent ?s' ! j))"
      using live_slot [OF i(2), of j] by simp
  next
    fix j
    assume j: "ntails ?s' \<le> j \<and> j < nheads ?s' + N"
    show "buffer (ring ?s') ! (j mod N) = (if j = ntails ?s' then unpublished ?s' else None)"
    proof (cases "j = nheads s + N")
      case True
      with gone w show ?thesis by simp
    next
      case False
      with j show ?thesis
        using free_slot [OF i(2), of j] by (simp add: unpublished_def split: option.split)
    qed
  qed (use i(2) in \<open>auto simp: buffer_inv_def\<close>)
qed simp_all

lemma index_inv_cong:
  assumes "index_inv N s" "ring s' = ring s" "sent s' = sent s" "received s' = received s"
    "head_log s' = head_log s" "tail_log s' = tail_log s" "head_seen s \<le> head_seen s'"
    "head_seen s' \<le> nheads s" "nheads s \<le> tail_seen s'" "tail_seen s' \<le> ntails s"
  shows "index_inv N s'"
  using assms by (auto simp: index_inv_def)

lemma buffer_inv_cong:
  assumes "buffer_inv N s" "ring s' = ring s" "sent s' = sent s" "received s' = received s"
    "refused s' = refused s" "fault s' = fault s" "unpublished s' = unpublished s"
    "slot_taken (cons s') = slot_taken (cons s)"
  shows "buffer_inv N s'"
  using assms by (simp add: buffer_inv_def)

lemma cpc_ok_cong:
  "sent s' = sent s \<Longrightarrow> received s' = received s \<Longrightarrow> tail_seen s' = tail_seen s \<Longrightarrow>
     cpc_ok N s' pc = cpc_ok N s pc"
  by (cases pc) simp_all

lemma quiet_holder_step_inv:
  assumes inv: "sys_inv N s" and p: "holds_lock (prod s p)" "holds_lock pc"
    and b: "built (prod s p) = built pc"
    and j: "head_seen s \<le> j" "j \<le> nheads s"
    and pc: "ppc_ok N (s\<lparr>head_seen := j\<rparr>) pc"
  shows "sys_inv N (set_prod p pc (s\<lparr>head_seen := j\<rparr>))" (is "sys_inv N ?s'")
proof (rule holder_step_inv [OF inv p])
  note i = sys_invD [OF inv]
  have "unpublished ?s' = unpublished s"
    using holder(1,4) [OF inv p(1)] b by (simp add: unpublished_def)
  then show "buffer_inv N ?s'" by (intro buffer_inv_cong [OF i(2)]) simp_all
  show "index_inv N ?s'"
    using i(1) j by (intro index_inv_cong [OF i(1)]) (auto simp: index_inv_def)
  show "ppc_ok N ?s' pc" using pc by (cases pc) simp_all
  show "cpc_ok N ?s' (cons ?s')" using i(5) cpc_ok_cong [of ?s' s N "cons s"] by simp
qed simp_all

lemma call_push_inv:
  assumes inv: "sys_inv N s" and pc: "prod s p = PIdle"
  shows "sys_inv N (set_prod p (PSpin x) s)" (is "sys_inv N ?s'")
proof -
  note i = sys_invD [OF inv]
  have own: "owner s \<noteq> Some p" using inv pc by (metis holds_lock.simps(1) lock_inv_def sys_inv_def)
  then have "unpublished ?s' = unpublished s" by (auto simp: unpublished_def split: option.split)
  then have "buffer_inv N ?s'" by (intro buffer_inv_cong [OF i(2)]) simp_all
  moreover have "index_inv N ?s'" using i(1) by (simp add: index_inv_def)
  moreover have "lock_inv ?s'" using i(3) own by (auto simp: lock_inv_def)
  moreover have "ppc_ok N ?s' (prod ?s' p')" for p'
    using i(4) [of p'] ppc_ok_cong [of ?s' s N] by simp
  moreover have "cpc_ok N ?s' (cons ?s')" using i(5) cpc_ok_cong [of ?s' s N "cons s"] by simp
  ultimately show ?thesis by (simp add: sys_inv_def)
qed

lemma acquire_inv:
  assumes inv: "sys_inv N s" and pc: "prod s p = PSpin x" and free: "\<not> push_lock s"
  shows "sys_inv N (set_prod p (PLoadTail x) (s\<lparr>push_lock := True, owner := Some p\<rparr>))" (is "sys_inv N ?s'")
proof -
  note i = sys_invD [OF inv]
  have "owner s = None" using i(3) free by (simp add: lock_inv_def)
  moreover from this have "\<not> holds_lock (prod s p')" for p'
    using i(3) by (simp add: lock_inv_def)
  ultimately have "lock_inv ?s'" "unpublished ?s' = unpublished s"
    by (auto simp: lock_inv_def unpublished_def)
  moreover from this have "buffer_inv N ?s'" by (intro buffer_inv_cong [OF i(2)]) simp_all
  moreover have "index_inv N ?s'" using i(1) by (simp add: index_inv_def)
  moreover have "ppc_ok N ?s' (prod ?s' p')" for p'
    using i(4) [of p'] ppc_ok_cong [of ?s' s N] by simp
  moreover have "cpc_ok N ?s' (cons ?s')" using i(5) cpc_ok_cong [of ?s' s N "cons s"] by simp
  ultimately show ?thesis by (simp add: sys_inv_def)
qed

lemma unlock_inv:
  assumes inv: "sys_inv N s" and pc: "prod s p = PUnlock done"
  shows "sys_inv N (set_prod p PIdle (s\<lparr>push_lock := False, owner := None\<rparr>))" (is "sys_inv N ?s'")
proof -
  note i = sys_invD [OF inv] and h = holder [OF inv, of p, unfolded pc, simplified]
  have "unpublished ?s' = unpublished s" using h by (simp add: unpublished_def pc)
  then have "buffer_inv N ?s'" by (intro buffer_inv_cong [OF i(2)]) simp_all
  moreover have "index_inv N ?s'" using i(1) by (simp add: index_inv_def)
  moreover have "lock_inv ?s'" using h by (auto simp: lock_inv_def)
  moreover have "ppc_ok N ?s' (prod ?s' p')" for p'
    using i(4) [of p'] ppc_ok_cong [of ?s' s N] by simp
  moreover have "cpc_ok N ?s' (cons ?s')" using i(5) cpc_ok_cong [of ?s' s N "cons s"] by simp
  ultimately show ?thesis by (simp add: sys_inv_def)
qed

lemma drop_inv:
  assumes inv: "sys_inv N s" and pc: "prod s p = PDrop x"
  shows "sys_inv N (set_prod p (PUnlock False)
     (s\<lparr>ring := (ring s)\<lparr>dropped := dropped (ring s) + 1\<rparr>, refused := refused s @ [x]\<rparr>))" (is "sys_inv N ?s'")
proof (rule holder_step_inv [OF inv])
  note i = sys_invD [OF inv] and h = holder [OF inv, of p, unfolded pc, simplified]
  have "unpublished ?s' = unpublished s" using h by (simp add: unpublished_def pc)
  with i(2) show "buffer_inv N ?s'" by (simp add: buffer_inv_def)
  show "index_inv N ?s'" using i(1) by (simp add: index_inv_def)
  show "ppc_ok N ?s' (PUnlock False)" by simp
  show "cpc_ok N ?s' (cons ?s')" using i(5) cpc_ok_cong [of ?s' s N "cons s"] by simp
qed (simp_all add: pc)

text \<open>A consumer step that writes neither memory nor the logs.\<close>

lemma quiet_consumer_step_inv:
  assumes inv: "sys_inv N s" and e: "slot_taken pc = slot_taken (cons s)"
    and j: "tail_seen s \<le> j" "j \<le> ntails s" and pc: "cpc_ok N (s\<lparr>tail_seen := j\<rparr>) pc"
  shows "sys_inv N (s\<lparr>cons := pc, tail_seen := j\<rparr>)" (is "sys_inv N ?s'")
proof (rule consumer_step_inv [OF inv])
  note i = sys_invD [OF inv]
  show "index_inv N ?s'"
    using i(1) j by (intro index_inv_cong [OF i(1)]) (auto simp: index_inv_def)
  have "unpublished ?s' = unpublished s" by (simp add: unpublished_def split: option.split)
  then show "buffer_inv N ?s'" using e by (intro buffer_inv_cong [OF i(2)]) simp_all
  show "cpc_ok N ?s' (cons ?s')" using pc by (cases pc) simp_all
qed simp_all

theorem mpsc_step_inv [inv_preserved]:
  assumes "mpsc_step s s'" and inv: "sys_inv N s"
  shows "sys_inv N s'"
  using assms(1)
proof cases
  case (load_tail p x t)
  note i = sys_invD [OF inv]
  have "nheads s \<le> nheads s" "head_seen s \<le> nheads s" using i(1) by (simp_all add: index_inv_def)
  moreover have "(t + 1) AND (Capacity (ring s) - 1) = pos N (Suc (ntails s))"
    using i(1) load_tail pos_Suc [OF i(6), of "ntails s"] by (simp add: index_inv_def)
  ultimately show ?thesis
    using load_tail i(1) quiet_holder_step_inv [OF inv, of p _ "head_seen s"] by (simp add: index_inv_def)
next
  case (load_head_full p x t nxt j)
  then show ?thesis
    using quiet_holder_step_inv [OF inv, of p "PDrop x" j] load_head_value [OF sys_invD(1) [OF inv]] by simp
next
  case (load_head_room p x t nxt j)
  note i = sys_invD [OF inv] and w = window [OF sys_invD(1) [OF inv]]
  have v: "head_log s ! j = pos N j" "j \<le> nheads s"
    using load_head_value [OF i(1)] load_head_room by simp_all
  have pc: "t = pos N (ntails s)" "nxt = pos N (Suc (ntails s))" using i(4) [of p] load_head_room by simp_all
  have "j \<le> ntails s" "ntails s < j + N"
    using v w i(1) load_head_room by (auto simp: index_inv_def)
  then have "Suc (ntails s) < j + N"
    using pos_full_eq [OF i(6), of j "ntails s"] load_head_room v pc by auto
  then show ?thesis
    using quiet_holder_step_inv [OF inv, of p "PConstruct x t nxt" j] load_head_room v pc by simp
next
  case (construct p x t nxt r)
  then show ?thesis using construct_ok [OF inv construct(2)] construct_inv [OF inv construct(2)] by auto
next
  case (construct_fault p x t nxt e)
  then show ?thesis using construct_ok [OF inv] by simp
next
  case (call_pop)
  note i = sys_invD [OF inv]
  have "tail_seen s \<le> ntails s" "head (ring s) = pos N (nheads s)" using i(1) by (simp_all add: index_inv_def)
  then show ?thesis
    using quiet_consumer_step_inv [OF inv, of "CLoadTail (head (ring s))" "tail_seen s"] call_pop by simp
next
  case (load_tail_empty h j)
  then show ?thesis
    using quiet_consumer_step_inv [OF inv, of CIdle j] load_tail_value [OF sys_invD(1) [OF inv]] by simp
next
  case (load_tail_item h j)
  note i = sys_invD [OF inv]
  have v: "tail_log s ! j = pos N j" "j \<le> ntails s"
    using load_tail_value [OF i(1)] load_tail_item by simp_all
  have h: "h = pos N (nheads s)" using i(5) load_tail_item by simp
  have "nheads s \<noteq> j" using load_tail_item v h by auto
  then have "nheads s < j" using i(1) load_tail_item by (simp add: index_inv_def)
  then show ?thesis
    using quiet_consumer_step_inv [OF inv, of "CMove h" j] load_tail_item v h by simp
next
  case (move h x)
  note i = sys_invD [OF inv]
  have "tail_seen s \<le> ntails s" using i(1) by (simp add: index_inv_def)
  then show ?thesis
    using quiet_consumer_step_inv [OF inv, of "CDestroy h x" "tail_seen s"] move i(5) read_ok [OF inv] by simp
next
  case (move_fault h e)
  then show ?thesis using read_ok [OF inv] by simp
next
  case (destroy h x r)
  then show ?thesis using destroy_ok [OF inv destroy(2)] destroy_inv [OF inv destroy(2)] by auto
next
  case (destroy_fault h x e)
  then show ?thesis using destroy_ok [OF inv] by simp
qed (use inv in \<open>blast intro: call_push_inv acquire_inv drop_inv store_tail_inv unlock_inv store_head_inv\<close>)+

lemma mpsc_init_inv:
  assumes "k < 64"
  shows "sys_inv (2 ^ k) (mpsc_sys_init (2 ^ k))"
proof -
  have "unat ((2 :: u64) ^ k) = 2 ^ k" using assms by (rule unat_pow2_u64)
  then show ?thesis
    using assms by (auto simp: sys_inv_def index_inv_def buffer_inv_def lock_inv_def unpublished_def
        mpsc_sys_init_def mpsc_new_def pos_def)
qed

lemma mpsc_reachable_inv:
  assumes "k < 64" "mpsc_reachable (2 ^ k) s"
  shows "sys_inv (2 ^ k) s"
  using assms(2) by induction (simp_all add: mpsc_init_inv assms(1) mpsc_step_inv)

subsection \<open>Quiescent states are states of the sequential queue\<close>

definition quiescent :: "'a mpsc_sys \<Rightarrow> bool" where
  "quiescent s \<longleftrightarrow> \<not> push_lock s \<and> cons s = CIdle"

lemma ring_idx_mod:
  assumes "0 < N" "i < N"
  shows "ring_idx N (h mod N) i = (h + i) mod N"
proof -
  have eq: "(h + i) mod N = (h mod N + i) mod N" by (simp only: mod_add_left_eq)
  have lt: "h mod N < N" using assms(1) by simp
  show ?thesis
  proof (cases "h mod N + i < N")
    case False
    then have "(h mod N + i) mod N = h mod N + i - N"
      using lt assms(2) le_mod_geq [of N "h mod N + i"] mod_less [of "h mod N + i - N" N] by linarith
    with False show ?thesis by (simp only: eq) (simp add: ring_idx_def)
  qed (simp add: ring_idx_def eq)
qed

lemma ring_dist_mod:
  assumes "0 < N" "h \<le> t" "t < h + N"
  shows "ring_dist N (h mod N) (t mod N) = t - h"
proof -
  have "t mod N = ring_idx N (h mod N) (t - h)"
    using assms ring_idx_mod [of N "t - h" h] by simp
  then show ?thesis using assms ring_dist_idx [of "h mod N" N "t - h"] by simp
qed

lemma quiescent_abstraction:
  assumes inv: "sys_inv N s" and q: "quiescent s"
  shows "mpsc_inv (ring s)" "queue_list (ring s) = drop (nheads s) (sent s)"
proof -
  note i = sys_invD [OF inv] and w = window [OF sys_invD(1) [OF inv]]
  have none: "unpublished s = None" "\<not> slot_taken (cons s)"
    using i(3) q by (auto simp: quiescent_def lock_inv_def unpublished_def)
  obtain k where k: "k < 64" "N = 2 ^ k" using i(6) by (auto simp: ring_capacity_def)
  have N: "ring_size (ring s) = N" using i(1) k by (simp add: ring_size_def index_inv_def unat_pow2_u64)
  have ht: "unat (head (ring s)) = nheads s mod N" "unat (tail (ring s)) = ntails s mod N"
    using i(1) unat_pos [OF i(6)] by (simp_all add: index_inv_def)
  have u: "used (ring s) = ntails s - nheads s"
    using ring_dist_mod [OF w(3,1,2)] by (simp add: used_def N ht)
  have slot: "buffer (ring s) ! ((nheads s + d) mod N) =
      (if d < ntails s - nheads s then Some (sent s ! (nheads s + d)) else None)" if "d < N" for d
    using that none live_slot [OF i(2), of "nheads s + d"] free_slot [OF i(2), of "nheads s + d"] by auto
  have live: "buffer (ring s) ! j \<noteq> None \<longleftrightarrow> ring_dist N (nheads s mod N) j < used (ring s)"
    if j: "j < N" for j
  proof -
    let ?d = "ring_dist N (nheads s mod N) j"
    have d: "?d < N" "ring_idx N (nheads s mod N) ?d = j"
      using w(3) j ring_dist_less ring_idx_dist by simp_all
    then have "j = (nheads s + ?d) mod N" using ring_idx_mod [OF w(3) d(1)] by metis
    then show ?thesis using slot [OF d(1)] u by simp
  qed
  have cap: "\<exists>k < 64. Capacity (ring s) = 2 ^ k" "length (buffer (ring s)) = N"
    using i(1) k by (auto simp: index_inv_def)
  show "mpsc_inv (ring s)"
    unfolding mpsc_inv_def N ht using cap w(3) live by simp
  show "queue_list (ring s) = drop (nheads s) (sent s)"
    using w slot by (intro nth_equalityI) (simp_all add: queue_list_nth u N ht ring_idx_mod)
qed

subsection \<open>An undisturbed call is the sequential operation\<close>

lemma solo_push_full:
  assumes pc: "prod s p = PIdle" "\<not> push_lock s" and log: "head_seen s \<le> j" "j < length (head_log s)"
    and full: "(tail (ring s) + 1) AND (Capacity (ring s) - 1) = head_log s ! j"
  shows "mpsc_step\<^sup>*\<^sup>* s (set_prod p PIdle (s\<lparr>head_seen := j, ring := (ring s)\<lparr>dropped := dropped (ring s) + 1\<rparr>,
           refused := refused s @ [x], push_lock := False, owner := None\<rparr>))"
proof -
  let ?nxt = "(tail (ring s) + 1) AND (Capacity (ring s) - 1)"
  let ?s1 = "set_prod p (PSpin x) s"
  let ?s2 = "set_prod p (PLoadTail x) (s\<lparr>push_lock := True, owner := Some p\<rparr>)"
  let ?s3 = "set_prod p (PLoadHead x (tail (ring s)) ?nxt) (s\<lparr>push_lock := True, owner := Some p\<rparr>)"
  let ?s4 = "set_prod p (PDrop x) (s\<lparr>push_lock := True, owner := Some p, head_seen := j\<rparr>)"
  let ?s5 = "set_prod p (PUnlock False) (s\<lparr>push_lock := True, owner := Some p, head_seen := j,
     ring := (ring s)\<lparr>dropped := dropped (ring s) + 1\<rparr>, refused := refused s @ [x]\<rparr>)"
  have "mpsc_step s ?s1" using mpsc_step.call_push [of s p x] pc by simp
  moreover have "mpsc_step ?s1 ?s2" using mpsc_step.lock [of ?s1 p x] pc by simp
  moreover have "mpsc_step ?s2 ?s3" using mpsc_step.load_tail [of ?s2 p x "tail (ring s)"] by simp
  moreover have "mpsc_step ?s3 ?s4"
    using mpsc_step.load_head_full [of ?s3 p x "tail (ring s)" ?nxt j] log full by simp
  moreover have "mpsc_step ?s4 ?s5" using mpsc_step.drop_item [of ?s4 p x] by simp
  moreover have "mpsc_step ?s5 (set_prod p PIdle (s\<lparr>head_seen := j, ring := (ring s)\<lparr>dropped := dropped (ring s) + 1\<rparr>,
           refused := refused s @ [x], push_lock := False, owner := None\<rparr>))"
    using mpsc_step.unlock [of ?s5 p False] by simp
  ultimately show ?thesis by (meson converse_rtranclp_into_rtranclp rtranclp.rtrancl_refl)
qed

lemma solo_push_room:
  assumes pc: "prod s p = PIdle" "\<not> push_lock s" and log: "head_seen s \<le> j" "j < length (head_log s)"
    and nxt: "nxt = (tail (ring s) + 1) AND (Capacity (ring s) - 1)" "nxt \<noteq> head_log s ! j"
    and r: "construct_at (ring s) (tail (ring s)) x = Inr r"
  shows "mpsc_step\<^sup>*\<^sup>* s (set_prod p PIdle (s\<lparr>head_seen := j, ring := r\<lparr>tail := nxt\<rparr>,
           tail_log := tail_log s @ [nxt], sent := sent s @ [x], push_lock := False, owner := None\<rparr>))"
proof -
  let ?t = "tail (ring s)"
  let ?s1 = "set_prod p (PSpin x) s"
  let ?l = "s\<lparr>push_lock := True, owner := Some p\<rparr>"
  let ?s2 = "set_prod p (PLoadTail x) ?l"
  let ?s3 = "set_prod p (PLoadHead x ?t nxt) ?l"
  let ?s4 = "set_prod p (PConstruct x ?t nxt) (?l\<lparr>head_seen := j\<rparr>)"
  let ?s5 = "set_prod p (PStoreTail x nxt) (?l\<lparr>head_seen := j, ring := r\<rparr>)"
  let ?s6 = "set_prod p (PUnlock True) (?l\<lparr>head_seen := j, ring := r\<lparr>tail := nxt\<rparr>,
     tail_log := tail_log s @ [nxt], sent := sent s @ [x]\<rparr>)"
  have "mpsc_step s ?s1" using mpsc_step.call_push [of s p x] pc by simp
  moreover have "mpsc_step ?s1 ?s2" using mpsc_step.lock [of ?s1 p x] pc by simp
  moreover have "mpsc_step ?s2 ?s3" using mpsc_step.load_tail [of ?s2 p x ?t] nxt(1) by simp
  moreover have "mpsc_step ?s3 ?s4"
    using mpsc_step.load_head_room [of ?s3 p x ?t nxt j] log nxt(2) by simp
  moreover have "mpsc_step ?s4 ?s5" using mpsc_step.construct [of ?s4 p x ?t nxt r] r by simp
  moreover have "mpsc_step ?s5 ?s6" using mpsc_step.store_tail [of ?s5 p x nxt] by simp
  moreover have "mpsc_step ?s6 (set_prod p PIdle (s\<lparr>head_seen := j, ring := r\<lparr>tail := nxt\<rparr>,
           tail_log := tail_log s @ [nxt], sent := sent s @ [x], push_lock := False, owner := None\<rparr>))"
    using mpsc_step.unlock [of ?s6 p True] by simp
  ultimately show ?thesis by (meson converse_rtranclp_into_rtranclp rtranclp.rtrancl_refl)
qed

subsection \<open>Progress\<close>

text \<open>How many of its own steps a thread is away from the end of its call.\<close>

fun push_rank :: "'a ppc \<Rightarrow> nat" where
  "push_rank PIdle = 0"
| "push_rank (PSpin _) = 6"
| "push_rank (PLoadTail _) = 5"
| "push_rank (PLoadHead _ _ _) = 4"
| "push_rank (PConstruct _ _ _) = 3"
| "push_rank (PStoreTail _ _) = 2"
| "push_rank (PDrop _) = 2"
| "push_rank (PUnlock _) = 1"

fun pop_rank :: "'a cpc \<Rightarrow> nat" where
  "pop_rank CIdle = 0"
| "pop_rank (CLoadTail _) = 4"
| "pop_rank (CMove _) = 3"
| "pop_rank (CDestroy _ _) = 2"
| "pop_rank (CStoreHead _ _) = 1"

text \<open>A step of somebody else than the producer \<open>p\<close>, or than the consumer; a spin changes nothing.\<close>

definition spins :: "'a mpsc_sys \<Rightarrow> 'a mpsc_sys \<Rightarrow> bool" where
  "spins s s' \<longleftrightarrow> s' = s \<and> push_lock s \<and> (\<exists>q x. prod s q = PSpin x)"

definition other_than_producer :: "nat \<Rightarrow> 'a mpsc_sys \<Rightarrow> 'a mpsc_sys \<Rightarrow> bool" where
  "other_than_producer p s s' \<longleftrightarrow> prod s' p = prod s p \<and>
     (cons s' \<noteq> cons s \<or> (\<exists>q. q \<noteq> p \<and> prod s' q \<noteq> prod s q) \<or> spins s s')"

definition other_than_consumer :: "'a mpsc_sys \<Rightarrow> 'a mpsc_sys \<Rightarrow> bool" where
  "other_than_consumer s s' \<longleftrightarrow> cons s' = cons s \<and> ((\<exists>q. prod s' q \<noteq> prod s q) \<or> spins s s')"

lemma holder_step_ranks:
  assumes inv: "sys_inv N s" and p: "holds_lock (prod s p)" and st: "mpsc_step s s'"
  shows "(push_rank (prod s' p) < push_rank (prod s p) \<and> (push_rank (prod s' p) = 0 \<longrightarrow> \<not> push_lock s')) \<or>
    other_than_producer p s s'"
proof -
  have other: "prod s q \<noteq> PSpin x \<or> q \<noteq> p" "prod s q \<noteq> PIdle \<or> q \<noteq> p" for q x using p by auto
  from st show ?thesis
  proof cases
    case (construct_fault q x t nxt e)
    then show ?thesis using construct_ok [OF inv construct_fault(2)] by simp
  next
    case (move_fault h e)
    then show ?thesis using read_ok [OF inv move_fault(2)] by simp
  next
    case (destroy_fault h x e)
    then show ?thesis using destroy_ok [OF inv destroy_fault(2)] by simp
  qed (use p in \<open>auto simp: other_than_producer_def spins_def\<close>)
qed

lemma consumer_step_ranks:
  assumes inv: "sys_inv N s" and c: "cons s \<noteq> CIdle" and st: "mpsc_step s s'"
  shows "pop_rank (cons s') < pop_rank (cons s) \<or> other_than_consumer s s'"
  using st
proof cases
  case (construct_fault q x t nxt e)
  then show ?thesis using construct_ok [OF inv construct_fault(2)] by simp
next
  case (move_fault h e)
  then show ?thesis using read_ok [OF inv move_fault(2)] by simp
next
  case (destroy_fault h x e)
  then show ?thesis using destroy_ok [OF inv destroy_fault(2)] by simp
qed (use c in \<open>auto simp: other_than_consumer_def spins_def\<close>)

text \<open>A rank bounds how often its value changes.\<close>

lemma changes_bounded:
  fixes f :: "nat \<Rightarrow> 'b" and rank :: "'b \<Rightarrow> nat"
  assumes "\<And>i. i < n \<Longrightarrow> f (Suc i) = f i \<or> rank (f (Suc i)) < rank (f i)"
  shows "card {i. i < n \<and> f (Suc i) \<noteq> f i} + rank (f n) \<le> rank (f 0)"
  using assms
proof (induction n)
  case (Suc n)
  have fin: "finite {i. i < n \<and> f (Suc i) \<noteq> f i}" by simp
  show ?case
  proof (cases "f (Suc n) = f n")
    case True
    then have "{i. i < Suc n \<and> f (Suc i) \<noteq> f i} = {i. i < n \<and> f (Suc i) \<noteq> f i}" by (auto simp: less_Suc_eq)
    with Suc True show ?thesis by simp
  next
    case False
    then have "{i. i < Suc n \<and> f (Suc i) \<noteq> f i} = insert n {i. i < n \<and> f (Suc i) \<noteq> f i}" by (auto simp: less_Suc_eq)
    with fin have "card {i. i < Suc n \<and> f (Suc i) \<noteq> f i} = Suc (card {i. i < n \<and> f (Suc i) \<noteq> f i})" by simp
    moreover have "rank (f (Suc n)) < rank (f n)" using False Suc.prems [of n] by simp
    moreover have "card {i. i < n \<and> f (Suc i) \<noteq> f i} + rank (f n) \<le> rank (f 0)" using Suc by simp
    ultimately show ?thesis by linarith
  qed
qed simp

lemma run_inv:
  assumes "sys_inv N (\<sigma> 0)" "\<And>i. i < n \<Longrightarrow> mpsc_step (\<sigma> i) (\<sigma> (Suc i))" "i \<le> n"
  shows "sys_inv N (\<sigma> i)"
  using assms(3)
proof (induction i)
  case (Suc i)
  then show ?case using mpsc_step_inv [OF assms(2) [of i]] by simp
qed (use assms(1) in simp)

lemma holder_changes:
  assumes "sys_inv N (\<sigma> 0)" "\<And>i. i < n \<Longrightarrow> mpsc_step (\<sigma> i) (\<sigma> (Suc i))" "\<And>i. i \<le> n \<Longrightarrow> holds_lock (prod (\<sigma> i) p)"
  shows "card {i. i < n \<and> prod (\<sigma> (Suc i)) p \<noteq> prod (\<sigma> i) p} \<le> 4"
proof -
  have "card {i. i < n \<and> prod (\<sigma> (Suc i)) p \<noteq> prod (\<sigma> i) p} + push_rank (prod (\<sigma> n) p) \<le> push_rank (prod (\<sigma> 0) p)"
  proof (rule changes_bounded [where f = "\<lambda>i. prod (\<sigma> i) p"])
    fix i assume i: "i < n"
    show "prod (\<sigma> (Suc i)) p = prod (\<sigma> i) p \<or> push_rank (prod (\<sigma> (Suc i)) p) < push_rank (prod (\<sigma> i) p)"
      using holder_step_ranks [OF run_inv [of N \<sigma> n i] assms(3) [of i] assms(2) [of i]] assms(1,2) i by (auto simp: other_than_producer_def)
  qed
  moreover have "push_rank (prod (\<sigma> n) p) \<ge> 1" using assms(3) [of n] by (cases "prod (\<sigma> n) p") simp_all
  moreover have "push_rank (prod (\<sigma> 0) p) \<le> 5" using assms(3) [of 0] by (cases "prod (\<sigma> 0) p") simp_all
  ultimately show ?thesis by linarith
qed

lemma consumer_changes:
  assumes "sys_inv N (\<sigma> 0)" "\<And>i. i < n \<Longrightarrow> mpsc_step (\<sigma> i) (\<sigma> (Suc i))" "\<And>i. i \<le> n \<Longrightarrow> cons (\<sigma> i) \<noteq> CIdle"
  shows "card {i. i < n \<and> cons (\<sigma> (Suc i)) \<noteq> cons (\<sigma> i)} \<le> 3"
proof -
  have "card {i. i < n \<and> cons (\<sigma> (Suc i)) \<noteq> cons (\<sigma> i)} + pop_rank (cons (\<sigma> n)) \<le> pop_rank (cons (\<sigma> 0))"
  proof (rule changes_bounded [where f = "\<lambda>i. cons (\<sigma> i)"])
    fix i assume i: "i < n"
    show "cons (\<sigma> (Suc i)) = cons (\<sigma> i) \<or> pop_rank (cons (\<sigma> (Suc i))) < pop_rank (cons (\<sigma> i))"
      using consumer_step_ranks [OF run_inv [of N \<sigma> n i] assms(3) [of i] assms(2) [of i]] assms(1,2) i by (auto simp: other_than_consumer_def)
  qed
  moreover have "pop_rank (cons (\<sigma> n)) \<ge> 1" using assms(3) [of n] by (cases "cons (\<sigma> n)") simp_all
  moreover have "pop_rank (cons (\<sigma> 0)) \<le> 4" by (cases "cons (\<sigma> 0)") simp_all
  ultimately show ?thesis by linarith
qed

lemma holder_progress:
  assumes inv: "sys_inv N s" and p: "holds_lock (prod s p)"
  shows "\<exists>s'. mpsc_step s s' \<and> push_rank (prod s' p) < push_rank (prod s p)"
proof -
  note i = sys_invD [OF inv]
  show ?thesis
  proof (cases "prod s p")
    case (PLoadTail x)
    then show ?thesis using mpsc_step.load_tail [of s p x] by (intro exI conjI) auto
  next
    case (PLoadHead x t nxt)
    have j: "head_seen s < length (head_log s)" using i(1) by (simp add: index_inv_def)
    show ?thesis
    proof (cases "nxt = head_log s ! head_seen s")
      case True
      then show ?thesis
        using mpsc_step.load_head_full [OF PLoadHead _ j] PLoadHead by (intro exI conjI) auto
    next
      case False
      then show ?thesis
        using mpsc_step.load_head_room [OF PLoadHead _ j] PLoadHead by (intro exI conjI) auto
    qed
  next
    case (PDrop x)
    then show ?thesis using mpsc_step.drop_item [of s p x] by (intro exI conjI) auto
  next
    case (PConstruct x t nxt)
    then show ?thesis
      using mpsc_step.construct [OF PConstruct construct_ok [OF inv PConstruct]] by (intro exI conjI) auto
  next
    case (PStoreTail x nxt)
    then show ?thesis using mpsc_step.store_tail [OF PStoreTail] by (intro exI conjI) auto
  next
    case (PUnlock b)
    then show ?thesis using mpsc_step.unlock [OF PUnlock] by (intro exI conjI) auto
  qed (use p in auto)
qed

lemma consumer_progress:
  assumes inv: "sys_inv N s" and c: "cons s \<noteq> CIdle"
  shows "\<exists>s'. mpsc_step s s' \<and> pop_rank (cons s') < pop_rank (cons s)"
proof -
  note i = sys_invD [OF inv]
  show ?thesis
  proof (cases "cons s")
    case (CLoadTail h)
    have j: "tail_seen s < length (tail_log s)" using i(1) by (simp add: index_inv_def)
    show ?thesis
    proof (cases "h = tail_log s ! tail_seen s")
      case True
      then show ?thesis
        using mpsc_step.load_tail_empty [OF CLoadTail _ j] CLoadTail by (intro exI conjI) auto
    next
      case False
      then show ?thesis
        using mpsc_step.load_tail_item [OF CLoadTail _ j] CLoadTail by (intro exI conjI) auto
    qed
  next
    case (CMove h)
    then show ?thesis using mpsc_step.move [OF CMove read_ok [OF inv CMove]] by (intro exI conjI) auto
  next
    case (CDestroy h x)
    then show ?thesis
      using mpsc_step.destroy [OF CDestroy destroy_ok [OF inv CDestroy]] by (intro exI conjI) auto
  next
    case (CStoreHead h x)
    then show ?thesis using mpsc_step.store_head [OF CStoreHead refl] by (intro exI conjI) auto
  qed (use c in simp)
qed

subsection \<open>Properties\<close>

text \<open>
  C5. Under every interleaving of any number of producers with the consumer, and with index
  loads that may be stale: no access ever leaves an object's lifetime or the buffer, at
  most one producer is inside the critical section, and a producer building an object never
  does so in the slot the consumer is moving from or destroying.
\<close>

theorem mpsc_concurrent_safe:
  assumes "k < 64" and "mpsc_reachable (2 ^ k) s"
  shows "fault s = None \<and>
    (\<forall>p p'. holds_lock (prod s p) \<and> holds_lock (prod s p') \<longrightarrow> p = p') \<and>
    (\<forall>p x t nxt h y. prod s p = PConstruct x t nxt \<and> (cons s = CMove h \<or> cons s = CDestroy h y) \<longrightarrow> t \<noteq> h)"
proof (intro conjI allI impI)
  note inv = mpsc_reachable_inv [OF assms] and i = sys_invD [OF mpsc_reachable_inv [OF assms]]
  show "fault s = None" using i(2) by (simp add: buffer_inv_def)
  show "p = p'" if "holds_lock (prod s p) \<and> holds_lock (prod s p')" for p p'
    using that holder(3) [OF inv] by blast
  show "t \<noteq> h" if "prod s p = PConstruct x t nxt \<and> (cons s = CMove h \<or> cons s = CDestroy h y)" for p x t nxt h y
  proof -
    have "t = pos (2 ^ k) (ntails s)" using i(4) [of p] that by simp
    moreover have "h = pos (2 ^ k) (nheads s)" "nheads s < ntails s"
      using i(1,5) that by (auto simp: index_inv_def)
    ultimately show ?thesis
      using pos_window_eq [OF i(6), of "nheads s" "ntails s"] window [OF i(1)] by simp
  qed
qed

theorem mpsc_concurrent_safe_witness:
  "fault (mpsc_sys_init (2 ^ 9) :: int mpsc_sys) = None"
  using mpsc_concurrent_safe [of 9 "mpsc_sys_init (2 ^ 9) :: int mpsc_sys", OF _ mpsc_reachable.start] by simp

text \<open>
  The concurrent queue is a FIFO: what the consumer has received is an initial part of
  what the producers have published, in publication order, nothing lost or duplicated; at
  most \<open>Capacity - 1\<close> items are in flight; the counter counts the refused items.
\<close>

theorem mpsc_concurrent_fifo:
  assumes "k < 64" and "mpsc_reachable (2 ^ k) s"
  shows "\<exists>in_flight. sent s = received s @ in_flight \<and> length in_flight \<le> 2 ^ k - 1 \<and>
           dropped_count (ring s) = of_nat (length (refused s))"
proof (intro exI conjI)
  note i = sys_invD [OF mpsc_reachable_inv [OF assms]] and w = window [OF sys_invD(1) [OF mpsc_reachable_inv [OF assms]]]
  show "sent s = received s @ drop (nheads s) (sent s)"
    using i(2) by (metis append_take_drop_id buffer_inv_def)
  show "length (drop (nheads s) (sent s)) \<le> 2 ^ k - 1" using w by simp
  show "dropped_count (ring s) = of_nat (length (refused s))"
    using i(2) by (simp add: buffer_inv_def dropped_count_def)
qed

theorem mpsc_concurrent_fifo_witness:
  "\<exists>in_flight. sent (mpsc_sys_init (2 ^ 9) :: int mpsc_sys) =
       received (mpsc_sys_init (2 ^ 9) :: int mpsc_sys) @ in_flight \<and> length in_flight \<le> 2 ^ 9 - 1"
  using mpsc_concurrent_fifo [of 9 "mpsc_sys_init (2 ^ 9) :: int mpsc_sys", OF _ mpsc_reachable.start] by auto

text \<open>
  The concurrent and the sequential model agree: whenever no call is in progress the
  shared memory satisfies the sequential invariant and holds, as a list, the published
  items not yet received; and from any such state an undisturbed \<open>push\<close> by any thread
  ends in the memory the sequential \<open>push\<close> computes.
\<close>

theorem mpsc_concurrent_matches_sequential:
  assumes "k < 64" and "mpsc_reachable (2 ^ k) s" and "quiescent s" and "prod s p = PIdle"
  shows "mpsc_inv (ring s) \<and> sent s = received s @ queue_list (ring s) \<and>
    (\<exists>s' done. mpsc_step\<^sup>*\<^sup>* s s' \<and> quiescent s' \<and> prod s' p = PIdle \<and>
        push (ring s) x = Inr (done, ring s'))"
proof (intro conjI)
  note inv = mpsc_reachable_inv [OF assms(1,2)]
  note i = sys_invD [OF inv] and q = quiescent_abstraction [OF inv assms(3)]
  show "mpsc_inv (ring s)" by (rule q(1))
  show "sent s = received s @ queue_list (ring s)"
    using i(2) by (metis append_take_drop_id buffer_inv_def q(2))
  let ?j = "nheads s"
  have log: "head_seen s \<le> ?j" "?j < length (head_log s)" "head_log s ! ?j = head (ring s)"
    using i(1) by (auto simp: index_inv_def nth_append simp del: upt_Suc)
  note pc = assms(4) assms(3) [unfolded quiescent_def, THEN conjunct1]
  let ?nxt = "(tail (ring s) + 1) AND (Capacity (ring s) - 1)"
  show "\<exists>s' done. mpsc_step\<^sup>*\<^sup>* s s' \<and> quiescent s' \<and> prod s' p = PIdle \<and> push (ring s) x = Inr (done, ring s')"
  proof (cases "?nxt = head (ring s)")
    case True
    let ?s' = "set_prod p PIdle (s\<lparr>head_seen := ?j, ring := (ring s)\<lparr>dropped := dropped (ring s) + 1\<rparr>,
       refused := refused s @ [x], push_lock := False, owner := None\<rparr>)"
    have "mpsc_step\<^sup>*\<^sup>* s ?s'"
      by (rule solo_push_full [OF pc log(1,2)]) (simp only: log(3) True)
    moreover have "push (ring s) x = Inr (False, ring ?s')" using True by (simp add: push_def Let_def)
    moreover have "quiescent ?s'" using assms(3) by (simp add: quiescent_def)
    moreover have "prod ?s' p = PIdle" by simp
    ultimately show ?thesis by blast
  next
    case False
    obtain r where r: "construct_at (ring s) (tail (ring s)) x = Inr r"
      using construct_at_tail [OF q(1) False] by blast
    let ?s' = "set_prod p PIdle (s\<lparr>head_seen := ?j, ring := r\<lparr>tail := ?nxt\<rparr>,
       tail_log := tail_log s @ [?nxt], sent := sent s @ [x], push_lock := False, owner := None\<rparr>)"
    have "mpsc_step\<^sup>*\<^sup>* s ?s'"
      by (rule solo_push_room [OF pc log(1,2) refl _ r]) (simp only: log(3) False not_False_eq_True)
    moreover have "push (ring s) x = Inr (True, ring ?s')" using False r by (simp add: push_def Let_def)
    moreover have "quiescent ?s'" using assms(3) by (simp add: quiescent_def)
    moreover have "prod ?s' p = PIdle" by simp
    ultimately show ?thesis by blast
  qed
qed

theorem mpsc_concurrent_matches_sequential_witness:
  "mpsc_inv (ring (mpsc_sys_init (2 ^ 9) :: int mpsc_sys)) \<and>
   (\<exists>s' done. mpsc_step\<^sup>*\<^sup>* (mpsc_sys_init (2 ^ 9)) s' \<and> quiescent s' \<and>
      push (ring (mpsc_sys_init (2 ^ 9))) (5 :: int) = Inr (done, ring s'))"
  using mpsc_concurrent_matches_sequential [of 9 "mpsc_sys_init (2 ^ 9)" 0 "5 :: int", OF _ mpsc_reachable.start]
  by (auto simp: quiescent_def mpsc_sys_init_def)

text \<open>
  C28. Nobody blocks. The holder of the producers' lock can always take a step, and every step
  of anybody either is one of another thread or brings the holder nearer to the release; so it
  takes at most four steps of its own while it holds the lock and the fifth, at the latest,
  releases it. The same holds of the consumer inside \<open>pop\<close>, which takes at most three
  steps and ends with the fourth, at the latest: \<open>pop\<close> is wait-free, with no retry.
\<close>

theorem mpsc_concurrent_progress:
  assumes "k < 64" and "mpsc_reachable (2 ^ k) s"
  shows "(push_lock s \<longrightarrow> (\<exists>p. holds_lock (prod s p) \<and> (\<exists>s'. mpsc_step s s' \<and> push_rank (prod s' p) < push_rank (prod s p)))) \<and>
    (\<forall>p s'. holds_lock (prod s p) \<and> mpsc_step s s' \<longrightarrow>
       (push_rank (prod s' p) < push_rank (prod s p) \<and> (push_rank (prod s' p) = 0 \<longrightarrow> \<not> push_lock s')) \<or> other_than_producer p s s') \<and>
    (\<forall>\<sigma> n p. \<sigma> 0 = s \<and> (\<forall>i < n. mpsc_step (\<sigma> i) (\<sigma> (Suc i))) \<and> (\<forall>i \<le> n. holds_lock (prod (\<sigma> i) p)) \<longrightarrow>
       card {i. i < n \<and> prod (\<sigma> (Suc i)) p \<noteq> prod (\<sigma> i) p} \<le> 4) \<and>
    (cons s \<noteq> CIdle \<longrightarrow> (\<exists>s'. mpsc_step s s' \<and> pop_rank (cons s') < pop_rank (cons s))) \<and>
    (\<forall>s'. cons s \<noteq> CIdle \<and> mpsc_step s s' \<longrightarrow> pop_rank (cons s') < pop_rank (cons s) \<or> other_than_consumer s s') \<and>
    (\<forall>\<sigma> n. \<sigma> 0 = s \<and> (\<forall>i < n. mpsc_step (\<sigma> i) (\<sigma> (Suc i))) \<and> (\<forall>i \<le> n. cons (\<sigma> i) \<noteq> CIdle) \<longrightarrow>
       card {i. i < n \<and> cons (\<sigma> (Suc i)) \<noteq> cons (\<sigma> i)} \<le> 3)"
proof (intro conjI allI impI)
  note inv = mpsc_reachable_inv [OF assms]
  assume "push_lock s"
  then obtain p where p: "holds_lock (prod s p)" using inv by (auto simp: sys_inv_def lock_inv_def)
  with holder_progress [OF inv p] show "\<exists>p. holds_lock (prod s p) \<and> (\<exists>s'. mpsc_step s s' \<and> push_rank (prod s' p) < push_rank (prod s p))" by blast
next
  fix p s' assume "holds_lock (prod s p) \<and> mpsc_step s s'"
  then show "(push_rank (prod s' p) < push_rank (prod s p) \<and> (push_rank (prod s' p) = 0 \<longrightarrow> \<not> push_lock s')) \<or> other_than_producer p s s'"
    using holder_step_ranks [OF mpsc_reachable_inv [OF assms]] by blast
next
  fix \<sigma> :: "nat \<Rightarrow> 'a mpsc_sys" and n p
  assume "\<sigma> 0 = s \<and> (\<forall>i < n. mpsc_step (\<sigma> i) (\<sigma> (Suc i))) \<and> (\<forall>i \<le> n. holds_lock (prod (\<sigma> i) p))"
  then show "card {i. i < n \<and> prod (\<sigma> (Suc i)) p \<noteq> prod (\<sigma> i) p} \<le> 4"
    using mpsc_reachable_inv [OF assms] by (intro holder_changes) simp_all
next
  assume "cons s \<noteq> CIdle"
  then show "\<exists>s'. mpsc_step s s' \<and> pop_rank (cons s') < pop_rank (cons s)" by (rule consumer_progress [OF mpsc_reachable_inv [OF assms]])
next
  fix s' assume "cons s \<noteq> CIdle \<and> mpsc_step s s'"
  then show "pop_rank (cons s') < pop_rank (cons s) \<or> other_than_consumer s s'"
    using consumer_step_ranks [OF mpsc_reachable_inv [OF assms]] by blast
next
  fix \<sigma> :: "nat \<Rightarrow> 'a mpsc_sys" and n
  assume "\<sigma> 0 = s \<and> (\<forall>i < n. mpsc_step (\<sigma> i) (\<sigma> (Suc i))) \<and> (\<forall>i \<le> n. cons (\<sigma> i) \<noteq> CIdle)"
  then show "card {i. i < n \<and> cons (\<sigma> (Suc i)) \<noteq> cons (\<sigma> i)} \<le> 3"
    using mpsc_reachable_inv [OF assms] by (intro consumer_changes) simp_all
qed

text \<open>The consumer before its load of \<open>tail_\<close>, a producer with the lock.\<close>

theorem mpsc_concurrent_progress_witness:
  "\<exists>s :: int mpsc_sys. mpsc_reachable (2 ^ 9) s \<and> push_lock s \<and> cons s = CLoadTail 0 \<and>
     (\<exists>p s'. mpsc_step s s' \<and> push_rank (prod s' p) < push_rank (prod s p)) \<and>
     (\<exists>s'. mpsc_step s s' \<and> pop_rank (cons s') < pop_rank (cons s))"
proof -
  let ?s0 = "mpsc_sys_init (2 ^ 9) :: int mpsc_sys"
  let ?s1 = "?s0\<lparr>cons := CLoadTail (head (ring ?s0))\<rparr>"
  let ?s2 = "set_prod 3 (PSpin 7) ?s1"
  let ?s3 = "set_prod 3 (PLoadTail 7) (?s2\<lparr>push_lock := True, owner := Some 3\<rparr>)"
  have "mpsc_step ?s0 ?s1" by (rule mpsc_step.call_pop) (simp add: mpsc_sys_init_def)
  then have "mpsc_reachable (2 ^ 9) ?s1" by (rule mpsc_reachable.step [OF mpsc_reachable.start])
  moreover have "mpsc_step ?s1 ?s2" by (rule mpsc_step.call_push) (simp add: mpsc_sys_init_def)
  moreover have "mpsc_step ?s2 ?s3" by (rule mpsc_step.lock) (simp_all add: mpsc_sys_init_def)
  ultimately have r: "mpsc_reachable (2 ^ 9) ?s3" by (meson mpsc_reachable.step)
  have "push_lock ?s3" "cons ?s3 = CLoadTail 0" by (simp_all add: mpsc_sys_init_def mpsc_new_def)
  with r obtain s :: "int mpsc_sys" where s: "mpsc_reachable (2 ^ 9) s" "push_lock s" "cons s = CLoadTail 0" by blast
  from mpsc_concurrent_progress [OF _ s(1)] s(2,3)
  have "\<exists>p s'. mpsc_step s s' \<and> push_rank (prod s' p) < push_rank (prod s p)"
    "\<exists>s'. mpsc_step s s' \<and> pop_rank (cons s') < pop_rank (cons s)" by simp_all blast+
  with s show ?thesis by blast
qed

end
