(* ===== verification/MPSC_Refinement.thy ===== *)
theory MPSC_Refinement
  imports MPSC_Concurrent
begin

text \<open>
  What the concurrent queue promises, without its ring: a bounded FIFO of which each side
  sees the other's progress late. The steps that take effect are the store of
  \<^verbatim>\<open>tail_\<close>, the store of \<^verbatim>\<open>head_\<close>, and the loads that find the queue full or
  empty; this is why the reactor's model may take a push or a pop as one step.
\<close>

subsection \<open>The abstract queue\<close>

text \<open>
  The items ever accepted, how many of them are taken, and how much of that the producers
  and the consumer have seen of each other.
\<close>

record 'a late_fifo =
  items :: "'a list"
  taken :: nat
  taken_seen :: nat
  items_seen :: nat

datatype 'a fifo_event = Internal | Accepted 'a | Refused 'a | Delivered 'a | FoundEmpty

definition see_taken :: "'a late_fifo \<Rightarrow> nat \<Rightarrow> 'a late_fifo \<Rightarrow> bool" where
  "see_taken v j v' \<longleftrightarrow> taken_seen v \<le> j \<and> j \<le> taken v \<and> v' = v\<lparr>taken_seen := j\<rparr>"

definition see_items :: "'a late_fifo \<Rightarrow> nat \<Rightarrow> 'a late_fifo \<Rightarrow> bool" where
  "see_items v j v' \<longleftrightarrow> items_seen v \<le> j \<and> j \<le> length (items v) \<and> v' = v\<lparr>items_seen := j\<rparr>"

inductive late_fifo_step :: "nat \<Rightarrow> 'a fifo_event \<Rightarrow> 'a late_fifo \<Rightarrow> 'a late_fifo \<Rightarrow> bool" for cap where
  rests: "late_fifo_step cap Internal v v"
| sees_room: "see_taken v j v' \<Longrightarrow> length (items v) - j < cap \<Longrightarrow> late_fifo_step cap Internal v v'"
| sees_item: "see_items v j v' \<Longrightarrow> taken v < j \<Longrightarrow> late_fifo_step cap Internal v v'"
| accepts: "length (items v) - taken_seen v < cap \<Longrightarrow>
    late_fifo_step cap (Accepted x) v (v\<lparr>items := items v @ [x]\<rparr>)"
| refuses: "see_taken v j v' \<Longrightarrow> length (items v) - j = cap \<Longrightarrow> late_fifo_step cap (Refused x) v v'"
| delivers: "taken v < items_seen v \<Longrightarrow> items_seen v \<le> length (items v) \<Longrightarrow>
    late_fifo_step cap (Delivered (items v ! taken v)) v (v\<lparr>taken := Suc (taken v)\<rparr>)"
| finds_empty: "see_items v j v' \<Longrightarrow> taken v = j \<Longrightarrow> late_fifo_step cap FoundEmpty v v'"

definition late_view :: "'a mpsc_sys \<Rightarrow> 'a late_fifo" where
  "late_view s = \<lparr>items = sent s, taken = length (received s), taken_seen = head_seen s, items_seen = tail_seen s\<rparr>"

text \<open>
  The event a step shows to its callers: which push has its result decided, what pop has
  for its caller.
\<close>

definition shows_event :: "'a fifo_event \<Rightarrow> 'a mpsc_sys \<Rightarrow> 'a mpsc_sys \<Rightarrow> bool" where
  "shows_event e s s' \<longleftrightarrow>
     (case e of
        Accepted x \<Rightarrow> \<exists>p nxt. prod s p = PStoreTail x nxt \<and> prod s' p = PUnlock True \<and> cons s' = cons s
      | Refused x \<Rightarrow> \<exists>p t nxt. prod s p = PLoadHead x t nxt \<and> prod s' p = PDrop x \<and> cons s' = cons s
      | Delivered x \<Rightarrow> prod s' = prod s \<and> received s' = received s @ [x] \<and> (\<exists>h. cons s = CStoreHead h x) \<and> cons s' = CIdle
      | FoundEmpty \<Rightarrow> prod s' = prod s \<and> received s' = received s \<and> (\<exists>h. cons s = CLoadTail h) \<and> cons s' = CIdle
      | Internal \<Rightarrow> sent s' = sent s \<and> received s' = received s \<and> (cons s' = CIdle \<longrightarrow> cons s = CIdle) \<and>
          (\<forall>p x. prod s' p = PDrop x \<longrightarrow> prod s p = PDrop x))"

subsection \<open>The simulation\<close>

lemma late_view_simps [simp]:
  "items (late_view s) = sent s" "taken (late_view s) = length (received s)"
  "taken_seen (late_view s) = head_seen s" "items_seen (late_view s) = tail_seen s"
  by (simp_all add: late_view_def)

text \<open>A step that moves no index and decides no result.\<close>

lemma internal_step:
  assumes "late_view s' = late_view s" "received s' = received s" "cons s' = CIdle \<longrightarrow> cons s = CIdle"
    and "\<forall>p x. prod s' p = PDrop x \<longrightarrow> prod s p = PDrop x"
  shows "\<exists>e. late_fifo_step cap e (late_view s) (late_view s') \<and> shows_event e s s'"
proof (intro exI [of _ Internal] conjI)
  show "late_fifo_step cap Internal (late_view s) (late_view s')" using rests by (simp add: assms(1))
  show "shows_event Internal s s'" using assms by (simp add: shows_event_def late_view_def)
qed

lemma full_view:
  assumes inv: "sys_inv N s" and pc: "prod s p = PLoadHead x t nxt" and j: "head_seen s \<le> j" "j < length (head_log s)"
  shows "nxt = head_log s ! j \<longleftrightarrow> ntails s - j = N - 1" "j \<le> nheads s" "ntails s - j \<le> N - 1"
proof -
  note i = sys_invD [OF inv] and w = window [OF sys_invD(1) [OF inv]]
  have v: "head_log s ! j = pos N j" "j \<le> nheads s" using load_head_value [OF i(1) j(2)] by simp_all
  have n: "nxt = pos N (Suc (ntails s))" using i(4) [of p] pc by simp
  have b: "j \<le> ntails s" "ntails s < j + N" using v w j i(1) by (auto simp: index_inv_def)
  show "nxt = head_log s ! j \<longleftrightarrow> ntails s - j = N - 1"
    using pos_full_eq [OF i(6) b] w(3) b by (auto simp: n v(1))
  show "j \<le> nheads s" "ntails s - j \<le> N - 1" using v(2) b by simp_all
qed

lemma step_simulates:
  assumes "mpsc_step s s'" and inv: "sys_inv N s"
  shows "\<exists>e. late_fifo_step (N - 1) e (late_view s) (late_view s') \<and> shows_event e s s'"
  using assms(1)
proof cases
  case (load_head_full p x t nxt j)
  note f = full_view [OF inv load_head_full(2-4)]
  have "late_fifo_step (N - 1) (Refused x) (late_view s) (late_view s')"
    by (rule refuses [of _ j]) (use f load_head_full in \<open>auto simp: see_taken_def late_view_def\<close>)
  moreover have "shows_event (Refused x) s s'" using load_head_full by (auto simp: shows_event_def)
  ultimately show ?thesis by blast
next
  case (load_head_room p x t nxt j)
  note f = full_view [OF inv load_head_room(2-4)]
  have "late_fifo_step (N - 1) Internal (late_view s) (late_view s')"
    by (rule sees_room [of _ j]) (use f load_head_room in \<open>auto simp: see_taken_def late_view_def\<close>)
  moreover have "shows_event Internal s s'" using load_head_room by (simp add: shows_event_def)
  ultimately show ?thesis by blast
next
  case (store_tail p x nxt)
  have "Suc (ntails s) < head_seen s + N" using sys_invD(4) [OF inv, of p] store_tail by simp
  moreover have "head_seen s \<le> ntails s" using sys_invD(1) [OF inv] by (simp add: index_inv_def)
  ultimately have "late_fifo_step (N - 1) (Accepted x) (late_view s) (late_view s\<lparr>items := items (late_view s) @ [x]\<rparr>)"
    by (intro accepts) simp
  moreover have "late_view s\<lparr>items := items (late_view s) @ [x]\<rparr> = late_view s'" using store_tail by (simp add: late_view_def)
  moreover have "shows_event (Accepted x) s s'" using store_tail by (auto simp: shows_event_def)
  ultimately show ?thesis by metis
next
  case (load_tail_empty h j)
  note i = sys_invD [OF inv]
  have v: "tail_log s ! j = pos N j" "j \<le> ntails s" using load_tail_value [OF i(1)] load_tail_empty by simp_all
  have h: "h = pos N (nheads s)" using i(5) load_tail_empty by simp
  have "nheads s \<le> j" "j < nheads s + N" using v i(1) load_tail_empty window [OF i(1)] by (auto simp: index_inv_def)
  then have "nheads s = j" using pos_window_eq [OF i(6), of "nheads s" j] load_tail_empty v h by simp
  then have "late_fifo_step (N - 1) FoundEmpty (late_view s) (late_view s')"
    by (intro finds_empty [of _ j]) (use v load_tail_empty in \<open>simp_all add: see_items_def late_view_def\<close>)
  moreover have "shows_event FoundEmpty s s'" using load_tail_empty by (simp add: shows_event_def)
  ultimately show ?thesis by blast
next
  case (load_tail_item h j)
  note i = sys_invD [OF inv]
  have v: "tail_log s ! j = pos N j" "j \<le> ntails s" using load_tail_value [OF i(1)] load_tail_item by simp_all
  have "h = pos N (nheads s)" using i(5) load_tail_item by simp
  then have "nheads s \<noteq> j" using load_tail_item v by auto
  then have "nheads s < j" using i(1) load_tail_item by (simp add: index_inv_def)
  then have "late_fifo_step (N - 1) Internal (late_view s) (late_view s')"
    by (intro sees_item [of _ j]) (use v load_tail_item in \<open>simp_all add: see_items_def late_view_def\<close>)
  moreover have "shows_event Internal s s'" using load_tail_item by (simp add: shows_event_def)
  ultimately show ?thesis by blast
next
  case (store_head h x nxt)
  note i = sys_invD [OF inv]
  have v: "nheads s < tail_seen s" "tail_seen s \<le> ntails s" "x = sent s ! nheads s"
    using i(1,5) store_head by (simp_all add: index_inv_def)
  have "late_fifo_step (N - 1) (Delivered (items (late_view s) ! taken (late_view s))) (late_view s)
      (late_view s\<lparr>taken := Suc (taken (late_view s))\<rparr>)"
    by (rule delivers) (use v in simp_all)
  moreover have "late_view s\<lparr>taken := Suc (taken (late_view s))\<rparr> = late_view s'" using store_head by (simp add: late_view_def)
  moreover have "shows_event (Delivered (items (late_view s) ! taken (late_view s))) s s'"
    using store_head v by (auto simp: shows_event_def)
  ultimately show ?thesis by metis
qed (intro internal_step; simp add: late_view_def)+

subsection \<open>Property\<close>

text \<open>
  C4. Every atomic step of the queue, under every interleaving, is a step of the abstract
  bounded FIFO that shows the same event: a push succeeds by appending its item to a queue
  the producers see below its bound, and fails only when they saw it full, which is counted; a
  pop delivers the oldest item not yet taken, and fails only when the consumer saw none. If
  a side sees the newest index, its verdict is that of the queue itself.
\<close>

theorem mpsc_concurrent_refines_fifo:
  assumes "k < 64" and "mpsc_reachable (2 ^ k) s" and "mpsc_step s s'"
  shows "(\<exists>in_flight. sent s = received s @ in_flight \<and> length in_flight \<le> 2 ^ k - 1) \<and>
    dropped_count (ring s) = of_nat (length (refused s)) \<and>
    (\<exists>e. late_fifo_step (2 ^ k - 1) e (late_view s) (late_view s') \<and> shows_event e s s' \<and>
       (\<forall>x. e = Refused x \<and> head_seen s' = length (received s) \<longrightarrow> length (sent s) - length (received s) = 2 ^ k - 1) \<and>
       (e = FoundEmpty \<and> tail_seen s' = length (sent s) \<longrightarrow> sent s = received s))"
proof -
  have inv: "sys_inv (2 ^ k) s" by (rule mpsc_reachable_inv [OF assms(1,2)])
  have prefix: "received s = take (length (received s)) (sent s)" using sys_invD(2) [OF inv] by (simp add: buffer_inv_def)
  obtain e where e: "late_fifo_step (2 ^ k - 1) e (late_view s) (late_view s')" "shows_event e s s'"
    using step_simulates [OF assms(3) inv] by blast
  have "length (sent s) - length (received s) = 2 ^ k - 1" if "e = Refused x" "head_seen s' = length (received s)" for x
    using e(1) unfolding that(1) by cases (use that(2) in \<open>auto simp: see_taken_def late_view_def\<close>)
  moreover have "sent s = received s" if "e = FoundEmpty" "tail_seen s' = length (sent s)"
  proof -
    have "length (received s) = length (sent s)"
      using e(1) unfolding that(1) by cases (use that(2) in \<open>auto simp: see_items_def late_view_def\<close>)
    then show ?thesis using prefix by simp
  qed
  ultimately show ?thesis using mpsc_concurrent_fifo [OF assms(1,2)] e by blast
qed

text \<open>A pop on the new queue finds it empty.\<close>

theorem mpsc_concurrent_refines_fifo_witness:
  "\<exists>s s'. mpsc_reachable (2 ^ 2) (s :: int mpsc_sys) \<and> mpsc_step s s' \<and> late_fifo_step 3 FoundEmpty (late_view s) (late_view s')"
proof -
  let ?init = "mpsc_sys_init (2 ^ 2) :: int mpsc_sys"
  let ?s = "?init\<lparr>cons := CLoadTail (head (ring ?init))\<rparr>" and ?s' = "?init\<lparr>cons := CIdle, tail_seen := 0\<rparr>"
  have "mpsc_step ?init ?s" by (rule mpsc_step.call_pop) (simp add: mpsc_sys_init_def)
  then have r: "mpsc_reachable (2 ^ 2) ?s" by (rule mpsc_reachable.step [OF mpsc_reachable.start])
  have st: "mpsc_step ?s ?s'"
    using mpsc_step.load_tail_empty [of ?s "head (ring ?init)" 0] by (simp add: mpsc_sys_init_def mpsc_new_def)
  from mpsc_concurrent_refines_fifo [OF _ r st] obtain e where
    "late_fifo_step (2 ^ 2 - 1) e (late_view ?s) (late_view ?s')" "shows_event e ?s ?s'" by auto
  moreover from this(2) have "e = FoundEmpty"
    by (cases e) (simp_all add: shows_event_def mpsc_sys_init_def)
  ultimately show ?thesis using r st by auto
qed

end
