(* ===== verification/Common_Hash.thy ===== *)
theory Common_Hash
  imports FK_Prelude
begin

text \<open>
  \<^verbatim>\<open>include/robot_dataflow/common.hpp\<close>: the FNV-1a hash that keys every routing
  table of the kernel. The lemmas show that it is computed one byte at a time, that a byte
  step is a bijection of the 64-bit state, and what this excludes as collisions.
\<close>

definition fnv_offset :: u64 where
  "fnv_offset = 0xcbf29ce484222325"

definition fnv_prime :: u64 where
  "fnv_prime = 0x100000001b3"

text \<open>The loop body; \<open>char\<close> is cast to \<open>uint8_t\<close> and widened.\<close>

definition fnv_step :: "u64 \<Rightarrow> char \<Rightarrow> u64" where
  "fnv_step hash c = (hash XOR ucast (of_char c :: u8)) * fnv_prime"

definition fnv1a_hash :: "string \<Rightarrow> u64" where
  "fnv1a_hash str = foldl fnv_step fnv_offset str"

lemma fnv1a_hash_Nil [simp]: "fnv1a_hash [] = fnv_offset"
  by (simp add: fnv1a_hash_def)

lemma fnv1a_hash_append:
  "fnv1a_hash (s @ u) = foldl fnv_step (fnv1a_hash s) u"
  by (simp add: fnv1a_hash_def)

subsection \<open>A byte step is a bijection\<close>

text \<open>The prime is odd, so it has an inverse modulo \<open>2 ^ 64\<close>.\<close>

definition fnv_prime_inv :: u64 where
  "fnv_prime_inv = 0xce965057aff6957b"

lemma fnv_prime_inverse: "fnv_prime * fnv_prime_inv = 1"
  by (simp add: fnv_prime_def fnv_prime_inv_def)

lemma fnv_mult_cancel: "a * fnv_prime = b * fnv_prime \<longleftrightarrow> a = b"
proof
  assume "a * fnv_prime = b * fnv_prime"
  then have "a * (fnv_prime * fnv_prime_inv) = b * (fnv_prime * fnv_prime_inv)"
    by (simp only: mult.assoc [symmetric])
  then show "a = b" by (simp add: fnv_prime_inverse)
qed simp

lemma xor_left_cancel_u64: "(h :: u64) XOR a = h XOR b \<longleftrightarrow> a = b"
  by (metis bit.xor_left_self)

lemma xor_right_cancel_u64: "(a :: u64) XOR h = b XOR h \<longleftrightarrow> a = b"
  by (simp add: xor.commute [of _ h] xor_left_cancel_u64)

lemma ucast_u8_u64_inject: "(ucast (c :: u8) :: u64) = ucast d \<longleftrightarrow> c = d"
proof
  have small: "take_bit 64 (uint e) = uint e" for e :: u8
    using uint_lt2p [of e] by (intro take_bit_int_eq_self) simp_all
  assume "(ucast c :: u64) = ucast d"
  then have "uint (ucast c :: u64) = uint (ucast d :: u64)" by simp
  then have "uint c = uint d" by (simp only: unsigned_ucast_eq len_num0 len_of_numeral_defs) (simp add: small)
  then show "c = d" by (rule unsigned_word_eqI)
qed simp

lemma of_char_u8_inject: "(of_char c :: u8) = of_char d \<longleftrightarrow> c = d"
proof
  have small: "unat (of_char e :: u8) = of_char e" for e
    using unat_of_nat [where 'a = 8 and x = "of_char e"] by (simp add: of_nat_of_char)
  assume "(of_char c :: u8) = of_char d"
  then have "unat (of_char c :: u8) = unat (of_char d :: u8)" by simp
  then show "c = d" by (simp only: small of_char_eq_iff)
qed simp

lemma fnv_step_inject_state: "fnv_step h c = fnv_step h' c \<longleftrightarrow> h = h'"
  by (simp add: fnv_step_def fnv_mult_cancel xor_right_cancel_u64)

lemma fnv_step_inject_byte: "fnv_step h c = fnv_step h d \<longleftrightarrow> c = d"
  by (simp add: fnv_step_def fnv_mult_cancel xor_left_cancel_u64 ucast_u8_u64_inject of_char_u8_inject)

lemma foldl_fnv_step_inject: "foldl fnv_step h u = foldl fnv_step h' u \<longleftrightarrow> h = h'"
  by (induction u arbitrary: h h') (simp_all add: fnv_step_inject_state)

subsection \<open>Properties\<close>

text \<open>
  The hash agrees with the published FNV-1a 64-bit test vectors, so the constants,
  the order of the two operations of a step and the wrap-around are the algorithm's.
\<close>

theorem fnv1a_test_vectors:
  "fnv1a_hash '''' = 0xcbf29ce484222325 \<and>
   fnv1a_hash ''a'' = 0xaf63dc4c8601ec8c \<and>
   fnv1a_hash ''foobar'' = 0x85944171f73967e8"
  by (simp add: fnv1a_hash_def fnv_step_def fnv_offset_def fnv_prime_def)

text \<open>
  Two topics that differ in exactly one byte never collide, wherever the byte stands:
  the routing table cannot confuse \<open>robot/uav0/x\<close> with \<open>robot/uav1/x\<close>.
\<close>

theorem fnv1a_one_byte_distinct:
  "fnv1a_hash (s @ c # u) = fnv1a_hash (s @ d # u) \<longleftrightarrow> c = d"
  by (simp add: fnv1a_hash_append foldl_fnv_step_inject fnv_step_inject_byte)

text \<open>
  A common suffix neither creates nor hides a collision: the hashes of \<open>s @ u\<close>
  and \<open>t @ u\<close> agree exactly when those of \<open>s\<close> and \<open>t\<close> do.
\<close>

theorem fnv1a_suffix_cancel:
  "fnv1a_hash (s @ u) = fnv1a_hash (t @ u) \<longleftrightarrow> fnv1a_hash s = fnv1a_hash t"
  by (simp add: fnv1a_hash_append foldl_fnv_step_inject)

end
