(* ===== verification/Spin_Lock.thy ===== *)
theory Spin_Lock
  imports FK_Prelude
begin

text \<open>
  The spin lock of the kernel (\<^verbatim>\<open>while (lock.test_and_set(acquire)) pause;\<close>
  \<dots> \<^verbatim>\<open>lock.clear(release)\<close>) around a critical section that reads and writes
  plain fields one at a time. A section is a list of actions on the shared state and the
  thread's locals. The theory shows that whatever the interleaving, the sections act as if
  each had run in one step, in the order in which they finished.
\<close>

datatype ('op, 's, 'l) tpc =
    TIdle
  | TWait 'op                                          \<comment> \<open>spinning on the lock\<close>
  | TIn 'op "('s \<times> 'l \<Rightarrow> 's \<times> 'l) list" 'l  \<comment> \<open>inside: what is left to do, and the locals\<close>

text \<open>\<open>done_ops\<close> records the finished calls with the locals they ended with.\<close>

record ('op, 's, 'l) spin_sys =
  spin_lock :: bool
  shared :: 's
  threads :: "nat \<Rightarrow> ('op, 's, 'l) tpc"
  done_ops :: "('op \<times> 'l) list"

definition spin_init :: "'s \<Rightarrow> ('op, 's, 'l) spin_sys" where
  "spin_init s0 = \<lparr>spin_lock = False, shared = s0, threads = (\<lambda>_. TIdle), done_ops = []\<rparr>"

inductive spin_step ::
    "('op \<Rightarrow> ('s \<times> 'l \<Rightarrow> 's \<times> 'l) list) \<Rightarrow> 'l \<Rightarrow> ('op, 's, 'l) spin_sys \<Rightarrow> ('op, 's, 'l) spin_sys \<Rightarrow> bool"
  for section_of l0 where
  spin_call: "threads c t = TIdle \<Longrightarrow>
    spin_step section_of l0 c (c\<lparr>threads := (threads c)(t := TWait op)\<rparr>)"
| spin_busy: "threads c t = TWait op \<Longrightarrow> spin_lock c \<Longrightarrow> spin_step section_of l0 c c"
| spin_acquire: "threads c t = TWait op \<Longrightarrow> \<not> spin_lock c \<Longrightarrow>
    spin_step section_of l0 c (c\<lparr>spin_lock := True, threads := (threads c)(t := TIn op (section_of op) l0)\<rparr>)"
| spin_act: "threads c t = TIn op (a # as) l \<Longrightarrow> a (shared c, l) = (s', l') \<Longrightarrow>
    spin_step section_of l0 c (c\<lparr>shared := s', threads := (threads c)(t := TIn op as l')\<rparr>)"
| spin_release: "threads c t = TIn op [] l \<Longrightarrow>
    spin_step section_of l0 c (c\<lparr>spin_lock := False, threads := (threads c)(t := TIdle),
                                 done_ops := done_ops c @ [(op, l)]\<rparr>)"

inductive spin_reachable ::
    "('op \<Rightarrow> ('s \<times> 'l \<Rightarrow> 's \<times> 'l) list) \<Rightarrow> 'l \<Rightarrow> 's \<Rightarrow> ('op, 's, 'l) spin_sys \<Rightarrow> bool"
  for section_of l0 s0 where
  spin_start: "spin_reachable section_of l0 s0 (spin_init s0)"
| spin_next: "spin_reachable section_of l0 s0 c \<Longrightarrow> spin_step section_of l0 c c' \<Longrightarrow>
    spin_reachable section_of l0 s0 c'"

inductive_cases spin_stepE: "spin_step section_of l0 c c'"

text \<open>Running a section, and running finished calls one after the other.\<close>

definition run_actions :: "('s \<times> 'l \<Rightarrow> 's \<times> 'l) list \<Rightarrow> 's \<times> 'l \<Rightarrow> 's \<times> 'l" where
  "run_actions as sl = fold (\<lambda>a. a) as sl"

lemma run_actions_simps [simp]:
  "run_actions [] sl = sl" "run_actions (a # as) sl = run_actions as (a sl)"
  by (simp_all add: run_actions_def)

fun replay :: "('op \<Rightarrow> 's \<times> 'l \<Rightarrow> 's \<times> 'l) \<Rightarrow> 'l \<Rightarrow> 'op list \<Rightarrow> 's \<Rightarrow> 's \<times> 'l list" where
  "replay effect l0 [] s = (s, [])"
| "replay effect l0 (op # ops) s =
     (let (s', l) = effect op (s, l0); (s'', ls) = replay effect l0 ops s' in (s'', l # ls))"

lemma replay_append:
  "replay effect l0 (ops @ [op]) s =
     (let (s', ls) = replay effect l0 ops s; (s'', l) = effect op (s', l0) in (s'', ls @ [l]))"
  by (induction ops arbitrary: s) (auto simp: Let_def split: prod.splits)

lemma replay_split:
  assumes "replay effect l0 (ops @ op # ops') s = (s', ls)" "ls = ls1 @ l # ls2" "length ls1 = length ops"
  shows "l = snd (effect op (fst (replay effect l0 ops s), l0))"
  using assms
proof (induction ops arbitrary: s ls ls1)
  case (Cons x ops)
  obtain y ls1' where "ls1 = y # ls1'" "length ls1' = length ops" using Cons.prems(3) by (cases ls1) auto
  with Cons.prems Cons.IH show ?case by (fastforce simp: Let_def split: prod.splits)
qed (auto simp: Let_def split: prod.splits)

subsection \<open>The contract of a lock-protected operation\<close>

locale lock_protected =
  fixes section_of :: "'op \<Rightarrow> ('s \<times> 'l \<Rightarrow> 's \<times> 'l) list"
    and effect :: "'op \<Rightarrow> 's \<times> 'l \<Rightarrow> 's \<times> 'l"
    and l0 :: 'l
  assumes section_effect: "run_actions (section_of op) (s, l0) = effect op (s, l0)"
begin

text \<open>
  Either the lock is free, nobody is inside, and the shared state is that of the finished
  calls in order; or exactly one thread is inside, and completing its section from here
  gives what its call would have done in one step.
\<close>

definition owned_by :: "('op, 's, 'l) spin_sys \<Rightarrow> 's \<Rightarrow> nat \<Rightarrow> bool" where
  "owned_by c s t \<longleftrightarrow>
     (\<exists>op as l. threads c t = TIn op as l \<and> run_actions as (shared c, l) = effect op (s, l0)) \<and>
     (\<forall>t' op as l. threads c t' = TIn op as l \<longrightarrow> t' = t)"

definition atomic_inv :: "'s \<Rightarrow> ('op, 's, 'l) spin_sys \<Rightarrow> bool" where
  "atomic_inv s0 c \<longleftrightarrow>
     (\<exists>s. replay effect l0 (map fst (done_ops c)) s0 = (s, map snd (done_ops c)) \<and>
         (if spin_lock c then \<exists>t. owned_by c s t
          else shared c = s \<and> (\<forall>t op as l. threads c t \<noteq> TIn op as l)))"

lemma atomic_step:
  assumes "spin_step section_of l0 c c'" "atomic_inv s0 c"
  shows "atomic_inv s0 c'"
proof -
  from assms(2) obtain s where rp: "replay effect l0 (map fst (done_ops c)) s0 = (s, map snd (done_ops c))"
    and locked: "spin_lock c \<Longrightarrow> \<exists>t. owned_by c s t"
    and free: "\<not> spin_lock c \<Longrightarrow> shared c = s \<and> (\<forall>t op as l. threads c t \<noteq> TIn op as l)"
    by (auto simp: atomic_inv_def split: if_splits)
  have inside: "spin_lock c" "owned_by c s t" if t: "threads c t = TIn op as l" for t op as l
  proof -
    show lock: "spin_lock c" using free t by blast
    then obtain t0 where "owned_by c s t0" using locked by blast
    moreover from this t have "t = t0" unfolding owned_by_def by blast
    ultimately show "owned_by c s t" by simp
  qed
  from assms(1) show ?thesis
  proof cases
    case (spin_call t op)
    have "owned_by c' s t'" if "owned_by c s t'" for t'
      using that spin_call by (cases "t' = t") (auto simp: owned_by_def)
    then show ?thesis using spin_call rp locked free by (auto simp: atomic_inv_def)
  next
    case (spin_acquire t op)
    then have "owned_by c' s t" using free by (auto simp: owned_by_def section_effect)
    then show ?thesis using spin_acquire rp by (auto simp: atomic_inv_def)
  next
    case (spin_act t op a as l s' l')
    have "owned_by c s t" "spin_lock c" using inside spin_act by blast+
    then have "owned_by c' s t" using spin_act by (auto simp: owned_by_def)
    with \<open>spin_lock c\<close> show ?thesis using spin_act rp by (auto simp: atomic_inv_def)
  next
    case (spin_release t op l)
    have "owned_by c s t" using inside spin_release by blast
    with spin_release have "(shared c, l) = effect op (s, l0)"
      "\<forall>t' op as l. threads c t' = TIn op as l \<longrightarrow> t' = t" by (auto simp: owned_by_def)
    then show ?thesis
      using spin_release rp by (auto simp: atomic_inv_def replay_append Let_def split: prod.splits)
  qed (use assms(2) in simp)
qed

lemma atomic_init: "atomic_inv s0 (spin_init s0)"
  by (simp add: atomic_inv_def spin_init_def)

lemma atomic_reachable: "spin_reachable section_of l0 s0 c \<Longrightarrow> atomic_inv s0 c"
  by (induction rule: spin_reachable.induct) (auto intro: atomic_init atomic_step)

lemma linearizable:
  assumes "spin_reachable section_of l0 s0 c" "\<not> spin_lock c"
  shows "replay effect l0 (map fst (done_ops c)) s0 = (shared c, map snd (done_ops c))"
  using atomic_reachable [OF assms(1)] assms(2) by (auto simp: atomic_inv_def split: prod.splits)

text \<open>What one finished call returned, whether the lock is held now or not.\<close>

lemma finished_result:
  assumes "spin_reachable section_of l0 s0 c" "done_ops c = ds @ (op, l) # ds'"
  shows "l = snd (effect op (fst (replay effect l0 (map fst ds) s0), l0))"
proof -
  obtain s where "replay effect l0 (map fst ds @ op # map fst ds') s0 = (s, map snd ds @ l # map snd ds')"
    using atomic_reachable [OF assms(1)] assms(2) by (auto simp: atomic_inv_def)
  from replay_split [OF this refl] show ?thesis by simp
qed

text \<open>A call nobody interrupts.\<close>

lemma run_alone:
  assumes "spin_reachable section_of l0 s0 c" "threads c t = TIdle" "\<not> spin_lock c"
    and "effect op (shared c, l0) = (s, l)"
  shows "\<exists>c'. spin_reachable section_of l0 s0 c' \<and> threads c' t = TIdle \<and> \<not> spin_lock c' \<and>
    shared c' = s \<and> done_ops c' = done_ops c @ [(op, l)]"
proof -
  define c1 where "c1 = c\<lparr>spin_lock := True, threads := (threads c)(t := TIn op (section_of op) l0)\<rparr>"
  have acts: "\<exists>c'. spin_reachable section_of l0 s0 c' \<and> threads c' t = TIn op [] l \<and> shared c' = s \<and> done_ops c' = done_ops c"
    if "spin_reachable section_of l0 s0 d" "threads d t = TIn op as k" "run_actions as (shared d, k) = (s, l)"
      "done_ops d = done_ops c" for as d k
    using that
  proof (induction as arbitrary: d k)
    case (Cons a as)
    obtain s' k' where a: "a (shared d, k) = (s', k')" by force
    show ?case
      by (rule Cons.IH [OF spin_next [OF Cons.prems(1) spin_act [OF Cons.prems(2) a]]]) (use Cons.prems a in simp_all)
  qed auto
  have "spin_reachable section_of l0 s0 (c\<lparr>threads := (threads c)(t := TWait op)\<rparr>)"
    using spin_next [OF assms(1) spin_call] assms(2) by blast
  from spin_next [OF this spin_acquire [where t = t and op = op]] assms(3)
  have "spin_reachable section_of l0 s0 c1" by (simp add: c1_def)
  then obtain c' where c': "spin_reachable section_of l0 s0 c'" "threads c' t = TIn op [] l" "shared c' = s"
    "done_ops c' = done_ops c"
    using acts [of c1 "section_of op" l0] section_effect [of op "shared c"] assms(4) by (auto simp: c1_def)
  from spin_next [OF c'(1) spin_release [OF c'(2)]] c'(3,4) show ?thesis by force
qed

lemma exclusive:
  assumes "spin_reachable section_of l0 s0 c" "threads c t = TIn op as l" "threads c t' = TIn op' as' l'"
  shows "t = t'"
proof (cases "spin_lock c")
  case True
  then obtain s t0 where "owned_by c s t0"
    using atomic_reachable [OF assms(1)] by (auto simp: atomic_inv_def)
  then have "t = t0" "t' = t0" using assms(2,3) by (auto simp: owned_by_def)
  then show ?thesis by simp
next
  case False
  then show ?thesis using atomic_reachable [OF assms(1)] assms(2) by (auto simp: atomic_inv_def)
qed

end

end
