(* ===== verification/Latest_Cache.thy ===== *)
theory Latest_Cache
  imports Spin_Lock
begin

text \<open>
  \<^verbatim>\<open>include/robot_dataflow/latest_cache.hpp\<close>: the latest-only slot of a
  BACKGROUND topic and the cache that maps topic hashes to slots. The slots live on a heap
  (\<^verbatim>\<open>std::unique_ptr\<close>), so a pointer handed out by \<^verbatim>\<open>get_slot\<close> is an
  address that later calls must keep valid. Where the code iterates over the
  \<^verbatim>\<open>unordered_map\<close>, the order it visits the keys in is an argument.
\<close>

subsection \<open>The slot\<close>

record latest_slot =
  payload :: bytes
  has_data :: bool
  handler_hash :: u64
  drop_count :: u64
  put_time :: int

definition slot_new :: latest_slot where
  "slot_new = \<lparr>payload = [], has_data = False, handler_hash = 0, drop_count = 0, put_time = 0\<rparr>"

text \<open>\<^verbatim>\<open>put\<close> under the lock, one field at a time; \<open>now\<close> is the clock reading.\<close>

definition count_overwrite :: "latest_slot \<Rightarrow> latest_slot" where
  "count_overwrite s = (if has_data s then s\<lparr>drop_count := drop_count s + 1\<rparr> else s)"

definition put :: "u64 \<Rightarrow> bytes \<Rightarrow> int \<Rightarrow> latest_slot \<Rightarrow> latest_slot" where
  "put hash data now s =
     (count_overwrite s)\<lparr>payload := data, handler_hash := hash, put_time := now, has_data := True\<rparr>"

type_synonym sample = "u64 \<times> bytes \<times> int"

text \<open>\<^verbatim>\<open>take\<close>: moving the payload out leaves the vector empty.\<close>

definition take_sample :: "latest_slot \<Rightarrow> sample option \<times> latest_slot" where
  "take_sample s =
     (if \<not> has_data s then (None, s)
      else (Some (handler_hash s, payload s, put_time s), s\<lparr>has_data := False, payload := []\<rparr>))"

subsection \<open>A latest-value register\<close>

text \<open>
  What a slot promises: a put replaces the held value and counts the value it replaces, a
  take hands the held value out once. The client lemma is the frame budget of a topic.
\<close>

datatype 'v reg_op = Put 'v | Take

fun reg_run :: "('v \<Rightarrow> 's \<Rightarrow> 's) \<Rightarrow> ('s \<Rightarrow> 'v option \<times> 's) \<Rightarrow> 'v reg_op list \<Rightarrow> 's \<Rightarrow> 'v list \<times> 's" where
  "reg_run put_op take_op [] s = ([], s)"
| "reg_run put_op take_op (Put v # ops) s = reg_run put_op take_op ops (put_op v s)"
| "reg_run put_op take_op (Take # ops) s =
     (case take_op s of
        (None, s') \<Rightarrow> reg_run put_op take_op ops s'
      | (Some v, s') \<Rightarrow> (let (vs, s'') = reg_run put_op take_op ops s' in (v # vs, s'')))"

fun puts :: "'v reg_op list \<Rightarrow> 'v list" where
  "puts [] = []"
| "puts (Put v # ops) = v # puts ops"
| "puts (Take # ops) = puts ops"

lemma puts_append [simp]: "puts (ops @ ops') = puts ops @ puts ops'"
  by (induction ops rule: puts.induct) simp_all

text \<open>What a register that holds \<open>h\<close> hands out: the newest put before each take.\<close>

fun latest :: "'v option \<Rightarrow> 'v reg_op list \<Rightarrow> 'v list \<times> 'v option" where
  "latest h [] = ([], h)"
| "latest h (Put v # ops) = latest (Some v) ops"
| "latest h (Take # ops) =
     (let (vs, h') = latest None ops in (case h of None \<Rightarrow> vs | Some v \<Rightarrow> v # vs, h'))"

locale latest_register =
  fixes put_op :: "'v \<Rightarrow> 's \<Rightarrow> 's"
    and take_op :: "'s \<Rightarrow> 'v option \<times> 's"
    and held :: "'s \<Rightarrow> 'v option"
    and lost :: "'s \<Rightarrow> u64"
  assumes held_put: "held (put_op v s) = Some v"
    and lost_put: "lost (put_op v s) = lost s + (if held s = None then 0 else 1)"
    and take_value: "fst (take_op s) = held s"
    and held_take: "held (snd (take_op s)) = None"
    and lost_take: "lost (snd (take_op s)) = lost s"
begin

lemmas register_laws = held_put lost_put take_value held_take lost_take

lemma take_cases:
  obtains (none) s' where "take_op s = (None, s')" "held s = None" "held s' = None" "lost s' = lost s"
    | (some) v s' where "take_op s = (Some v, s')" "held s = Some v" "held s' = None" "lost s' = lost s"
  using register_laws(3-5) [of s] by (cases "take_op s"; cases "fst (take_op s)") auto

lemma run_latest:
  "reg_run put_op take_op ops s = (vs, s') \<Longrightarrow> latest (held s) ops = (vs, held s')"
proof (induction ops arbitrary: s vs rule: puts.induct)
  case (2 v ops)
  then show ?case using "2.IH" [of "put_op v s"] by (simp add: held_put)
next
  case (3 ops)
  show ?case
  proof (cases s rule: take_cases)
    case (none s1)
    with 3 show ?thesis by (auto simp: Let_def split: prod.splits dest: "3.IH" [of s1])
  next
    case (some v s1)
    then obtain ws where "reg_run put_op take_op ops s1 = (ws, s')" "vs = v # ws"
      using 3 by (auto split: prod.splits)
    with 3 some show ?thesis using "3.IH" [of s1 ws] by simp
  qed
qed simp

definition count_held :: "'s \<Rightarrow> u64" where
  "count_held s = (if held s = None then 0 else 1)"

lemma run_budget:
  "reg_run put_op take_op ops s = (vs, s') \<Longrightarrow>
     of_nat (length (puts ops)) + count_held s + lost s = of_nat (length vs) + count_held s' + lost s'"
proof (induction ops arbitrary: s vs rule: puts.induct)
  case (2 v ops)
  then have "of_nat (length (puts ops)) + count_held (put_op v s) + lost (put_op v s) =
      of_nat (length vs) + count_held s' + lost s'" by simp
  then show ?case by (simp add: count_held_def register_laws algebra_simps split: if_splits)
next
  case (3 ops)
  show ?case
  proof (cases s rule: take_cases)
    case (none s1)
    with 3 show ?thesis using "3.IH" [of s1 vs] by (simp add: count_held_def)
  next
    case (some v s1)
    then obtain ws where "reg_run put_op take_op ops s1 = (ws, s')" "vs = v # ws"
      using 3 by (auto split: prod.splits)
    with some show ?thesis using "3.IH" [of s1 ws] by (simp add: count_held_def algebra_simps)
  qed
qed simp

end

definition put_frame :: "sample \<Rightarrow> latest_slot \<Rightarrow> latest_slot" where
  "put_frame f s = (case f of (hash, data, now) \<Rightarrow> put hash data now s)"

definition held_frame :: "latest_slot \<Rightarrow> sample option" where
  "held_frame s = (if has_data s then Some (handler_hash s, payload s, put_time s) else None)"

lemma put_fields [simp]:
  "has_data (put h d t s)" "payload (put h d t s) = d" "handler_hash (put h d t s) = h"
  "put_time (put h d t s) = t" "drop_count (put h d t s) = drop_count s + (if has_data s then 1 else 0)"
  by (simp_all add: put_def count_overwrite_def)

interpretation slot: latest_register put_frame take_sample held_frame drop_count
  by unfold_locales (auto simp: put_frame_def take_sample_def held_frame_def split: prod.split)

subsection \<open>The slot under its spin lock\<close>

text \<open>
  The two critical sections, field access by field access. The locals are whether
  \<^verbatim>\<open>take\<close> found data and what it returns.
\<close>

datatype slot_op = SPut u64 bytes int | STake

type_synonym slot_locals = "bool \<times> sample option"

fun slot_section :: "slot_op \<Rightarrow> (latest_slot \<times> slot_locals \<Rightarrow> latest_slot \<times> slot_locals) list" where
  "slot_section (SPut hash data now) =
     [\<lambda>(s, l). (if has_data s then s\<lparr>drop_count := drop_count s + 1\<rparr> else s, l),
      \<lambda>(s, l). (s\<lparr>payload := data\<rparr>, l),
      \<lambda>(s, l). (s\<lparr>handler_hash := hash\<rparr>, l),
      \<lambda>(s, l). (s\<lparr>put_time := now\<rparr>, l),
      \<lambda>(s, l). (s\<lparr>has_data := True\<rparr>, l)]"
| "slot_section STake =
     [\<lambda>(s, l). if has_data s then (s\<lparr>has_data := False\<rparr>, (True, None)) else (s, (False, None)),
      \<lambda>(s, (found, r)). if found then (s\<lparr>payload := []\<rparr>, (True, Some (handler_hash s, payload s, put_time s)))
                       else (s, (found, r))]"

fun slot_effect :: "slot_op \<Rightarrow> latest_slot \<times> slot_locals \<Rightarrow> latest_slot \<times> slot_locals" where
  "slot_effect (SPut hash data now) (s, l) = (put hash data now s, l)"
| "slot_effect STake (s, l) = (case take_sample s of (r, s') \<Rightarrow> (s', (r \<noteq> None, r)))"

interpretation slot_lock: lock_protected slot_section slot_effect "(False, None)"
proof
  fix op s
  show "run_actions (slot_section op) (s, (False, None)) = slot_effect op (s, (False, None))"
    by (cases op) (simp_all add: put_def count_overwrite_def take_sample_def)
qed

lemma replay_puts:
  assumes "\<forall>op \<in> set ops. op \<noteq> STake" "ops \<noteq> []"
  shows "\<exists>hash data now s'. last ops = SPut hash data now \<and>
           fst (replay slot_effect (False, None) ops s) = s' \<and> has_data s' \<and> payload s' = data \<and>
           handler_hash s' = hash \<and> put_time s' = now \<and>
           drop_count s' = drop_count s + of_nat (length ops) - (if has_data s then 0 else 1)"
  using assms
proof (induction ops rule: rev_induct)
  case (snoc op ops)
  then obtain hash data now where op: "op = SPut hash data now" by (cases op) auto
  show ?case
  proof (cases "ops = []")
    case True
    then show ?thesis using op by (simp add: Let_def)
  next
    case False
    with snoc show ?thesis by (auto simp: op replay_append Let_def split: prod.splits)
  qed
qed simp

subsection \<open>The cache\<close>

record latest_cache =
  slots :: "u64 \<rightharpoonup> nat"              \<comment> \<open>\<open>slots_\<close>: hash to the address of its slot\<close>
  slot_heap :: "latest_slot option list"   \<comment> \<open>the slots ever allocated; \<open>None\<close> once freed\<close>

definition cache_new :: latest_cache where
  "cache_new = \<lparr>slots = Map.empty, slot_heap = []\<rparr>"

text \<open>
  \<^verbatim>\<open>slots_.try_emplace(hash, std::make_unique<LatestSampleSlot>())\<close>: the argument
  is allocated first; when the key is already there the new slot is freed again.
\<close>

definition try_emplace :: "u64 \<Rightarrow> latest_cache \<Rightarrow> nat \<times> latest_cache" where
  "try_emplace hash c =
     (let a = length (slot_heap c); c1 = c\<lparr>slot_heap := slot_heap c @ [Some slot_new]\<rparr>
      in case slots c1 hash of
           Some b \<Rightarrow> (b, c1\<lparr>slot_heap := (slot_heap c1)[a := None]\<rparr>)
         | None \<Rightarrow> (a, c1\<lparr>slots := (slots c1)(hash \<mapsto> a)\<rparr>))"

definition pre_allocate :: "u64 \<Rightarrow> latest_cache \<Rightarrow> latest_cache" where
  "pre_allocate hash c = snd (try_emplace hash c)"

definition get_slot :: "u64 \<Rightarrow> latest_cache \<Rightarrow> nat \<times> latest_cache" where
  "get_slot hash c = try_emplace hash c"

text \<open>\<open>None\<close> is the null pointer.\<close>

definition get_slot_fast :: "u64 \<Rightarrow> latest_cache \<Rightarrow> nat option" where
  "get_slot_fast hash c = slots c hash"

text \<open>Access through a slot pointer.\<close>

definition deref :: "nat \<Rightarrow> latest_cache \<Rightarrow> mem_error + latest_slot" where
  "deref a c = (if a < length (slot_heap c)
                then case slot_heap c ! a of Some s \<Rightarrow> Inr s | None \<Rightarrow> Inl NullDeref
                else Inl NullDeref)"

definition store_slot :: "nat \<Rightarrow> latest_slot \<Rightarrow> latest_cache \<Rightarrow> latest_cache" where
  "store_slot a s c = c\<lparr>slot_heap := (slot_heap c)[a := Some s]\<rparr>"

definition put_via :: "nat \<Rightarrow> u64 \<Rightarrow> bytes \<Rightarrow> int \<Rightarrow> latest_cache \<Rightarrow> mem_error + latest_cache" where
  "put_via a hash data now c =
     (case deref a c of Inl e \<Rightarrow> Inl e | Inr s \<Rightarrow> Inr (store_slot a (put hash data now s) c))"

text \<open>
  \<^verbatim>\<open>drain\<close>: visit every key in the map's iteration order \<open>ord\<close>; a key that is
  not in the map is not visited. The consumer acts on a state of its own.
\<close>

fun drain :: "u64 list \<Rightarrow> (u64 \<Rightarrow> bytes \<Rightarrow> int \<Rightarrow> 's \<Rightarrow> 's) \<Rightarrow> latest_cache \<Rightarrow> 's \<Rightarrow> mem_error + latest_cache \<times> 's" where
  "drain [] consumer c st = Inr (c, st)"
| "drain (hash # ord) consumer c st =
     (case slots c hash of
        None \<Rightarrow> drain ord consumer c st
      | Some a \<Rightarrow>
          (case deref a c of
             Inl e \<Rightarrow> Inl e
           | Inr s \<Rightarrow>
               (case take_sample s of
                  (None, s') \<Rightarrow> drain ord consumer (store_slot a s' c) st
                | (Some (h, data, t), s') \<Rightarrow> drain ord consumer (store_slot a s' c) (consumer h data t st))))"

fun get_total_dropped :: "u64 list \<Rightarrow> latest_cache \<Rightarrow> u64 \<Rightarrow> mem_error + u64" where
  "get_total_dropped [] c acc = Inr acc"
| "get_total_dropped (hash # ord) c acc =
     (case slots c hash of
        None \<Rightarrow> get_total_dropped ord c acc
      | Some a \<Rightarrow> (case deref a c of
                     Inl e \<Rightarrow> Inl e
                   | Inr s \<Rightarrow> get_total_dropped ord c (acc + drop_count s)))"

text \<open>The lines \<^verbatim>\<open>print_drop_stats\<close> prints: topic hash and drop count.\<close>

fun print_drop_stats :: "u64 list \<Rightarrow> latest_cache \<Rightarrow> mem_error + (u64 \<times> u64) list" where
  "print_drop_stats [] c = Inr []"
| "print_drop_stats (hash # ord) c =
     (case slots c hash of
        None \<Rightarrow> print_drop_stats ord c
      | Some a \<Rightarrow>
          (case deref a c of
             Inl e \<Rightarrow> Inl e
           | Inr s \<Rightarrow>
               (case print_drop_stats ord c of
                  Inl e \<Rightarrow> Inl e
                | Inr lines \<Rightarrow> Inr (if drop_count s > 0 then (hash, drop_count s) # lines else lines))))"

subsection \<open>Invariant and view of the cache\<close>

text \<open>
  Every mapped address is a live slot, no two hashes share a slot, and no live slot is
  unreachable from the map (nothing leaks).
\<close>

definition cache_inv :: "latest_cache \<Rightarrow> bool" where
  "cache_inv c \<longleftrightarrow>
     finite (dom (slots c)) \<and>
     (\<forall>h a. slots c h = Some a \<longrightarrow> a < length (slot_heap c) \<and> slot_heap c ! a \<noteq> None) \<and>
     (\<forall>h h' a. slots c h = Some a \<and> slots c h' = Some a \<longrightarrow> h = h') \<and>
     (\<forall>a < length (slot_heap c). slot_heap c ! a \<noteq> None \<longrightarrow> (\<exists>h. slots c h = Some a))"

text \<open>The cache as a map from topic hashes to slots.\<close>

definition view :: "latest_cache \<Rightarrow> u64 \<rightharpoonup> latest_slot" where
  "view c h = (case slots c h of None \<Rightarrow> None | Some a \<Rightarrow> slot_heap c ! a)"

definition iterates :: "u64 list \<Rightarrow> latest_cache \<Rightarrow> bool" where
  "iterates ord c \<longleftrightarrow> distinct ord \<and> set ord = dom (slots c)"

lemma cache_new_inv [simp]: "cache_inv cache_new" "view cache_new = Map.empty" "slots cache_new = Map.empty"
  by (auto simp: cache_inv_def cache_new_def view_def fun_eq_iff)

lemma view_slots: "cache_inv c \<Longrightarrow> view c h = None \<longleftrightarrow> slots c h = None"
  by (auto simp: cache_inv_def view_def split: option.split)

lemma deref_view:
  "cache_inv c \<Longrightarrow> slots c h = Some a \<Longrightarrow> deref a c = Inr (the (view c h)) \<and> view c h = Some (the (view c h))"
  by (auto simp: cache_inv_def deref_def view_def split: option.split)

lemma slots_store [simp]: "slots (store_slot a s c) = slots c"
  by (simp add: store_slot_def)

lemma view_store:
  assumes "cache_inv c" "slots c h = Some a"
  shows "view (store_slot a s c) = (view c)(h \<mapsto> s)"
proof
  fix h'
  show "view (store_slot a s c) h' = ((view c)(h \<mapsto> s)) h'"
    using assms unfolding cache_inv_def
    by (cases "h' = h") (auto simp: view_def store_slot_def nth_list_update split: option.split)
qed

lemma cache_inv_store:
  assumes "cache_inv c" "slots c h = Some a"
  shows "cache_inv (store_slot a s c)"
  using assms unfolding cache_inv_def by (auto simp: store_slot_def nth_list_update)

lemma try_emplace_old:
  assumes "cache_inv c" "slots c h = Some a"
  defines "c' \<equiv> snd (try_emplace h c)"
  shows "fst (try_emplace h c) = a" "cache_inv c'" "view c' = view c" "slots c' = slots c"
    "slot_heap c' = slot_heap c @ [None]"
proof -
  show c': "slots c' = slots c" "slot_heap c' = slot_heap c @ [None]" "fst (try_emplace h c) = a"
    using assms(2) by (simp_all add: c'_def try_emplace_def Let_def)
  show "cache_inv c'"
    using assms(1) unfolding cache_inv_def c' by (auto simp: nth_append less_Suc_eq)
  show "view c' = view c"
    using assms(1) unfolding cache_inv_def view_def c' by (auto simp: fun_eq_iff nth_append split: option.split)
qed

lemma try_emplace_new:
  assumes "cache_inv c" "slots c h = None"
  defines "c' \<equiv> snd (try_emplace h c)"
  shows "fst (try_emplace h c) = length (slot_heap c)" "cache_inv c'" "view c' = (view c)(h \<mapsto> slot_new)"
    "slots c' = (slots c)(h \<mapsto> length (slot_heap c))" "slot_heap c' = slot_heap c @ [Some slot_new]"
proof -
  show c': "slots c' = (slots c)(h \<mapsto> length (slot_heap c))" "slot_heap c' = slot_heap c @ [Some slot_new]"
    "fst (try_emplace h c) = length (slot_heap c)"
    using assms(2) by (simp_all add: c'_def try_emplace_def Let_def)
  have b: "a < length (slot_heap c)" if "slots c h' = Some a" for h' a
    using assms(1) that unfolding cache_inv_def by blast
  have mapped: "\<exists>h'. h' \<noteq> h \<and> slots c h' = Some a" if "a < length (slot_heap c)" "slot_heap c ! a = Some s" for a s
    using assms(1,2) that unfolding cache_inv_def by (metis option.distinct(1))
  show "cache_inv c'"
    using assms(1,2) b unfolding cache_inv_def c'
    by (auto simp: nth_append less_Suc_eq split: if_splits dest: less_imp_neq) (use mapped in blast)
  show "view c' = (view c)(h \<mapsto> slot_new)"
    using b unfolding view_def c' by (auto simp: fun_eq_iff nth_append split: option.split dest: less_imp_neq)
qed

subsection \<open>Stable slot pointers\<close>

text \<open>
  What the reactor relies on when it hands slot pointers to the receive threads: an
  allocation finds the key it allocated, moves nobody else's slot, and gives a new key a
  slot of its own.
\<close>

locale slot_pool =
  fixes alloc :: "'k \<Rightarrow> 'c \<Rightarrow> 'c"
    and lookup :: "'k \<Rightarrow> 'c \<Rightarrow> nat option"
    and ok :: "'c \<Rightarrow> bool"
  assumes alloc_ok: "ok c \<Longrightarrow> ok (alloc k c)"
    and alloc_finds: "ok c \<Longrightarrow> lookup k (alloc k c) \<noteq> None"
    and alloc_other: "ok c \<Longrightarrow> k' \<noteq> k \<Longrightarrow> lookup k' (alloc k c) = lookup k' c"
    and alloc_stable: "ok c \<Longrightarrow> lookup k c = Some a \<Longrightarrow> lookup k (alloc k c) = Some a"
    and lookup_inj: "ok c \<Longrightarrow> lookup k c = Some a \<Longrightarrow> lookup k' c = Some a \<Longrightarrow> k = k'"
begin

lemma fold_ok: "ok c \<Longrightarrow> ok (fold alloc ks c)"
  by (induction ks arbitrary: c) (simp_all add: alloc_ok)

lemma fold_stable: "ok c \<Longrightarrow> lookup k c = Some a \<Longrightarrow> lookup k (fold alloc ks c) = Some a"
proof (induction ks arbitrary: c)
  case (Cons k' ks)
  then show ?case using alloc_stable alloc_other [of c k k'] alloc_ok by (cases "k = k'") auto
qed simp

lemma fold_dom: "ok c \<Longrightarrow> lookup k (fold alloc ks c) \<noteq> None \<longleftrightarrow> k \<in> set ks \<or> lookup k c \<noteq> None"
proof (induction ks arbitrary: c)
  case (Cons k' ks)
  have "lookup k (alloc k' c) \<noteq> None \<longleftrightarrow> k = k' \<or> lookup k c \<noteq> None"
    using Cons.prems alloc_finds alloc_other by (cases "k = k'") auto
  then show ?case using Cons.IH [of "alloc k' c"] Cons.prems alloc_ok by auto
qed simp

lemma fold_distinct:
  "ok c \<Longrightarrow> k \<noteq> k' \<Longrightarrow> lookup k (fold alloc ks c) = Some a \<Longrightarrow> lookup k' (fold alloc ks c) \<noteq> Some a"
  using lookup_inj [OF fold_ok] by blast

end

lemma pre_allocate_inv [inv_preserved]:
  assumes "cache_inv c"
  shows "cache_inv (pre_allocate h c)"
  using try_emplace_old(2) [OF assms] try_emplace_new(2) [OF assms]
  by (cases "slots c h") (auto simp: pre_allocate_def)

lemma pre_allocate_slots:
  assumes "cache_inv c"
  shows "slots (pre_allocate h c) =
           (if slots c h = None then (slots c)(h \<mapsto> length (slot_heap c)) else slots c)"
  using try_emplace_old(4) [OF assms] try_emplace_new(4) [OF assms]
  by (cases "slots c h") (auto simp: pre_allocate_def)

lemma pre_allocate_view:
  assumes "cache_inv c"
  shows "view (pre_allocate h c) = (if view c h = None then (view c)(h \<mapsto> slot_new) else view c)"
  using try_emplace_old(3) [OF assms] try_emplace_new(3) [OF assms] view_slots [OF assms, of h]
  by (cases "slots c h") (auto simp: pre_allocate_def)

lemma slots_less: "cache_inv c \<Longrightarrow> slots c h = Some a \<Longrightarrow> a < length (slot_heap c)"
  by (auto simp: cache_inv_def)

interpretation pool: slot_pool pre_allocate get_slot_fast cache_inv
proof
  fix c :: latest_cache and h h' a
  assume inv: "cache_inv c"
  show "cache_inv (pre_allocate h c)" by (rule pre_allocate_inv [OF inv])
  show "get_slot_fast h (pre_allocate h c) \<noteq> None" "h' \<noteq> h \<Longrightarrow> get_slot_fast h' (pre_allocate h c) = get_slot_fast h' c"
    "get_slot_fast h c = Some a \<Longrightarrow> get_slot_fast h (pre_allocate h c) = Some a"
    by (auto simp: get_slot_fast_def pre_allocate_slots [OF inv])
  show "get_slot_fast h c = Some a \<Longrightarrow> get_slot_fast h' c = Some a \<Longrightarrow> h = h'"
    using inv by (auto simp: get_slot_fast_def cache_inv_def)
qed

subsection \<open>Put, drain and totals over the view\<close>

lemma put_via_spec:
  assumes "cache_inv c" "get_slot_fast k c = Some a"
  obtains c' where "put_via a h d t c = Inr c'" "cache_inv c'" "slots c' = slots c"
    "view c' = (view c)(k \<mapsto> put h d t (the (view c k)))"
proof
  have a: "slots c k = Some a" using assms(2) by (simp add: get_slot_fast_def)
  let ?c = "store_slot a (put h d t (the (view c k))) c"
  show "put_via a h d t c = Inr ?c" using deref_view [OF assms(1) a] by (simp add: put_via_def)
  show "cache_inv ?c" "slots ?c = slots c" "view ?c = (view c)(k \<mapsto> put h d t (the (view c k)))"
    using cache_inv_store [OF assms(1) a] view_store [OF assms(1) a] by simp_all
qed

text \<open>The samples a drain hands out, and what it leaves of a slot.\<close>

definition frames_of :: "u64 list \<Rightarrow> (u64 \<rightharpoonup> latest_slot) \<Rightarrow> sample list" where
  "frames_of ord v = List.map_filter (\<lambda>h. Option.bind (v h) held_frame) ord"

definition emptied :: "latest_slot \<Rightarrow> latest_slot" where
  "emptied s = snd (take_sample s)"

lemma frames_of_simps [simp]:
  "frames_of [] v = []"
  "frames_of (h # ord) v = (case Option.bind (v h) held_frame of None \<Rightarrow> frames_of ord v | Some f \<Rightarrow> f # frames_of ord v)"
  by (simp_all add: frames_of_def map_filter_simps split: option.split)

lemma emptied_fields [simp]: "has_data (emptied s) = False" "drop_count (emptied s) = drop_count s"
  "held_frame (emptied s) = None"
  by (simp_all add: emptied_def take_sample_def held_frame_def)

lemma take_sample_eq: "take_sample s = (held_frame s, emptied s)"
  by (simp add: take_sample_def held_frame_def emptied_def)

lemma frames_of_cong: "(\<And>h. h \<in> set ord \<Longrightarrow> v h = v' h) \<Longrightarrow> frames_of ord v = frames_of ord v'"
  by (induction ord) (simp_all split: option.split)

definition drained :: "u64 list \<Rightarrow> (u64 \<rightharpoonup> latest_slot) \<Rightarrow> u64 \<rightharpoonup> latest_slot" where
  "drained ord v h = (if h \<in> set ord then map_option emptied (v h) else v h)"

lemma drain_spec:
  assumes "cache_inv c" "distinct ord"
  shows "\<exists>c'. drain ord consumer c st = Inr (c', fold (\<lambda>(h, d, t). consumer h d t) (frames_of ord (view c)) st) \<and>
              cache_inv c' \<and> slots c' = slots c \<and> view c' = drained ord (view c)"
  using assms
proof (induction ord arbitrary: c st)
  case Nil
  then show ?case by (auto simp: drained_def)
next
  case (Cons h ord)
  note inv = Cons.prems(1)
  show ?case
  proof (cases "slots c h")
    case None
    then have v: "view c h = None" using view_slots [OF inv] by blast
    then have "drained (h # ord) (view c) = drained ord (view c)" by (auto simp: drained_def)
    with v None Cons show ?thesis by simp
  next
    case (Some a)
    obtain s where s: "view c h = Some s" "deref a c = Inr s" using deref_view [OF inv Some] by auto
    let ?c = "store_slot a (emptied s) c"
    have inv': "cache_inv ?c" "view ?c = (view c)(h \<mapsto> emptied s)"
      using cache_inv_store [OF inv Some] view_store [OF inv Some] by simp_all
    have fr: "frames_of ord (view ?c) = frames_of ord (view c)"
      using Cons.prems(2) by (intro frames_of_cong) (auto simp: inv'(2))
    have "drained ord (view ?c) = drained (h # ord) (view c)"
      using Cons.prems(2) s by (auto simp: inv'(2) drained_def fun_eq_iff)
    with Cons.IH [OF inv'(1), of "case held_frame s of None \<Rightarrow> st | Some (h, d, t) \<Rightarrow> consumer h d t st"]
      Cons.prems(2) Some s fr show ?thesis
      by (cases "held_frame s") (auto simp: take_sample_eq)
  qed
qed

lemma total_dropped_spec:
  assumes "cache_inv c"
  shows "get_total_dropped ord c acc = Inr (acc + (\<Sum>h\<leftarrow>ord. case view c h of None \<Rightarrow> 0 | Some s \<Rightarrow> drop_count s))"
proof (induction ord arbitrary: acc)
  case (Cons h ord)
  show ?case
  proof (cases "slots c h")
    case None
    then show ?thesis using Cons view_slots [OF assms, of h] by simp
  next
    case (Some a)
    then obtain s where "view c h = Some s" "deref a c = Inr s" using deref_view [OF assms Some] by auto
    with Some Cons show ?thesis by (simp add: add_ac)
  qed
qed simp

definition dropped_frames :: "(u64 \<rightharpoonup> latest_slot) \<Rightarrow> u64" where
  "dropped_frames v = (\<Sum>h \<in> dom v. drop_count (the (v h)))"

lemma total_dropped_iterates:
  assumes "cache_inv c" "iterates ord c"
  shows "get_total_dropped ord c 0 = Inr (dropped_frames (view c))"
proof -
  have ord: "distinct ord" "set ord = dom (view c)"
    using assms(2) by (simp_all add: iterates_def dom_def view_slots [OF assms(1)])
  have "(\<Sum>h\<leftarrow>ord. case view c h of None \<Rightarrow> 0 | Some s \<Rightarrow> drop_count s) =
        (\<Sum>h\<leftarrow>ord. drop_count (the (view c h)))"
    using ord(2) by (intro arg_cong [where f = sum_list] map_cong) (auto split: option.split)
  then show ?thesis
    using ord by (simp add: total_dropped_spec [OF assms(1)] dropped_frames_def sum_list_distinct_conv_sum_set)
qed

lemma print_drop_stats_spec:
  assumes "cache_inv c"
  shows "print_drop_stats ord c =
           Inr (List.map_filter (\<lambda>h. case view c h of None \<Rightarrow> None
                  | Some s \<Rightarrow> if drop_count s > 0 then Some (h, drop_count s) else None) ord)"
proof (induction ord)
  case (Cons h ord)
  then show ?case
    using view_slots [OF assms, of h] deref_view [OF assms, of h]
    by (cases "slots c h") (auto simp: map_filter_simps)
qed (simp add: map_filter_simps)

lemma frames_of_append [simp]: "frames_of (xs @ ys) v = frames_of xs v @ frames_of ys v"
  by (simp add: frames_of_def map_filter_def)

text \<open>A drain that visits the whole map.\<close>

lemma drain_whole:
  assumes "cache_inv c" "iterates ord c"
  obtains c' where
    "drain ord consumer c st = Inr (c', fold (\<lambda>(h, d, t). consumer h d t) (frames_of ord (view c)) st)"
    "cache_inv c'" "slots c' = slots c" "\<And>h. view c' h = map_option emptied (view c h)"
    "dropped_frames (view c') = dropped_frames (view c)"
proof -
  have d: "distinct ord" using assms(2) by (simp add: iterates_def)
  obtain c' where c': "drain ord consumer c st = Inr (c', fold (\<lambda>(h, d, t). consumer h d t) (frames_of ord (view c)) st)"
    "cache_inv c'" "slots c' = slots c" "view c' = drained ord (view c)"
    using drain_spec [OF assms(1) d, of consumer st] by blast
  have v: "view c' h = map_option emptied (view c h)" for h
    using assms view_slots [OF assms(1), of h] by (auto simp: c'(4) drained_def iterates_def)
  have "dropped_frames (view c') = dropped_frames (view c)"
    unfolding dropped_frames_def by (intro sum.cong) (auto simp: dom_def v)
  with c' v that show thesis by blast
qed

text \<open>What a put changes of the frames a drain hands out, and of the total.\<close>

lemma frames_of_put:
  assumes "distinct ord" "k \<in> set ord" "held_frame s = Some f"
  shows "\<exists>fs gs. frames_of ord (v(k \<mapsto> s)) = fs @ f # gs \<and> fs @ gs = frames_of (remove1 k ord) v"
proof -
  obtain xs ys where ord: "ord = xs @ k # ys" "k \<notin> set xs" using split_list_first [OF assms(2)] by blast
  then have "k \<notin> set ys" using assms(1) by simp
  then have "frames_of xs (v(k \<mapsto> s)) = frames_of xs v" "frames_of ys (v(k \<mapsto> s)) = frames_of ys v"
    using ord(2) by (auto intro: frames_of_cong)
  then have "frames_of ord (v(k \<mapsto> s)) = frames_of xs v @ f # frames_of ys v \<and>
             frames_of xs v @ frames_of ys v = frames_of (remove1 k ord) v"
    using ord assms(3) by (simp add: remove1_append)
  then show ?thesis by blast
qed

lemma dropped_frames_put:
  assumes "finite (dom v)" "v k = Some s"
  shows "dropped_frames (v(k \<mapsto> put h d t s)) = dropped_frames v + (if has_data s then 1 else 0)"
proof -
  have dom: "dom (v(k \<mapsto> put h d t s)) = insert k (dom v - {k})" "dom v = insert k (dom v - {k})"
    using assms(2) by auto
  have rest: "(\<Sum>x \<in> dom v - {k}. drop_count (the ((v(k \<mapsto> put h d t s)) x))) = (\<Sum>x \<in> dom v - {k}. drop_count (the (v x)))"
    by (intro sum.cong) auto
  have "dropped_frames v = drop_count s + (\<Sum>x \<in> dom v - {k}. drop_count (the (v x)))"
    unfolding dropped_frames_def using assms by (subst sum.remove [of _ k]) auto
  moreover have "dropped_frames (v(k \<mapsto> put h d t s)) =
      drop_count (put h d t s) + (\<Sum>x \<in> dom v - {k}. drop_count (the (v x)))"
    unfolding dropped_frames_def dom(1) using assms(1) rest by (subst sum.insert) auto
  ultimately show ?thesis by (simp add: add_ac)
qed

lemma view_finite: "cache_inv c \<Longrightarrow> finite (dom (view c))"
  using view_slots [of c] by (simp add: cache_inv_def dom_def)

subsection \<open>Properties\<close>

text \<open>
  Latest wins: from any slot and for any sequence of puts and takes, what the takes
  return and what the slot still holds at the end is the newest put before each take,
  each handed out at most once.
\<close>

theorem slot_latest_wins:
  assumes "reg_run put_frame take_sample ops s = (vs, s')"
  shows "latest (held_frame s) ops = (vs, held_frame s')"
  using assms by (rule slot.run_latest)

theorem slot_latest_wins_witness:
  "latest None [Put (1, [7], 0), Put (1, [8, 9], 5), Take, Take] =
     (fst (reg_run put_frame take_sample [Put (1, [7], 0), Put (1, [8, 9], 5), Take, Take] slot_new),
      held_frame (snd (reg_run put_frame take_sample [Put (1, [7], 0), Put (1, [8, 9], 5), Take, Take] slot_new))) \<and>
   latest None [Put (1 :: u64, [7 :: u8], 0 :: int), Put (1, [8, 9], 5), Take, Take] = ([(1, [8, 9], 5)], None)"
  using slot_latest_wins [of "[Put (1, [7], 0), Put (1, [8, 9], 5), Take, Take]" slot_new, OF surjective_pairing]
  by (simp add: held_frame_def slot_new_def)

text \<open>
  No frame is unaccounted for: of the frames ever put in a slot, each was handed out,
  is still held, or is counted in \<open>drop_count\<close> (as 64-bit numbers).
\<close>

theorem slot_frame_budget:
  assumes "reg_run put_frame take_sample ops slot_new = (vs, s')"
  shows "of_nat (length (puts ops)) =
           of_nat (length vs) + (if has_data s' then 1 else 0) + drop_count s'"
  using slot.run_budget [OF assms]
  by (simp add: slot.count_held_def held_frame_def slot_new_def split: if_splits)

theorem slot_frame_budget_witness:
  "(of_nat (length (puts [Put (1, [7], 0), Put (1, [8 :: u8], 5), Take, Put (1 :: u64, [9], 6 :: int)])) :: u64) =
     of_nat (length (fst (reg_run put_frame take_sample
       [Put (1, [7], 0), Put (1, [8], 5), Take, Put (1, [9], 6)] slot_new))) + 1 + 1"
  using slot_frame_budget [of "[Put (1, [7], 0), Put (1, [8], 5), Take, Put (1, [9], 6)]", OF surjective_pairing]
  by (simp add: put_frame_def put_def count_overwrite_def take_sample_def slot_new_def)

text \<open>
  C18. The spin lock makes the slot atomic: whenever no thread is inside, the slot's fields
  and every result handed out are those of the finished puts and takes executed one after
  the other.
\<close>

theorem slot_linearizable:
  assumes "spin_reachable slot_section (False, None) s0 c" "\<not> spin_lock c"
  shows "replay slot_effect (False, None) (map fst (done_ops c)) s0 = (shared c, map snd (done_ops c))"
  using assms by (rule slot_lock.linearizable)

theorem slot_linearizable_witness:
  "\<exists>c. spin_reachable slot_section (False, None) slot_new c \<and> threads c 3 = TWait STake \<and>
       replay slot_effect (False, None) (map fst (done_ops c)) slot_new = (shared c, map snd (done_ops c))"
proof -
  let ?c = "(spin_init slot_new :: (slot_op, latest_slot, slot_locals) spin_sys)\<lparr>threads := (\<lambda>_. TIdle)(3 := TWait STake)\<rparr>"
  have "spin_step slot_section (False, None) (spin_init slot_new) ?c"
    using spin_call [of "spin_init slot_new" 3 slot_section "(False, None)" STake]
    by (simp add: spin_init_def)
  then have reach: "spin_reachable slot_section (False, None) slot_new ?c"
    by (rule spin_next [OF spin_start])
  moreover have "\<not> spin_lock ?c" by (simp add: spin_init_def)
  ultimately show ?thesis using slot_linearizable [of slot_new ?c] by auto
qed

text \<open>
  Pre-allocation: starting from an empty cache, exactly the pre-allocated hashes have a
  slot, two hashes never share one, a pointer obtained once stays valid under every later
  pre-allocation, and no allocation leaks.
\<close>

theorem cache_pre_allocation:
  assumes "get_slot_fast k (fold pre_allocate ks cache_new) = Some a"
  shows "cache_inv (fold pre_allocate ks cache_new) \<and>
         (\<forall>k'. get_slot_fast k' (fold pre_allocate ks cache_new) \<noteq> None \<longleftrightarrow> k' \<in> set ks) \<and>
         (\<forall>k'. get_slot_fast k' (fold pre_allocate ks cache_new) = Some a \<longleftrightarrow> k' = k) \<and>
         get_slot_fast k (fold pre_allocate (ks @ ks') cache_new) = Some a"
proof -
  have inv: "cache_inv (fold pre_allocate ks cache_new)" by (simp add: pool.fold_ok)
  have "get_slot_fast k' cache_new = None" for k' by (simp add: get_slot_fast_def)
  then have "get_slot_fast k' (fold pre_allocate ks cache_new) \<noteq> None \<longleftrightarrow> k' \<in> set ks" for k'
    by (simp add: pool.fold_dom del: not_None_eq)
  moreover have "get_slot_fast k' (fold pre_allocate ks cache_new) = Some a \<longleftrightarrow> k' = k" for k'
    using pool.lookup_inj [OF inv assms] assms by blast
  ultimately show ?thesis
    using inv pool.fold_stable [OF inv assms] by simp
qed

theorem cache_pre_allocation_witness:
  "cache_inv (fold pre_allocate [5, 9, 5] cache_new) \<and>
   get_slot_fast 9 (fold pre_allocate ([5, 9, 5] @ [9, 11]) cache_new) = Some 1"
proof -
  have "get_slot_fast 9 (fold pre_allocate [5, 9, 5] cache_new) = Some 1"
    by (simp add: get_slot_fast_def pre_allocate_def try_emplace_def cache_new_def Let_def)
  from cache_pre_allocation [OF this, of "[9, 11]"] show ?thesis by blast
qed

text \<open>
  A drain ends without a memory error, hands the consumer exactly the frame each
  visited slot holds, once and in the order of the visit, empties those slots, and leaves
  the drop counters and the map alone. The order of the visit does not matter for what is
  left behind.
\<close>

theorem cache_drain_delivers:
  assumes "cache_inv c" "iterates ord c"
  shows "\<exists>c'. drain ord consumer c st = Inr (c', fold (\<lambda>(h, d, t). consumer h d t) (frames_of ord (view c)) st) \<and>
              cache_inv c' \<and> slots c' = slots c \<and>
              (\<forall>h. view c' h = map_option emptied (view c h)) \<and>
              dropped_frames (view c') = dropped_frames (view c)"
  by (rule drain_whole [OF assms, of consumer st]) blast

theorem cache_drain_delivers_witness:
  "\<exists>c'. drain [9, 5] (\<lambda>h d t. (#) (h, d, t)) (fold pre_allocate [5, 9] cache_new) [] = Inr (c', []) \<and> cache_inv c'"
proof -
  let ?c = "fold pre_allocate [5, 9] cache_new"
  have inv: "cache_inv ?c" by (rule pool.fold_ok) simp
  have "slots ?c = [5 \<mapsto> 0, 9 \<mapsto> 1]"
    by (simp add: pre_allocate_def try_emplace_def cache_new_def Let_def)
  then have "iterates [9, 5] ?c" by (auto simp: iterates_def)
  moreover have "frames_of [9, 5] (view ?c) = []"
    by (simp add: view_def pre_allocate_def try_emplace_def cache_new_def Let_def held_frame_def slot_new_def)
  ultimately show ?thesis
    using cache_drain_delivers [OF inv, of "[9, 5]" "\<lambda>h d t. (#) (h, d, t)" "[]"] by auto
qed

text \<open>
  Putting through a slot pointer and draining is a round trip: the next drain delivers
  the frame put last for that topic, and the total of dropped frames grows by one exactly
  when the put replaced a frame nobody had taken.
\<close>

theorem cache_put_drain_roundtrip:
  assumes "cache_inv c" "iterates ord c" "get_slot_fast k c = Some a"
  shows "\<exists>c1 c2 fs gs. put_via a k d t c = Inr c1 \<and>
           drain ord (\<lambda>h d t st. st @ [(h, d, t)]) c1 [] = Inr (c2, fs @ (k, d, t) # gs) \<and>
           fs @ gs = frames_of (remove1 k ord) (view c) \<and>
           get_total_dropped ord c2 0 =
             Inr (dropped_frames (view c) + (if has_data (the (view c k)) then 1 else 0))"
proof -
  have k: "slots c k = Some a" "k \<in> set ord" "distinct ord"
    using assms(2,3) by (auto simp: get_slot_fast_def iterates_def)
  obtain s where s: "view c k = Some s" using deref_view [OF assms(1) k(1)] by blast
  obtain c1 where c1: "put_via a k d t c = Inr c1" "cache_inv c1" "slots c1 = slots c"
    "view c1 = (view c)(k \<mapsto> put k d t s)"
    using put_via_spec [OF assms(1,3)] s by (metis option.sel)
  have it1: "iterates ord c1" using assms(2) c1(3) by (simp add: iterates_def)
  obtain c2 where c2: "drain ord (\<lambda>h d t st. st @ [(h, d, t)]) c1 [] =
      Inr (c2, fold (\<lambda>(h, d, t) st. st @ [(h, d, t)]) (frames_of ord (view c1)) [])"
    "cache_inv c2" "slots c2 = slots c1" "dropped_frames (view c2) = dropped_frames (view c1)"
    using drain_whole [OF c1(2) it1, of "\<lambda>h d t st. st @ [(h, d, t)]" "[]"]
    by (metis (mono_tags, lifting) case_prod_eta fold_cong)
  have "fold (\<lambda>(h, d, t) st. st @ [(h, d, t)]) fs st = st @ fs" for fs st :: "sample list"
    by (induction fs arbitrary: st) auto
  moreover obtain fs gs where "frames_of ord (view c1) = fs @ (k, d, t) # gs"
    "fs @ gs = frames_of (remove1 k ord) (view c)"
    using frames_of_put [OF k(3,2), of "put k d t s" _ "view c"] c1(4) by (auto simp: held_frame_def)
  moreover have "get_total_dropped ord c2 0 = Inr (dropped_frames (view c1))"
    using total_dropped_iterates [OF c2(2), of ord] it1 c2(3,4) by (simp add: iterates_def)
  ultimately show ?thesis
    using c1(1) c2(1) s dropped_frames_put [OF view_finite [OF assms(1)] s, of k d t] c1(4) by auto
qed

theorem cache_put_drain_roundtrip_witness:
  "\<exists>c1 c2 fs gs. put_via 1 9 [3, 4] 17 (fold pre_allocate [5, 9] cache_new) = Inr c1 \<and>
     drain [9, 5] (\<lambda>h d t st. st @ [(h, d, t)]) c1 [] = Inr (c2, fs @ (9, [3, 4], 17) # gs)"
proof -
  let ?c = "fold pre_allocate [5, 9] cache_new"
  have sl: "slots ?c = [5 \<mapsto> 0, 9 \<mapsto> 1]"
    by (simp add: pre_allocate_def try_emplace_def cache_new_def Let_def)
  then have "iterates [9, 5] ?c" "get_slot_fast 9 ?c = Some 1" by (auto simp: iterates_def get_slot_fast_def)
  moreover have "cache_inv ?c" by (rule pool.fold_ok) simp
  ultimately show ?thesis
    using cache_put_drain_roundtrip [of ?c "[9, 5]" 9 1 "[3, 4]" 17] by blast
qed

end
