(* ===== verification/Binary64.thy ===== *)
theory Binary64
  imports Complex_Main "HOL-Library.Log_Nat"
begin

text \<open>
  The arithmetic the statistics and the TUI do on \<^verbatim>\<open>double\<close>: a finite value is the
  rational it denotes, and every operation rounds its exact result to 53 significant bits,
  half to even (IEEE 754 binary64 in the default rounding mode). Exponents are unbounded:
  nanosecond counts, their sums over a window and their quotients stay far from the
  largest and the smallest normal number.
\<close>

type_synonym double = rat

subsection \<open>Rounding\<close>

text \<open>Nearest integer, ties to the even one.\<close>

definition round_even :: "rat \<Rightarrow> int" where
  "round_even x =
     (let f = \<lfloor>x\<rfloor>; r = x - of_int f
      in if r < 1/2 then f else if r > 1/2 then f + 1 else if even f then f else f + 1)"

definition pow2 :: "int \<Rightarrow> rat" where
  "pow2 e = (if 0 \<le> e then 2 ^ nat e else 1 / 2 ^ nat (- e))"

text \<open>The binary exponent of a positive rational: \<open>pow2 e \<le> x < pow2 (e + 1)\<close>.\<close>

definition exponent :: "rat \<Rightarrow> int" where
  "exponent x =
     (case quotient_of x of (n, d) \<Rightarrow>
        (let e = bitlen n - bitlen d in if pow2 e \<le> x then e else e - 1))"

definition rnd53 :: "rat \<Rightarrow> double" where
  "rnd53 x =
     (if x = 0 then 0
      else if x > 0 then (let u = pow2 (exponent x - 52) in of_int (round_even (x / u)) * u)
      else (let u = pow2 (exponent (- x) - 52) in - (of_int (round_even (- x / u)) * u)))"

definition fadd :: "double \<Rightarrow> double \<Rightarrow> double" where "fadd x y = rnd53 (x + y)"
definition fmul :: "double \<Rightarrow> double \<Rightarrow> double" where "fmul x y = rnd53 (x * y)"
definition fdiv :: "double \<Rightarrow> double \<Rightarrow> double" where "fdiv x y = rnd53 (x / y)"

text \<open>Conversion from an integer, and the truncating conversion back.\<close>

definition of_integer :: "int \<Rightarrow> double" where "of_integer i = rnd53 (of_int i)"
definition to_integer :: "double \<Rightarrow> int" where "to_integer x = (if 0 \<le> x then \<lfloor>x\<rfloor> else - \<lfloor>- x\<rfloor>)"

subsection \<open>Integers closest to a rational\<close>

lemma round_even_bounds: "of_int (round_even x) - x \<le> 1/2" "x - of_int (round_even x) \<le> 1/2"
  using floor_correct [of x] unfolding round_even_def Let_def by (simp_all split: if_split, linarith+)

lemma round_even_of_int [simp]: "round_even (of_int i) = i"
  by (simp add: round_even_def)

lemma round_even_mono:
  assumes "x \<le> y"
  shows "round_even x \<le> round_even y"
proof (cases "\<lfloor>x\<rfloor> = \<lfloor>y\<rfloor>")
  case True
  then show ?thesis using assms by (auto simp: round_even_def Let_def)
next
  case False
  then have "\<lfloor>x\<rfloor> + 1 \<le> \<lfloor>y\<rfloor>" using floor_mono [OF assms] by simp
  moreover have "round_even x \<le> \<lfloor>x\<rfloor> + 1" "\<lfloor>y\<rfloor> \<le> round_even y"
    by (auto simp: round_even_def Let_def)
  ultimately show ?thesis by linarith
qed

subsection \<open>Powers and exponents\<close>

lemma pow2_pos [simp]: "0 < pow2 e" "pow2 e \<noteq> 0"
  by (simp_all add: pow2_def)

lemma pow2_powi: "pow2 e = 2 powi e"
  by (simp add: pow2_def power_int_def inverse_eq_divide power_one_over)

lemma pow2_add: "pow2 (a + b) = pow2 a * pow2 b"
  by (simp add: pow2_powi power_int_add)

lemma pow2_less: "a < b \<Longrightarrow> pow2 a < pow2 b"
  by (simp add: pow2_powi power_int_strict_increasing)

lemma pow2_le_iff [simp]: "pow2 a \<le> pow2 b \<longleftrightarrow> a \<le> b"
  using pow2_less [of a b] pow2_less [of b a] by (cases a b rule: linorder_cases) auto

lemma pow2_less_iff [simp]: "pow2 a < pow2 b \<longleftrightarrow> a < b"
  by (simp flip: not_le)

lemma pow2_nat: "0 \<le> e \<Longrightarrow> pow2 e = of_int (2 ^ nat e)"
  by (simp add: pow2_def)

lemma pow2_bitlen:
  assumes "n > 0"
  shows "pow2 (bitlen n - 1) \<le> of_int n" "of_int n < pow2 (bitlen n)"
proof -
  have b: "1 \<le> bitlen n" using assms bitlen_eq_zero_iff [of n] bitlen_nonneg [of n] by linarith
  then have "pow2 (bitlen n - 1) = of_int (2 ^ nat (bitlen n - 1))" "pow2 (bitlen n) = of_int (2 ^ nat (bitlen n))"
    by (simp_all only: pow2_nat)
  then show "pow2 (bitlen n - 1) \<le> of_int n" "of_int n < pow2 (bitlen n)"
    using bitlen_bounds [OF assms] by (simp_all only: of_int_le_iff of_int_less_iff)
qed

lemma exponent_bounds:
  assumes "0 < x"
  shows "pow2 (exponent x) \<le> x" "x < pow2 (exponent x + 1)"
proof -
  obtain n d where q: "quotient_of x = (n, d)" by (cases "quotient_of x")
  have d: "d > 0" using quotient_of_denom_pos [OF q] .
  have x: "x = of_int n / of_int d" using quotient_of_div [OF q] .
  have n: "n > 0" using assms d by (simp add: x zero_less_divide_iff)
  define e where "e = bitlen n - bitlen d"
  have "pow2 (bitlen n) = pow2 (e + 1) * pow2 (bitlen d - 1)" "pow2 (bitlen n - 1) = pow2 (e - 1) * pow2 (bitlen d)"
    by (simp_all add: e_def flip: pow2_add)
  moreover have "pow2 (e + 1) * pow2 (bitlen d - 1) \<le> pow2 (e + 1) * of_int d"
    using pow2_bitlen(1) [OF d] by (intro mult_left_mono) (simp_all add: less_imp_le)
  moreover have "pow2 (e - 1) * of_int d < pow2 (e - 1) * pow2 (bitlen d)"
    using pow2_bitlen(2) [OF d] by (intro mult_strict_left_mono) simp_all
  ultimately have "of_int n < pow2 (e + 1) * of_int d" "pow2 (e - 1) * of_int d < of_int n"
    using pow2_bitlen [OF n] by linarith+
  then have "x < pow2 (e + 1)" "pow2 (e - 1) < x"
    using d by (simp_all add: x field_simps)
  moreover have "exponent x = (if pow2 e \<le> x then e else e - 1)"
    by (simp add: exponent_def q e_def)
  ultimately show "pow2 (exponent x) \<le> x" "x < pow2 (exponent x + 1)" by auto
qed

lemma exponent_unique:
  assumes "pow2 e \<le> x" "x < pow2 (e + 1)"
  shows "exponent x = e"
proof -
  have "0 < x" using assms(1) pow2_pos(1) [of e] by linarith
  from exponent_bounds [OF this] assms have "pow2 (exponent x) < pow2 (e + 1)" "pow2 e < pow2 (exponent x + 1)"
    by linarith+
  then show ?thesis by simp
qed

lemma exponent_mono: "0 < x \<Longrightarrow> x \<le> y \<Longrightarrow> exponent x \<le> exponent y"
  using exponent_bounds [of x] exponent_bounds [of y] pow2_less_iff [of "exponent x" "exponent y + 1"]
  by linarith

lemma pow2_scale:
  "of_int (2 ^ 52) * pow2 (e - 52) = pow2 e" "of_int (2 ^ 53) * pow2 (e - 52) = pow2 (e + 1)"
proof -
  have "of_int (2 ^ nat 52) * pow2 (e - 52) = pow2 (52 + (e - 52))" "of_int (2 ^ nat 53) * pow2 (e - 52) = pow2 (53 + (e - 52))"
    by (simp_all only: pow2_add pow2_nat [symmetric] zero_le_numeral)
  moreover have "52 + (e - 52) = e" "53 + (e - 52) = e + 1" "nat 52 = 52" "nat 53 = 53" by simp_all
  ultimately show "of_int (2 ^ 52) * pow2 (e - 52) = pow2 e" "of_int (2 ^ 53) * pow2 (e - 52) = pow2 (e + 1)"
    by (simp_all only:)
qed

subsection \<open>Error, exactness and monotonicity\<close>

lemma rnd53_pos: "0 < x \<Longrightarrow> rnd53 x = of_int (round_even (x / pow2 (exponent x - 52))) * pow2 (exponent x - 52)"
  by (simp add: rnd53_def Let_def)

lemma rnd53_0 [simp]: "rnd53 0 = 0"
  by (simp add: rnd53_def)

text \<open>The relative error of one rounding is at most \<open>1 / 2 ^ 53\<close>.\<close>

lemma rnd53_error:
  assumes "0 \<le> x"
  shows "\<bar>rnd53 x - x\<bar> \<le> x / 2 ^ 53"
proof (cases "x = 0")
  case False
  with assms have x: "0 < x" by simp
  define u where "u = pow2 (exponent x - 52)"
  have u: "0 < u" "rnd53 x = of_int (round_even (x / u)) * u" using rnd53_pos [OF x] by (simp_all add: u_def)
  have "\<bar>of_int (round_even (x / u)) - x / u\<bar> \<le> 1 / 2" using round_even_bounds [of "x / u"] by linarith
  then have "\<bar>of_int (round_even (x / u)) - x / u\<bar> * u \<le> 1 / 2 * u" by (rule mult_right_mono) (use u in simp)
  moreover have "\<bar>of_int (round_even (x / u)) - x / u\<bar> * u = \<bar>(of_int (round_even (x / u)) - x / u) * u\<bar>"
    using u(1) by (simp add: abs_mult)
  moreover have "(of_int (round_even (x / u)) - x / u) * u = rnd53 x - x"
    using u by (simp add: left_diff_distrib)
  moreover have "of_int (2 ^ 52) * u = pow2 (exponent x)" by (simp only: u_def pow2_scale)
  ultimately show ?thesis using exponent_bounds(1) [OF x] by simp
qed simp

lemma rnd53_exact:
  assumes "0 < x" "x = of_int m * pow2 (exponent x - 52)"
  shows "rnd53 x = x"
proof -
  have "x / pow2 (exponent x - 52) = of_int m" using assms(2) by (simp add: divide_eq_eq)
  then show ?thesis using rnd53_pos [OF assms(1)] assms(2) by simp
qed

lemma rnd53_int:
  assumes "0 \<le> i" "i < 2 ^ 53"
  shows "rnd53 (of_int i) = of_int i"
proof (cases "i = 0")
  case False
  with assms(1) have x: "0 < (of_int i :: rat)" by simp
  define e where "e = exponent (of_int i)"
  have "(of_int i :: rat) < of_int (2 ^ nat 53)" using assms(2) by (simp only: of_int_less_iff) simp
  then have "(of_int i :: rat) < pow2 53" by (simp only: pow2_nat zero_le_numeral)
  with exponent_bounds(1) [OF x] have "pow2 e < pow2 53" by (simp only: e_def)
  then have e: "0 \<le> 52 - e" by (simp only: pow2_less_iff)
  have "pow2 (52 - e) * pow2 (e - 52) = pow2 0" by (simp only: pow2_add [symmetric]) simp
  then have "of_int (2 ^ nat (52 - e)) * pow2 (e - 52) = 1" by (simp only: pow2_nat [OF e]) (simp add: pow2_def)
  then have "of_int i = of_int (i * 2 ^ nat (52 - e)) * pow2 (e - 52)"
    by (simp only: of_int_mult mult.assoc mult_1_right)
  then show ?thesis unfolding e_def by (rule rnd53_exact [OF x])
qed simp

lemma rnd53_binade:
  assumes "0 < x"
  shows "pow2 (exponent x) \<le> rnd53 x" "rnd53 x \<le> pow2 (exponent x + 1)"
proof -
  define u where "u = pow2 (exponent x - 52)"
  have u: "0 < u" "pow2 (exponent x) = of_int (2 ^ 52) * u" "pow2 (exponent x + 1) = of_int (2 ^ 53) * u"
    "rnd53 x = of_int (round_even (x / u)) * u"
    by (simp_all only: u_def pow2_pos pow2_scale rnd53_pos [OF assms])
  have "of_int (2 ^ 52) \<le> x / u" "x / u \<le> of_int (2 ^ 53)"
    using exponent_bounds [OF assms] u(1) unfolding u(2,3) by (simp_all only: pos_le_divide_eq pos_divide_le_eq less_imp_le)
  from this [THEN round_even_mono] have "2 ^ 52 \<le> round_even (x / u)" "round_even (x / u) \<le> 2 ^ 53"
    by (simp_all only: round_even_of_int)
  then show "pow2 (exponent x) \<le> rnd53 x" "rnd53 x \<le> pow2 (exponent x + 1)"
    unfolding u(2-4) using u(1) by (simp_all only: mult_le_cancel_right_pos of_int_le_iff)
qed

lemma rnd53_nonneg: "0 \<le> x \<Longrightarrow> 0 \<le> rnd53 x"
  using rnd53_binade(1) [of x] pow2_pos(1) [of "exponent x"] by (cases "x = 0") (auto simp del: pow2_pos)

lemma rnd53_mono:
  assumes "0 \<le> x" "x \<le> y"
  shows "rnd53 x \<le> rnd53 y"
proof (cases "x = 0")
  case True
  then show ?thesis using rnd53_nonneg [of y] assms by simp
next
  case False
  with assms have pos: "0 < x" "0 < y" by simp_all
  show ?thesis
  proof (cases "exponent x = exponent y")
    case True
    have "round_even (x / pow2 (exponent y - 52)) \<le> round_even (y / pow2 (exponent y - 52))"
      using assms(2) by (intro round_even_mono divide_right_mono) (simp_all add: less_imp_le)
    then show ?thesis unfolding rnd53_pos [OF pos(1)] rnd53_pos [OF pos(2)] True
      by (intro mult_right_mono) (simp_all add: less_imp_le)
  next
    case False
    then have "exponent x + 1 \<le> exponent y" using exponent_mono [OF pos(1) assms(2)] by simp
    then have "pow2 (exponent x + 1) \<le> pow2 (exponent y)" by (simp only: pow2_le_iff)
    then show ?thesis using rnd53_binade(2) [OF pos(1)] rnd53_binade(1) [OF pos(2)] by linarith
  qed
qed

text \<open>A value just below an integer rounds to it.\<close>

lemma round_even_near: "x \<le> of_int m \<Longrightarrow> of_int m - x < 1/2 \<Longrightarrow> round_even x = m"
proof (cases "x = of_int m")
  case False
  assume "x \<le> of_int m" "of_int m - x < 1/2"
  with False have "\<lfloor>x\<rfloor> = m - 1" by (simp add: floor_eq_iff)
  with \<open>of_int m - x < 1/2\<close> show ?thesis by (simp add: round_even_def Let_def)
qed simp

lemma rnd53_near_int:
  assumes "0 < x" "x \<le> of_int k" "k < 2 ^ 53" "of_int k - x \<le> x / 2 ^ 54"
  shows "rnd53 x = of_int k"
proof -
  define e u where "e = exponent x" and "u = pow2 (e - 52)"
  have u: "0 < u" by (simp add: u_def)
  have "(of_int k :: rat) < of_int (2 ^ nat 53)" using assms(3) by (simp only: of_int_less_iff) simp
  then have "(of_int k :: rat) < pow2 53" by (simp only: pow2_nat zero_le_numeral)
  with exponent_bounds(1) [OF assms(1)] assms(2) have "pow2 e < pow2 53" unfolding e_def by linarith
  then have e: "0 \<le> 52 - e" by (simp only: pow2_less_iff)
  have "pow2 (52 - e) * u = pow2 0" by (simp only: u_def pow2_add [symmetric]) simp
  then have one: "of_int (2 ^ nat (52 - e)) * u = 1" by (simp only: pow2_nat [OF e]) (simp add: pow2_def)
  have k: "of_int (k * 2 ^ nat (52 - e)) * u = of_int k"
    by (simp only: of_int_mult mult.assoc one mult_1_right)
  have "x < of_int (2 ^ 53) * u" using exponent_bounds(2) [OF assms(1)] by (simp only: u_def pow2_scale e_def)
  then have close: "of_int k - x < u / 2" using assms(4) by simp
  have "round_even (x / u) = k * 2 ^ nat (52 - e)"
  proof (rule round_even_near)
    show "x / u \<le> of_int (k * 2 ^ nat (52 - e))"
      using assms(2) unfolding pos_divide_le_eq [OF u] k .
    have "(of_int (k * 2 ^ nat (52 - e)) - x / u) * u = of_int k - x"
      using u k by (simp add: left_diff_distrib)
    also have "\<dots> < 1 / 2 * u" using close by simp
    finally show "of_int (k * 2 ^ nat (52 - e)) - x / u < 1 / 2"
      using u by (simp only: mult_less_cancel_right_pos)
  qed
  then show ?thesis using rnd53_pos [OF assms(1)] k by (simp only: e_def u_def)
qed

end
