(* ===== verification/Stats.thy ===== *)
theory Stats
  imports FK_Prelude Binary64 "HOL-Library.Multiset"
begin

text \<open>
  The statistics of a channel (\<^verbatim>\<open>include/reactor.hpp\<close>,
  \<^verbatim>\<open>src/reactor.cpp\<close>): topic priorities, the sliding window of latency samples,
  and the average and percentiles \<^verbatim>\<open>get_critical_stats\<close>,
  \<^verbatim>\<open>get_normal_stats\<close> and \<^verbatim>\<open>get_background_stats\<close> compute from it
  in \<^verbatim>\<open>double\<close> arithmetic.
\<close>

subsection \<open>Priorities\<close>

datatype TopicPriority = CRITICAL | NORMAL | BACKGROUND

text \<open>The Zenoh priority numbers behind the enumeration; a smaller number is more urgent.\<close>

fun priority_value :: "TopicPriority \<Rightarrow> u8" where
  "priority_value CRITICAL = 2"
| "priority_value NORMAL = 5"
| "priority_value BACKGROUND = 7"

instantiation TopicPriority :: linorder
begin

definition less_eq_TopicPriority :: "TopicPriority \<Rightarrow> TopicPriority \<Rightarrow> bool" where
  "less_eq_TopicPriority p q \<longleftrightarrow> priority_value p \<le> priority_value q"

definition less_TopicPriority :: "TopicPriority \<Rightarrow> TopicPriority \<Rightarrow> bool" where
  "less_TopicPriority p q \<longleftrightarrow> priority_value p < priority_value q"

instance
proof
  fix p q :: TopicPriority
  show "p \<le> q \<Longrightarrow> q \<le> p \<Longrightarrow> p = q"
    by (cases p; cases q) (simp_all add: less_eq_TopicPriority_def)
qed (auto simp: less_eq_TopicPriority_def less_TopicPriority_def)

end

subsection \<open>Latency samples\<close>

text \<open>
  \<^verbatim>\<open>duration<double, std::micro>(now - since).count()\<close>: the nanosecond difference
  becomes a double and is divided by 1000.
\<close>

definition latency_us :: "int \<Rightarrow> int \<Rightarrow> double" where
  "latency_us now since = fdiv (of_integer (now - since)) 1000"

definition LATENCY_WINDOW_SIZE :: nat where "LATENCY_WINDOW_SIZE = 1000"

text \<open>\<^verbatim>\<open>push_back\<close>, then \<^verbatim>\<open>pop_front\<close> when the window is too long.\<close>

definition window_push :: "double list \<Rightarrow> double \<Rightarrow> double list" where
  "window_push lats x =
     (let l = lats @ [x] in if length l > LATENCY_WINDOW_SIZE then tl l else l)"

subsection \<open>Channel statistics\<close>

record ChannelStats =
  processed :: u64
  dropped_frames_count :: u64
  avg_latency_us :: double
  p95_latency_us :: double
  p99_latency_us :: double

definition lit_0_95 :: double where "lit_0_95 = rnd53 (95 / 100)"
definition lit_0_99 :: double where "lit_0_99 = rnd53 (99 / 100)"

text \<open>\<^verbatim>\<open>static_cast<size_t>(sorted.size() * q)\<close>\<close>

definition quantile_index :: "nat \<Rightarrow> double \<Rightarrow> nat" where
  "quantile_index n q = nat (to_integer (fmul (of_integer (int n)) q))"

definition accumulate :: "double list \<Rightarrow> double" where
  "accumulate xs = foldl fadd 0 xs"

definition channel_stats :: "u64 \<Rightarrow> u64 \<Rightarrow> double list \<Rightarrow> ChannelStats" where
  "channel_stats proc drops lats =
     (let st = \<lparr>processed = proc, dropped_frames_count = drops,
                avg_latency_us = 0, p95_latency_us = 0, p99_latency_us = 0\<rparr>
      in if lats = [] then st
         else let sorted = sort lats;
                  n = length sorted;
                  p95_idx = quantile_index n lit_0_95;
                  p99_idx = quantile_index n lit_0_99
              in st\<lparr>avg_latency_us := fdiv (accumulate sorted) (of_integer (int n)),
                    p95_latency_us := sorted ! min p95_idx (n - 1),
                    p99_latency_us := sorted ! min p99_idx (n - 1)\<rparr>)"

subsection \<open>The window\<close>

lemma window_push_length: "length lats \<le> LATENCY_WINDOW_SIZE \<Longrightarrow> length (window_push lats x) \<le> LATENCY_WINDOW_SIZE"
  by (simp add: window_push_def Let_def)

lemma fold_window_push:
  assumes "length w \<le> LATENCY_WINDOW_SIZE"
  shows "foldl window_push w xs = drop (length (w @ xs) - LATENCY_WINDOW_SIZE) (w @ xs)"
  using assms
proof (induction xs rule: rev_induct)
  case (snoc x xs)
  have size: "LATENCY_WINDOW_SIZE = 1000" by (rule LATENCY_WINDOW_SIZE_def)
  define l where "l = w @ xs"
  have "window_push (drop (length l - LATENCY_WINDOW_SIZE) l) x =
        drop (length (l @ [x]) - LATENCY_WINDOW_SIZE) (l @ [x])"
  proof (cases "length l < LATENCY_WINDOW_SIZE")
    case True
    then show ?thesis by (simp add: window_push_def Let_def)
  next
    case False
    then have "drop (length l - LATENCY_WINDOW_SIZE) l \<noteq> []" using size by simp
    then show ?thesis using False size by (simp add: window_push_def Let_def tl_drop Suc_diff_le flip: drop_Suc)
  qed
  then show ?case using snoc by (simp add: l_def)
qed simp

subsection \<open>Percentile positions\<close>

lemma lit_values [code_unfold]: "lit_0_95 = 4278419646001971 / 2 ^ 52" "lit_0_99 = 4458563631096791 / 2 ^ 52"
  by code_simp+

lemma to_integer_nonneg: "0 \<le> x \<Longrightarrow> to_integer x = \<lfloor>x\<rfloor>"
  by (simp add: to_integer_def)

text \<open>Rounding does not cross an integer that is farther away than the relative error.\<close>

lemma floor_rnd53:
  assumes "0 \<le> k" "k < 2 ^ 53" "of_int k \<le> x" "x + x / 2 ^ 53 < of_int k + 1"
  shows "\<lfloor>rnd53 x\<rfloor> = k"
proof -
  have "0 \<le> x" using assms(1,3) by (meson of_int_0_le_iff order_trans)
  then have "rnd53 x < of_int k + 1" using rnd53_error [of x] assms(4) by linarith
  moreover have "of_int k \<le> rnd53 x"
    using rnd53_mono [OF _ assms(3)] rnd53_int [OF assms(1,2)] assms(1) by simp
  ultimately show ?thesis by (simp add: floor_eq_iff)
qed

lemma quantile_index_floor:
  assumes "n \<le> 1000" "0 \<le> q"
  shows "quantile_index n q = nat \<lfloor>rnd53 (of_int (int n) * q)\<rfloor>"
proof -
  have "of_integer (int n) = of_int (int n)" unfolding of_integer_def using assms(1) by (intro rnd53_int) auto
  moreover have "0 \<le> rnd53 (of_int (int n) * q)" using assms(2) by (intro rnd53_nonneg) simp
  ultimately show ?thesis by (simp only: quantile_index_def fmul_def to_integer_nonneg)
qed

text \<open>
  For every window size up to 1000 the double product truncates to the exact quotient:
  when it is an integer the product rounds to it, otherwise the error is too small to
  reach the next one. The factor \<open>c\<close> is the double just below \<open>a / b\<close>.
\<close>

lemma floor_scaled:
  fixes c :: rat and a b n :: nat
  assumes "0 < b" "b \<le> 100" "a \<le> b" "0 < c" "c \<le> of_nat a / of_nat b"
    and "of_nat a / of_nat b - c \<le> c / 2 ^ 54" and "n \<le> 1000"
  shows "\<lfloor>rnd53 (of_nat n * c)\<rfloor> = int (a * n div b)"
proof -
  define x y where "x = of_nat n * c" and "y = of_nat n * (of_nat a / of_nat b :: rat)"
  define k r where "k = int (a * n div b)" and "r = a * n mod b"
  have xy: "0 \<le> x" "x \<le> y" unfolding x_def y_def using assms(4,5) by (auto intro!: mult_left_mono simp del: times_divide_eq_right)
  have "of_nat n * (of_nat a / of_nat b - c) \<le> of_nat n * (c / 2 ^ 54)" using assms(6) by (rule mult_left_mono) simp
  then have near: "y - x \<le> x / 2 ^ 54" by (simp add: x_def y_def right_diff_distrib)
  have "a * n = b * (a * n div b) + r" by (simp add: r_def)
  then have "(of_nat (a * n) :: rat) = of_nat (b * (a * n div b) + r)" by (rule arg_cong)
  then have y: "y = of_int k + of_nat r / of_nat b"
    using assms(1) by (simp add: y_def k_def field_simps)
  have "a * n div b \<le> b * n div b" using assms(3) by (intro div_le_mono mult_le_mono1)
  then have "a * n div b \<le> 1000" using assms(1,7) by simp
  then have k: "0 \<le> k" "k < 2 ^ 53" "(of_int k :: rat) \<le> 1000" by (simp_all add: k_def)
  have "\<lfloor>rnd53 x\<rfloor> = k"
  proof (cases "r = 0")
    case True
    then have "y = of_int k" using y by simp
    then show ?thesis using rnd53_near_int [of x k] xy near k by (cases "x = 0") auto
  next
    case False
    have "r \<le> b - 1" using mod_less_divisor [OF assms(1), of "a * n"] by (simp add: r_def)
    then have "of_nat r \<le> (of_nat (b - 1) :: rat)" by (simp only: of_nat_le_iff)
    then have "of_nat r / of_nat b \<le> (1 - 1 / of_nat b :: rat)" using assms(1) by (simp add: field_simps of_nat_diff)
    moreover have frac: "1 / 100 \<le> (1 / of_nat b :: rat)" using assms(1,2) by (simp add: field_simps)
    moreover have "1 / of_nat b \<le> (of_nat r / of_nat b :: rat)" using False assms(1) by (simp add: divide_right_mono)
    ultimately have "of_int k + 1 / 100 \<le> y" "y \<le> of_int k + 1 - 1 / 100" using y by linarith+
    moreover from this have "y \<le> 1001" using k(3) by linarith
    moreover have "y - x \<le> x / 18014398509481984" using near by simp
    ultimately have "of_int k \<le> x" "x + x / 9007199254740992 < of_int k + 1" using xy by linarith+
    then show ?thesis using k by (intro floor_rnd53) simp_all
  qed
  then show ?thesis by (simp add: k_def x_def)
qed

lemma quantile_index_eq:
  assumes "n \<le> 1000"
  shows "quantile_index n lit_0_95 = 95 * n div 100" "quantile_index n lit_0_99 = 99 * n div 100"
  using quantile_index_floor [OF assms, of lit_0_95] quantile_index_floor [OF assms, of lit_0_99]
    floor_scaled [of 100 95 lit_0_95 n] floor_scaled [of 100 99 lit_0_99 n] assms
  by (simp_all add: lit_values)

subsection \<open>Order statistics\<close>

text \<open>The element at position \<open>i\<close> of the sorted list, by how many elements lie below it.\<close>

lemma sort_nth_rank:
  fixes l :: "'a :: linorder list"
  assumes "i < length l"
  shows "sort l ! i \<in> set l"
    "length (filter (\<lambda>x. x < sort l ! i) l) \<le> i" "i < length (filter (\<lambda>x. x \<le> sort l ! i) l)"
proof -
  let ?s = "sort l" and ?p = "sort l ! i"
  have len: "length (filter P l) = length (filter P ?s)" for P
    by (metis mset_filter mset_sort size_mset)
  show "?p \<in> set l" using nth_mem [of i ?s] assms by simp
  have le: "?s ! j \<le> ?p" if "j \<le> i" for j using that assms by (auto intro: sorted_nth_mono)
  have ge: "?p \<le> ?s ! j" if "i \<le> j" "j < length l" for j using that by (auto intro: sorted_nth_mono)
  have split: "length (filter P ?s) = length (filter P (take m ?s)) + length (filter P (drop m ?s))" for P m
    by (simp flip: filter_append length_append)
  have "filter (\<lambda>x. x \<le> ?p) (take (Suc i) ?s) = take (Suc i) ?s"
    using assms le by (auto simp: filter_id_conv in_set_conv_nth)
  then have "length (filter (\<lambda>x. x \<le> ?p) ?s) = Suc i + length (filter (\<lambda>x. x \<le> ?p) (drop (Suc i) ?s))"
    using assms by (subst split [of _ "Suc i"]) simp
  moreover have "filter (\<lambda>x. x < ?p) (drop i ?s) = []"
    using assms ge by (auto simp: filter_empty_conv in_set_conv_nth not_less)
  then have "length (filter (\<lambda>x. x < ?p) ?s) = length (filter (\<lambda>x. x < ?p) (take i ?s))"
    by (subst split [of _ i]) simp
  moreover have "length (filter (\<lambda>x. x < ?p) (take i ?s)) \<le> i"
    by (rule le_trans [OF length_filter_le]) simp
  ultimately show "length (filter (\<lambda>x. x < ?p) l) \<le> i" "i < length (filter (\<lambda>x. x \<le> ?p) l)"
    unfolding len by simp_all
qed

subsection \<open>Error of the average\<close>

definition eps :: rat where "eps = 1 / 2 ^ 53"

lemma eps_bounds: "0 < eps" "eps < 1"
  by (simp_all add: eps_def)

lemma rnd53_rel:
  assumes "0 \<le> x"
  shows "(1 - eps) * x \<le> rnd53 x" "rnd53 x \<le> (1 + eps) * x"
proof -
  have "\<bar>rnd53 x - x\<bar> \<le> eps * x" using rnd53_error [OF assms] by (simp add: eps_def)
  then have "rnd53 x - x \<le> eps * x" "x - rnd53 x \<le> eps * x" by linarith+
  then show "(1 - eps) * x \<le> rnd53 x" "rnd53 x \<le> (1 + eps) * x"
    by (simp_all add: left_diff_distrib distrib_right)
qed

lemma foldl_fadd_error:
  assumes "0 \<le> a" "\<forall>x \<in> set xs. 0 \<le> x"
  shows "(1 - eps) ^ length xs * (a + sum_list xs) \<le> foldl fadd a xs \<and>
         foldl fadd a xs \<le> (1 + eps) ^ length xs * (a + sum_list xs)"
  using assms
proof (induction xs arbitrary: a)
  case (Cons x xs)
  define b where "b = rnd53 (a + x)"
  have S: "0 \<le> sum_list xs" using Cons.prems(2) by (simp add: sum_list_nonneg)
  have ax: "0 \<le> a + x" using Cons.prems by simp
  have b: "0 \<le> b" "(1 - eps) * (a + x) \<le> b" "b \<le> (1 + eps) * (a + x)"
    using rnd53_rel [OF ax] rnd53_nonneg [OF ax] by (simp_all add: b_def)
  have "(1 - eps) * sum_list xs \<le> 1 * sum_list xs" "1 * sum_list xs \<le> (1 + eps) * sum_list xs"
    using S eps_bounds by (intro mult_right_mono; simp)+
  then have "(1 - eps) * (a + x + sum_list xs) \<le> b + sum_list xs" "b + sum_list xs \<le> (1 + eps) * (a + x + sum_list xs)"
    using b(2,3) by (simp_all add: distrib_left)
  then have "(1 - eps) ^ length xs * ((1 - eps) * (a + x + sum_list xs)) \<le> (1 - eps) ^ length xs * (b + sum_list xs)"
    "(1 + eps) ^ length xs * (b + sum_list xs) \<le> (1 + eps) ^ length xs * ((1 + eps) * (a + x + sum_list xs))"
    using eps_bounds by (intro mult_left_mono; simp)+
  moreover have "foldl fadd a (x # xs) = foldl fadd b xs" by (simp add: fadd_def b_def)
  moreover note Cons.IH [OF b(1)] Cons.prems(2)
  ultimately show ?case by (simp add: mult.assoc mult.left_commute add.assoc)
qed simp

lemma accumulate_error:
  assumes "\<forall>x \<in> set xs. 0 \<le> x"
  shows "(1 - eps) ^ length xs * sum_list xs \<le> accumulate xs" "accumulate xs \<le> (1 + eps) ^ length xs * sum_list xs"
    "0 \<le> accumulate xs"
proof -
  show b: "(1 - eps) ^ length xs * sum_list xs \<le> accumulate xs" "accumulate xs \<le> (1 + eps) ^ length xs * sum_list xs"
    using foldl_fadd_error [of 0 xs] assms by (simp_all add: accumulate_def)
  have "0 \<le> (1 - eps) ^ length xs * sum_list xs"
    using eps_bounds assms by (simp add: sum_list_nonneg)
  then show "0 \<le> accumulate xs" using b(1) by linarith
qed

lemma latency_nonneg: "since \<le> now \<Longrightarrow> 0 \<le> latency_us now since"
  by (simp add: latency_us_def fdiv_def of_integer_def rnd53_nonneg)

subsection \<open>Properties\<close>

text \<open>
  The truncated double products \<^verbatim>\<open>size * 0.95\<close> and \<^verbatim>\<open>size * 0.99\<close> are the
  exact integer quotients for every window size, and they are positions inside the window,
  so the \<^verbatim>\<open>std::min\<close> that follows never changes them.
\<close>

theorem percentile_positions:
  assumes "0 < n" "n \<le> LATENCY_WINDOW_SIZE"
  shows "quantile_index n lit_0_95 = 95 * n div 100 \<and> quantile_index n lit_0_99 = 99 * n div 100 \<and>
         min (quantile_index n lit_0_95) (n - 1) = quantile_index n lit_0_95 \<and>
         min (quantile_index n lit_0_99) (n - 1) = quantile_index n lit_0_99"
proof -
  have "n \<le> 1000" using assms(2) by (simp add: LATENCY_WINDOW_SIZE_def)
  from quantile_index_eq [OF this] show ?thesis using assms(1) by (simp add: min_def)
qed

theorem percentile_positions_witness:
  "quantile_index 1000 lit_0_95 = 950 \<and> quantile_index 1000 lit_0_99 = 990"
  using percentile_positions [of 1000] by (simp add: LATENCY_WINDOW_SIZE_def)

text \<open>
  C29. The percentiles are order statistics of the window: P95 and P99 are samples of it, at
  most 95 (99) percent of the samples lie strictly below and more than that share at or
  below, and P95 does not exceed P99.
\<close>

theorem channel_stats_percentiles:
  assumes "lats \<noteq> []" "length lats \<le> LATENCY_WINDOW_SIZE"
    and st_def: "st = channel_stats proc drops lats" and n_def: "n = length lats"
  shows "p95_latency_us st \<in> set lats \<and> p99_latency_us st \<in> set lats \<and>
         100 * length (filter (\<lambda>x. x < p95_latency_us st) lats) \<le> 95 * n \<and>
         95 * n < 100 * length (filter (\<lambda>x. x \<le> p95_latency_us st) lats) \<and>
         100 * length (filter (\<lambda>x. x < p99_latency_us st) lats) \<le> 99 * n \<and>
         99 * n < 100 * length (filter (\<lambda>x. x \<le> p99_latency_us st) lats) \<and>
         p95_latency_us st \<le> p99_latency_us st"
proof -
  have n: "0 < n" "n \<le> 1000" using assms(1,2) by (simp_all add: n_def LATENCY_WINDOW_SIZE_def)
  have i: "95 * n div 100 < n" "99 * n div 100 < n" using n(1) by simp_all
  have p: "p95_latency_us st = sort lats ! (95 * n div 100)" "p99_latency_us st = sort lats ! (99 * n div 100)"
    using i assms(1) by (simp_all add: st_def channel_stats_def Let_def min_def quantile_index_eq [OF n(2), unfolded n_def] n_def)
  have "95 * n div 100 \<le> 99 * n div 100" by (intro div_le_mono) simp
  then have "p95_latency_us st \<le> p99_latency_us st"
    unfolding p using i by (intro sorted_nth_mono) (simp_all add: n_def)
  moreover have "100 * l \<le> m * n" if "l \<le> m * n div 100" for l m
    using that by (simp add: less_eq_div_iff_mult_less_eq mult.commute)
  moreover have "m * n < 100 * l" if "m * n div 100 < l" for l m
    using that by (simp add: div_less_iff_less_mult mult.commute)
  ultimately show ?thesis
    using sort_nth_rank [of "95 * n div 100" lats] sort_nth_rank [of "99 * n div 100" lats] i
    unfolding p by (simp add: n_def)
qed

theorem channel_stats_percentiles_witness:
  "p95_latency_us (channel_stats 3 0 [7, 1, 5]) \<in> {7, 1, 5}"
  using channel_stats_percentiles [of "[7, 1, 5]" "channel_stats 3 0 [7, 1, 5]" 3 0 3] by (simp add: LATENCY_WINDOW_SIZE_def)

text \<open>
  The reported average is the exact mean of the window up to the rounding of the
  additions and the division: a relative error of at most one unit in \<open>2 ^ 53\<close> for each.
\<close>

theorem channel_stats_average:
  assumes "lats \<noteq> []" "length lats \<le> LATENCY_WINDOW_SIZE" "\<forall>x \<in> set lats. 0 \<le> x"
  shows "(1 - eps) ^ Suc (length lats) * (sum_list lats / of_nat (length lats)) \<le> avg_latency_us (channel_stats proc drops lats) \<and>
         avg_latency_us (channel_stats proc drops lats) \<le> (1 + eps) ^ Suc (length lats) * (sum_list lats / of_nat (length lats))"
proof -
  define n where "n = length lats"
  have n: "0 < n" "n \<le> 1000" using assms(1,2) by (simp_all add: n_def LATENCY_WINDOW_SIZE_def)
  have size: "of_integer (int n) = of_nat n"
    using rnd53_int [of "int n"] n by (simp add: of_integer_def)
  have sorted: "length (sort lats) = n" "sum_list (sort lats) = sum_list lats" "\<forall>x \<in> set (sort lats). 0 \<le> x"
    using assms(3) by (simp_all add: n_def flip: sum_mset_sum_list)
  define m where "m = accumulate (sort lats) / of_nat n"
  have m: "(1 - eps) ^ n * (sum_list lats / of_nat n) \<le> m" "m \<le> (1 + eps) ^ n * (sum_list lats / of_nat n)" "0 \<le> m"
    using accumulate_error [OF sorted(3)] n(1) unfolding sorted m_def by (simp_all add: divide_right_mono)
  have "(1 - eps) * ((1 - eps) ^ n * (sum_list lats / of_nat n)) \<le> (1 - eps) * m"
    "(1 + eps) * m \<le> (1 + eps) * ((1 + eps) ^ n * (sum_list lats / of_nat n))"
    using m eps_bounds by (intro mult_left_mono; simp)+
  moreover have "avg_latency_us (channel_stats proc drops lats) = rnd53 m"
    using assms(1) size by (simp add: channel_stats_def Let_def fdiv_def m_def n_def)
  moreover note rnd53_rel [OF m(3)]
  ultimately show ?thesis by (simp add: n_def mult.assoc)
qed

theorem channel_stats_average_witness:
  "(1 - eps) ^ 3 * (7 / 2) \<le> avg_latency_us (channel_stats 2 0 [2, 5]) \<and>
   avg_latency_us (channel_stats 2 0 [2, 5]) \<le> (1 + eps) ^ 3 * (7 / 2)"
  using channel_stats_average [of "[2, 5]" 2 0] by (simp add: LATENCY_WINDOW_SIZE_def eval_nat_numeral)

end
