(* ===== verification/Sessions.thy ===== *)
theory Sessions
  imports FK_Prelude
begin

text \<open>
  Session tracking (\<^verbatim>\<open>src/reactor.cpp\<close>): the robot id cut out of the key
  expression of a received sample, the map from robot id to the time of its last sample,
  and the list \<^verbatim>\<open>get_sessions\<close> derives from it.
\<close>

subsection \<open>The robot id\<close>

text \<open>\<^verbatim>\<open>string_view::find(c, pos)\<close>; \<open>None\<close> is \<^verbatim>\<open>npos\<close>.\<close>

fun index_of_char :: "char \<Rightarrow> string \<Rightarrow> nat option" where
  "index_of_char c [] = None"
| "index_of_char c (x # xs) = (if x = c then Some 0 else map_option Suc (index_of_char c xs))"

definition sv_find :: "char \<Rightarrow> nat \<Rightarrow> string \<Rightarrow> nat option" where
  "sv_find c pos s = (if pos < length s then map_option (\<lambda>i. pos + i) (index_of_char c (drop pos s)) else None)"

text \<open>
  The block of \<^verbatim>\<open>zenoh_data_callback\<close> that turns \<^verbatim>\<open>"robot/<id>/..."\<close> into
  \<^verbatim>\<open>"robot/<id>"\<close>: everything before the first slash from position 6 on.
\<close>

definition robot_id_of :: "string \<Rightarrow> string option" where
  "robot_id_of key_sv =
     (if length key_sv > 0
      then (case sv_find CHR ''/'' 6 key_sv of
              None \<Rightarrow> None
            | Some second_slash \<Rightarrow> Some (take second_slash key_sv))
      else None)"

subsection \<open>The session map\<close>

text \<open>\<^verbatim>\<open>duration_cast<milliseconds>\<close> of a nanosecond count rounds towards zero.\<close>

definition to_ms :: "int \<Rightarrow> int" where
  "to_ms ns = (if 0 \<le> ns then ns div 1000000 else - (- ns div 1000000))"

type_synonym session_map = "string \<rightharpoonup> u64"

definition touch_session :: "string \<Rightarrow> int \<Rightarrow> session_map \<Rightarrow> session_map" where
  "touch_session robot_id now m = m(robot_id \<mapsto> of_int (to_ms now))"

record SessionInfo =
  robot_id :: string
  online :: bool
  last_seen_ms :: u64

definition session_info :: "int \<Rightarrow> string \<Rightarrow> u64 \<Rightarrow> SessionInfo" where
  "session_info now rid last_seen =
     (let age = of_int (to_ms now) - last_seen
      in \<lparr>robot_id = rid, online = age < 5000, last_seen_ms = age\<rparr>)"

text \<open>\<open>ord\<close> is the iteration order of the unordered map.\<close>

definition get_sessions :: "string list \<Rightarrow> int \<Rightarrow> session_map \<Rightarrow> SessionInfo list" where
  "get_sessions ord now m =
     List.map_filter (\<lambda>rid. map_option (session_info now rid) (m rid)) ord"

subsection \<open>Lemmas\<close>

lemma index_of_char_append:
  "c \<notin> set xs \<Longrightarrow> index_of_char c (xs @ c # ys) = Some (length xs)"
  by (induction xs) auto

lemma index_of_char_None [simp]: "index_of_char c xs = None \<longleftrightarrow> c \<notin> set xs"
  by (induction xs) auto

lemma index_of_char_Some:
  "index_of_char c xs = Some i \<Longrightarrow> i < length xs \<and> xs ! i = c \<and> c \<notin> set (take i xs)"
  by (induction xs arbitrary: i) (auto split: if_splits)

lemma sv_find_Some:
  assumes "sv_find c pos s = Some i"
  shows "pos \<le> i" "i < length s" "s ! i = c" "c \<notin> set (drop pos (take i s))"
proof -
  from assms obtain j where j: "index_of_char c (drop pos s) = Some j" "i = pos + j" "pos < length s"
    by (auto simp: sv_find_def split: if_splits)
  with index_of_char_Some [OF j(1)] show "pos \<le> i" "i < length s" "s ! i = c" by auto
  have "drop pos (take i s) = take j (drop pos s)" using j(2) by (simp add: drop_take)
  then show "c \<notin> set (drop pos (take i s))" using index_of_char_Some [OF j(1)] by simp
qed

lemma to_ms_mono: "a \<le> b \<Longrightarrow> to_ms a \<le> to_ms b"
proof (cases "0 \<le> a \<or> b < 0")
  case True
  assume "a \<le> b"
  with True show ?thesis by (auto simp: to_ms_def intro: zdiv_mono1)
next
  case False
  assume "a \<le> b"
  with False have "0 \<le> - a div 1000000" "0 \<le> b div 1000000" by (simp_all add: pos_imp_zdiv_nonneg_iff)
  then show ?thesis using False by (simp add: to_ms_def)
qed

lemma map_filter_distinct_singleton:
  assumes "distinct xs" "x \<in> set xs"
  shows "filter (\<lambda>y. y = x) xs = [x]"
  using assms by (induction xs) (auto simp: filter_empty_conv)

lemma u64_diff_small:
  assumes "0 \<le> a" "a \<le> b" "b < 2 ^ 63"
  shows "(of_int b - of_int a :: u64) < 5000 \<longleftrightarrow> b - a < 5000" "uint (of_int b - of_int a :: u64) = b - a"
proof -
  have "uint (word_of_int (b - a) :: u64) = (b - a) mod 2 ^ 64" by (simp only: uint_word_of_int) simp
  also have "\<dots> = b - a" using assms by (intro mod_pos_pos_trivial) auto
  finally show u: "uint (of_int b - of_int a :: u64) = b - a" by (simp only: of_int_diff)
  then show "(of_int b - of_int a :: u64) < 5000 \<longleftrightarrow> b - a < 5000" by (simp only: word_less_def) simp
qed

subsection \<open>Properties\<close>

text \<open>
  Every sample of one robot under the default key scheme \<^verbatim>\<open>robot/<id>/...\<close> is
  booked to the same session, and two robots never share one.
\<close>

theorem robot_id_of_topic:
  assumes "CHR ''/'' \<notin> set rid" "CHR ''/'' \<notin> set rid'"
  shows "robot_id_of (''robot/'' @ rid @ ''/'' @ rest) = Some (''robot/'' @ rid) \<and>
         (robot_id_of (''robot/'' @ rid @ ''/'' @ rest) = robot_id_of (''robot/'' @ rid' @ ''/'' @ rest') \<longleftrightarrow> rid = rid')"
proof -
  have "robot_id_of (''robot/'' @ r @ ''/'' @ t) = Some (''robot/'' @ r)" if "CHR ''/'' \<notin> set r" for r t
    using index_of_char_append [OF that, of t] by (simp add: robot_id_of_def sv_find_def numeral_eq_Suc)
  with assms show ?thesis by simp
qed

theorem robot_id_of_topic_witness:
  "robot_id_of ''robot/r1/telemetry'' = Some ''robot/r1'' \<and> robot_id_of ''robot/r1/telemetry'' \<noteq> robot_id_of ''robot/r2/costmap''"
  using robot_id_of_topic [of "''r1''" "''r2''" "''telemetry''" "''costmap''"]
  by (simp only: append.simps) force

text \<open>
  For keys outside that scheme the fixed offset 6 shows: the id ends at the first slash
  from position 6 on and always covers at least six characters, so topics of one robot
  under a shorter prefix fall into different sessions or into none.
\<close>

theorem robot_id_offset:
  "(\<forall>key rid. robot_id_of key = Some rid \<longrightarrow>
       (\<exists>rest. key = rid @ CHR ''/'' # rest) \<and> 6 \<le> length rid \<and> CHR ''/'' \<notin> set (drop 6 rid)) \<and>
   robot_id_of ''uav/7/imu/raw'' = Some ''uav/7/imu'' \<and>
   robot_id_of ''uav/7/gps/fix'' = Some ''uav/7/gps'' \<and>
   robot_id_of ''uav/7/imu'' = None"
proof (intro conjI allI impI)
  fix key rid
  assume "robot_id_of key = Some rid"
  then obtain i where i: "sv_find CHR ''/'' 6 key = Some i" "rid = take i key"
    by (auto simp: robot_id_of_def split: if_splits option.splits)
  note f = sv_find_Some [OF i(1)]
  have "key = take i key @ CHR ''/'' # drop (Suc i) key" using id_take_nth_drop [OF f(2)] f(3) by simp
  then show "\<exists>rest. key = rid @ CHR ''/'' # rest" using i(2) by blast
  show "6 \<le> length rid" "CHR ''/'' \<notin> set (drop 6 rid)" using f i(2) by simp_all
qed code_simp+

theorem robot_id_offset_witness:
  "robot_id_of ''fleet/7/imu'' = Some ''fleet/7'' \<and> 6 \<le> length ''fleet/7''"
proof -
  have "robot_id_of ''fleet/7/imu'' = Some ''fleet/7''" by code_simp
  with robot_id_offset show ?thesis by blast
qed

text \<open>
  A robot is shown exactly once, with the milliseconds since its last sample, and as
  online exactly when fewer than 5000 have passed; a touch changes no other session. The
  monotonic clock (no reading before the previous one) excludes a wrapped age.
\<close>

theorem session_age:
  assumes "0 \<le> t1" "t1 \<le> t2" "t2 < 2 ^ 63" "distinct ord" "set ord = dom (touch_session rid t1 m)"
  shows "filter (\<lambda>s. robot_id s = rid) (get_sessions ord t2 (touch_session rid t1 m)) =
           [\<lparr>robot_id = rid, online = to_ms t2 - to_ms t1 < 5000, last_seen_ms = of_int (to_ms t2 - to_ms t1)\<rparr>] \<and>
         uint (of_int (to_ms t2 - to_ms t1) :: u64) = to_ms t2 - to_ms t1 \<and>
         (\<forall>rid'. rid' \<noteq> rid \<longrightarrow> touch_session rid t1 m rid' = m rid')"
proof -
  define m' where "m' = touch_session rid t1 m"
  have ms: "0 \<le> to_ms t1" "to_ms t1 \<le> to_ms t2" "to_ms t2 < 2 ^ 63"
    using assms(1-3) to_ms_mono [OF assms(2)] by (simp_all add: to_ms_def)
  have "filter (\<lambda>s. robot_id s = rid) (get_sessions xs t2 m') =
        List.map_filter (\<lambda>r. map_option (session_info t2 r) (m' r)) (filter (\<lambda>r. r = rid) xs)" for xs
    by (induction xs) (auto simp: get_sessions_def map_filter_simps session_info_def Let_def split: option.split)
  moreover have "filter (\<lambda>r. r = rid) ord = [rid]"
    using assms(4,5) by (intro map_filter_distinct_singleton) (auto simp: touch_session_def)
  moreover have "m' rid = Some (of_int (to_ms t1))" by (simp add: m'_def touch_session_def)
  moreover note u64_diff_small [OF ms]
  ultimately show ?thesis
    by (simp add: map_filter_simps session_info_def Let_def m'_def [symmetric])
       (simp add: m'_def touch_session_def)
qed

theorem session_age_witness:
  "filter (\<lambda>s. robot_id s = ''robot/r1'')
     (get_sessions [''robot/r1''] 7000000000 (touch_session ''robot/r1'' 1000000000 Map.empty)) =
   [\<lparr>robot_id = ''robot/r1'', online = False, last_seen_ms = 6000\<rparr>]"
  using session_age [of 1000000000 7000000000 "[''robot/r1'']" "''robot/r1''" Map.empty]
  by (simp add: touch_session_def to_ms_def)

end
