(* ===== verification/Reactor_Model.thy ===== *)
theory Reactor_Model
  imports Common_Hash MPSC_Queue Latest_Cache Stats Sessions
begin

text \<open>
  The reactor of \<^verbatim>\<open>include/reactor.hpp\<close> and \<^verbatim>\<open>src/reactor.cpp\<close>: its
  state, the two Zenoh callbacks, the event loop and the statistics. Code outside the
  repository (FlatBuffers, Zenoh, io_uring, the clock, the iteration order of a hash map)
  is the record \<open>env\<close>, an argument of every operation that uses it. Calls into the kernel
  and Zenoh are appended to a trace, and what they return may depend on that trace. The
  effect of a handler's callback is the entry it leaves in \<open>calls\<close>.
\<close>

subsection \<open>Data\<close>

record CriticalSample =
  cs_handler_hash :: u64
  cs_payload :: bytes
  enqueue_time :: int

record 'cb Handler =
  path :: string
  path_hash :: u64
  priority :: TopicPriority
  callback :: 'cb

text \<open>The pointers of the context all lead to the one reactor the model is about.\<close>

record CallbackContext =
  ctx_handler_hash :: u64
  ctx_priority :: TopicPriority
  ctx_wakeup_fd :: int

datatype ReactorError =
    ZenohInitFailed | IORingSetupFailed | HandlerRegistrationFailed | BackpressureHigh | LivelinessLost

record HandlerStatus =
  hs_path :: string
  hs_priority :: string
  hs_description :: string
  hs_active :: bool
  hs_total_processed :: u64

text \<open>A sample as Zenoh hands it to a callback.\<close>

record z_sample =
  z_keyexpr :: string
  z_payload :: bytes
  z_delete :: bool

datatype io_call =
    EventfdWrite int | EventfdRead int
  | GetSqe | PollAdd int | SubmitRing | WaitCqe | CqeSeen
  | DeclareSubscriber string | DeclareLiveliness string
  | PublisherPut bytes

datatype log_line =
    MpscFull TopicPriority u64
  | Backpressure u64
  | SqFull
  | InvalidKeyexpr string
  | SubscribeFailed string
  | LivelinessRestored
  | LivelinessLostLog
  | StartupBanner string "(TopicPriority \<times> string) list"

record env =
  verify_message :: "bytes \<Rightarrow> bool"                    \<comment> \<open>\<open>fbs::VerifyRobotMessageBuffer\<close>\<close>
  build_estop :: "u64 \<Rightarrow> string \<Rightarrow> bytes"             \<comment> \<open>the finished FlatBuffers EStop message\<close>
  steady_clock :: "nat \<Rightarrow> int"                          \<comment> \<open>the n-th reading, in nanoseconds\<close>
  slot_order :: "latest_cache \<Rightarrow> u64 list"              \<comment> \<open>iteration order of \<open>slots_\<close>\<close>
  keyexpr_valid :: "string \<Rightarrow> bool"                     \<comment> \<open>\<open>z_keyexpr_from_str\<close>\<close>
  subscribe_ok :: "io_call list \<Rightarrow> string \<Rightarrow> bool"      \<comment> \<open>\<open>z_declare_background_subscriber\<close>\<close>
  sqe_available :: "io_call list \<Rightarrow> bool"               \<comment> \<open>\<open>io_uring_get_sqe\<close>\<close>
  wait_result :: "io_call list \<Rightarrow> int \<times> u64"            \<comment> \<open>return value and \<open>user_data\<close> of the wait\<close>

record 'cb reactor =
  liveliness_key :: string
  wakeup_fd :: int
  running :: bool
  start_time :: int
  critical_processed :: u64
  critical_dropped :: u64
  normal_processed :: u64
  normal_dropped :: u64
  background_processed :: u64
  background_dropped :: u64
  critical_count_last :: u64
  normal_count_last :: u64
  last_queue_dropped :: u64
  last_bg_dropped :: u64
  critical_latencies :: "double list"
  normal_latencies :: "double list"
  background_latencies :: "double list"
  session_last_seen :: session_map
  handlers :: "'cb Handler list"
  handler_index :: "u64 \<rightharpoonup> nat"
  handler_paths :: "string list"
  contexts :: "CallbackContext list"
  critical_queue :: "CriticalSample mpsc_queue"
  background_cache :: latest_cache
  calls :: "('cb \<times> bytes) list"
  io_trace :: "io_call list"
  logs :: "log_line list"
  clock_reads :: nat

text \<open>The members' initial values, after the constructor obtained the event descriptor \<open>fd\<close>.\<close>

definition reactor_new :: "string \<Rightarrow> int \<Rightarrow> int \<Rightarrow> 'cb reactor" where
  "reactor_new lkey fd start =
     \<lparr>liveliness_key = lkey, wakeup_fd = fd, running = False, start_time = start,
      critical_processed = 0, critical_dropped = 0, normal_processed = 0, normal_dropped = 0,
      background_processed = 0, background_dropped = 0, critical_count_last = 0, normal_count_last = 0,
      last_queue_dropped = 0, last_bg_dropped = 0,
      critical_latencies = [], normal_latencies = [], background_latencies = [],
      session_last_seen = Map.empty, handlers = [], handler_index = Map.empty, handler_paths = [],
      contexts = [], critical_queue = mpsc_new 512, background_cache = cache_new,
      calls = [], io_trace = [], logs = [], clock_reads = 0\<rparr>"

definition io :: "io_call \<Rightarrow> 'cb reactor \<Rightarrow> 'cb reactor" where
  "io c r = r\<lparr>io_trace := io_trace r @ [c]\<rparr>"

definition spdlog :: "log_line \<Rightarrow> 'cb reactor \<Rightarrow> 'cb reactor" where
  "spdlog l r = r\<lparr>logs := logs r @ [l]\<rparr>"

definition read_clock :: "env \<Rightarrow> 'cb reactor \<Rightarrow> int \<times> 'cb reactor" where
  "read_clock env r = (steady_clock env (clock_reads r), r\<lparr>clock_reads := Suc (clock_reads r)\<rparr>)"

subsection \<open>Registration\<close>

text \<open>\<^verbatim>\<open>handler_index_.emplace\<close> keeps the entry that is already there.\<close>

definition register_handler :: "string \<Rightarrow> TopicPriority \<Rightarrow> 'cb \<Rightarrow> 'cb reactor \<Rightarrow> 'cb reactor" where
  "register_handler p prio cb r =
     (let hash = fnv1a_hash p;
          idx = length (handlers r)
      in r\<lparr>handlers := handlers r @ [\<lparr>path = p, path_hash = hash, priority = prio, callback = cb\<rparr>],
           handler_index := (if handler_index r hash = None then (handler_index r)(hash \<mapsto> idx) else handler_index r),
           handler_paths := handler_paths r @ [p]\<rparr>)"

subsection \<open>The receive callback\<close>

definition track_session :: "env \<Rightarrow> z_sample \<Rightarrow> 'cb reactor \<Rightarrow> 'cb reactor" where
  "track_session env smp r =
     (case robot_id_of (z_keyexpr smp) of
        None \<Rightarrow> r
      | Some rid \<Rightarrow>
          (case read_clock env r of (now, r1) \<Rightarrow>
             r1\<lparr>session_last_seen := touch_session rid now (session_last_seen r1)\<rparr>))"

definition new_sample :: "env \<Rightarrow> CallbackContext \<Rightarrow> bytes \<Rightarrow> 'cb reactor \<Rightarrow> CriticalSample" where
  "new_sample env ctx buf r =
     \<lparr>cs_handler_hash = ctx_handler_hash ctx, cs_payload = buf, enqueue_time = fst (read_clock env r)\<rparr>"

definition push_sample :: "env \<Rightarrow> CallbackContext \<Rightarrow> bytes \<Rightarrow> 'cb reactor \<Rightarrow> mem_error + bool \<times> 'cb reactor" where
  "push_sample env ctx buf r =
     (let r1 = snd (read_clock env r)
      in case push (critical_queue r1) (new_sample env ctx buf r) of
           Inl e \<Rightarrow> Inl e
         | Inr (pushed, q) \<Rightarrow> Inr (pushed, r1\<lparr>critical_queue := q\<rparr>))"

definition enqueue_sample :: "env \<Rightarrow> CallbackContext \<Rightarrow> bytes \<Rightarrow> 'cb reactor \<Rightarrow> mem_error + 'cb reactor" where
  "enqueue_sample env ctx buf r =
     (case push_sample env ctx buf r of
        Inl e \<Rightarrow> Inl e
      | Inr (pushed, r1) \<Rightarrow>
          Inr (if \<not> pushed then spdlog (MpscFull (ctx_priority ctx) (dropped_count (critical_queue r1))) r1
               else if ctx_priority ctx = CRITICAL then io (EventfdWrite (ctx_wakeup_fd ctx)) r1
               else r1))"

definition cache_sample :: "env \<Rightarrow> CallbackContext \<Rightarrow> bytes \<Rightarrow> 'cb reactor \<Rightarrow> mem_error + 'cb reactor" where
  "cache_sample env ctx buf r =
     (case get_slot_fast (ctx_handler_hash ctx) (background_cache r) of
        None \<Rightarrow> Inr r
      | Some slot_ptr \<Rightarrow>
          (case read_clock env r of (now, r1) \<Rightarrow>
             (case put_via slot_ptr (ctx_handler_hash ctx) buf now (background_cache r1) of
                Inl e \<Rightarrow> Inl e
              | Inr c \<Rightarrow> Inr (r1\<lparr>background_cache := c\<rparr>))))"

definition zenoh_data_callback :: "env \<Rightarrow> CallbackContext \<Rightarrow> z_sample \<Rightarrow> 'cb reactor \<Rightarrow> mem_error + 'cb reactor" where
  "zenoh_data_callback env ctx smp r =
     (let buf = z_payload smp
      in if length buf = 0 then Inr r
         else if \<not> verify_message env buf then Inr r
         else let r1 = track_session env smp r
              in if ctx_priority ctx \<noteq> BACKGROUND then enqueue_sample env ctx buf r1
                 else cache_sample env ctx buf r1)"

subsection \<open>The liveliness callback\<close>

definition zenoh_liveliness_callback :: "env \<Rightarrow> z_sample \<Rightarrow> 'cb reactor \<Rightarrow> 'cb reactor" where
  "zenoh_liveliness_callback env smp r =
     (if \<not> z_delete smp then spdlog LivelinessRestored r
      else (case read_clock env (spdlog LivelinessLostLog r) of (now, r1) \<Rightarrow>
              io (PublisherPut (build_estop env (of_int now) ''liveliness_lost'')) r1))"

subsection \<open>The event loop\<close>

definition record_latency :: "TopicPriority \<Rightarrow> double \<Rightarrow> 'cb reactor \<Rightarrow> 'cb reactor" where
  "record_latency prio lat r =
     (case prio of
        CRITICAL \<Rightarrow> r\<lparr>critical_latencies := window_push (critical_latencies r) lat\<rparr>
      | NORMAL \<Rightarrow> r\<lparr>normal_latencies := window_push (normal_latencies r) lat\<rparr>
      | BACKGROUND \<Rightarrow> r\<lparr>background_latencies := window_push (background_latencies r) lat\<rparr>)"

definition invoke :: "'cb Handler \<Rightarrow> bytes \<Rightarrow> 'cb reactor \<Rightarrow> 'cb reactor" where
  "invoke h data r = r\<lparr>calls := calls r @ [(callback h, data)]\<rparr>"

text \<open>
  New drops are split over the two channels by the last cycle's counts; the drop counter of
  the queue is compared with the value the last pass saw.
\<close>

definition charge_drops :: "u64 \<Rightarrow> 'cb reactor \<Rightarrow> 'cb reactor" where
  "charge_drops new_dropped r =
     (if new_dropped > 0
      then let cycle = critical_count_last r + normal_count_last r
           in if cycle > 0
              then let c_drop = new_dropped * critical_count_last r div cycle
                   in r\<lparr>critical_dropped := critical_dropped r + c_drop,
                        normal_dropped := normal_dropped r + (new_dropped - c_drop)\<rparr>
              else r\<lparr>critical_dropped := critical_dropped r + new_dropped\<rparr>
      else r)"

definition sync_queue_drops :: "'cb reactor \<Rightarrow> 'cb reactor" where
  "sync_queue_drops r =
     (let current_dropped = dropped_count (critical_queue r);
          new_dropped = current_dropped - last_queue_dropped r
      in charge_drops new_dropped (r\<lparr>last_queue_dropped := current_dropped\<rparr>))"

text \<open>
  The body of \<^verbatim>\<open>while (critical_queue_.pop(cs))\<close>, on the reactor and the two local
  counters. An index outside \<open>handlers\<close> is an error, which the rest of the loop keeps.
\<close>

fun dispatch_queued :: "env \<Rightarrow> CriticalSample \<Rightarrow> mem_error + 'cb reactor \<times> u64 \<times> u64 \<Rightarrow> mem_error + 'cb reactor \<times> u64 \<times> u64" where
  "dispatch_queued env cs (Inl e) = Inl e"
| "dispatch_queued env cs (Inr (r, critical_count, normal_count)) =
     (case handler_index r (cs_handler_hash cs) of
        None \<Rightarrow> Inr (r, critical_count, normal_count)
      | Some i \<Rightarrow>
          if i < length (handlers r)
          then (let h = handlers r ! i
                in case read_clock env r of (now, r1) \<Rightarrow>
                     (let r2 = record_latency (priority h) (latency_us now (enqueue_time cs)) r1;
                          r3 = invoke h (cs_payload cs) r2
                      in if priority h = CRITICAL then Inr (r3, critical_count + 1, normal_count)
                         else Inr (r3, critical_count, normal_count + 1)))
          else Inl OutOfBounds)"

definition BACKPRESSURE_WARN_THRESHOLD :: u64 where "BACKPRESSURE_WARN_THRESHOLD = 200"

text \<open>After the loop: the counters of the channels and of the last pass, and the warning.\<close>

definition finish_queue :: "u64 \<Rightarrow> u64 \<Rightarrow> 'cb reactor \<Rightarrow> 'cb reactor" where
  "finish_queue critical_count normal_count r =
     (let r1 = r\<lparr>critical_processed := critical_processed r + critical_count,
                 normal_processed := normal_processed r + normal_count,
                 critical_count_last := critical_count,
                 normal_count_last := normal_count\<rparr>;
          total_processed = critical_count + normal_count
      in if total_processed > BACKPRESSURE_WARN_THRESHOLD then spdlog (Backpressure total_processed) r1 else r1)"

definition drain_queue :: "env \<Rightarrow> 'cb reactor \<Rightarrow> (mem_error + 'cb reactor) option" where
  "drain_queue env r =
     (case drain_loop pop (dispatch_queued env) (critical_queue r) (Inr (r, 0, 0)) of
        None \<Rightarrow> None
      | Some (Inl e) \<Rightarrow> Some (Inl e)
      | Some (Inr (q, Inl e)) \<Rightarrow> Some (Inl e)
      | Some (Inr (q, Inr (r1, critical_count, normal_count))) \<Rightarrow>
          Some (Inr (finish_queue critical_count normal_count (r1\<lparr>critical_queue := q\<rparr>))))"

text \<open>The consumer lambda \<^verbatim>\<open>handle_events\<close> gives to \<^verbatim>\<open>drain\<close>.\<close>

fun dispatch_background :: "env \<Rightarrow> u64 \<Rightarrow> bytes \<Rightarrow> int \<Rightarrow> mem_error + 'cb reactor \<times> u64 \<Rightarrow> mem_error + 'cb reactor \<times> u64" where
  "dispatch_background env hash data t (Inl e) = Inl e"
| "dispatch_background env hash data t (Inr (r, background_count)) =
     (case handler_index r hash of
        None \<Rightarrow> Inr (r, background_count)
      | Some i \<Rightarrow>
          (case read_clock env r of (now, r1) \<Rightarrow>
             (let r2 = record_latency BACKGROUND (latency_us now t) r1
              in if i < length (handlers r2)
                 then Inr (invoke (handlers r2 ! i) data r2, background_count + 1)
                 else Inl OutOfBounds)))"

definition count_background :: "u64 \<Rightarrow> 'cb reactor \<Rightarrow> 'cb reactor" where
  "count_background n r = r\<lparr>background_processed := background_processed r + n\<rparr>"

definition sync_background_drops :: "env \<Rightarrow> 'cb reactor \<Rightarrow> mem_error + 'cb reactor" where
  "sync_background_drops env r =
     (case get_total_dropped (slot_order env (background_cache r)) (background_cache r) 0 of
        Inl e \<Rightarrow> Inl e
      | Inr bg_current_dropped \<Rightarrow>
          (let bg_new_dropped = bg_current_dropped - last_bg_dropped r
           in Inr (r\<lparr>last_bg_dropped := bg_current_dropped,
                     background_dropped := background_dropped r + bg_new_dropped\<rparr>)))"

definition drain_background :: "env \<Rightarrow> 'cb reactor \<Rightarrow> mem_error + 'cb reactor" where
  "drain_background env r =
     (case drain (slot_order env (background_cache r)) (dispatch_background env) (background_cache r) (Inr (r, 0)) of
        Inl e \<Rightarrow> Inl e
      | Inr (c, Inl e) \<Rightarrow> Inl e
      | Inr (c, Inr (r1, background_count)) \<Rightarrow>
          sync_background_drops env (count_background background_count (r1\<lparr>background_cache := c\<rparr>)))"

definition arm_poll_eventfd :: "env \<Rightarrow> 'cb reactor \<Rightarrow> 'cb reactor" where
  "arm_poll_eventfd env r =
     (let available = sqe_available env (io_trace r); r1 = io GetSqe r
      in if \<not> available then spdlog SqFull r1
         else io SubmitRing (io (PollAdd (wakeup_fd r1)) r1))"

definition wait_events :: "env \<Rightarrow> 'cb reactor \<Rightarrow> 'cb reactor" where
  "wait_events env r =
     (case wait_result env (io_trace r) of (ret, user_data) \<Rightarrow>
        (let r1 = io WaitCqe r
         in if ret = 0
            then let r2 = (if user_data = 1 then io (EventfdRead (wakeup_fd r1)) r1 else r1)
                 in arm_poll_eventfd env (io CqeSeen r2)
            else r1))"

text \<open>
  \<^verbatim>\<open>pool_.release()\<close> empties a memory resource nothing is allocated from; it has no
  effect on this state.
\<close>

definition handle_events :: "env \<Rightarrow> 'cb reactor \<Rightarrow> (mem_error + 'cb reactor) option" where
  "handle_events env r =
     (case drain_queue env (sync_queue_drops r) of
        None \<Rightarrow> None
      | Some (Inl e) \<Rightarrow> Some (Inl e)
      | Some (Inr r1) \<Rightarrow>
          (case drain_background env r1 of
             Inl e \<Rightarrow> Some (Inl e)
           | Inr r2 \<Rightarrow> Some (Inr (wait_events env r2))))"

subsection \<open>Running and stopping\<close>

definition stop :: "'cb reactor \<Rightarrow> 'cb reactor" where
  "stop r =
     (let r1 = r\<lparr>running := False\<rparr>
      in if wakeup_fd r1 \<ge> 0 then io (EventfdWrite (wakeup_fd r1)) r1 else r1)"

definition pre_allocate_all :: "'cb Handler list \<Rightarrow> latest_cache \<Rightarrow> latest_cache" where
  "pre_allocate_all hs c =
     fold (\<lambda>h c. if priority h = BACKGROUND then pre_allocate (path_hash h) c else c) hs c"

definition pre_allocate_handlers :: "'cb reactor \<Rightarrow> 'cb reactor" where
  "pre_allocate_handlers r = r\<lparr>background_cache := pre_allocate_all (handlers r) (background_cache r)\<rparr>"

definition subscribe :: "env \<Rightarrow> 'cb Handler \<Rightarrow> 'cb reactor \<Rightarrow> 'cb reactor" where
  "subscribe env h r =
     (if \<not> keyexpr_valid env (path h) then spdlog (InvalidKeyexpr (path h)) r
      else let ctx = \<lparr>ctx_handler_hash = path_hash h, ctx_priority = priority h, ctx_wakeup_fd = wakeup_fd r\<rparr>;
               ok = subscribe_ok env (io_trace r) (path h);
               r1 = io (DeclareSubscriber (path h)) r
           in if ok then r1\<lparr>contexts := contexts r1 @ [ctx]\<rparr>
              else spdlog (SubscribeFailed (path h)) r1)"

definition subscribe_liveliness :: "env \<Rightarrow> 'cb reactor \<Rightarrow> 'cb reactor" where
  "subscribe_liveliness env r =
     (if keyexpr_valid env (liveliness_key r) then io (DeclareLiveliness (liveliness_key r)) r else r)"

text \<open>\<^verbatim>\<open>run\<close> up to its loop.\<close>

definition run_start :: "env \<Rightarrow> 'cb reactor \<Rightarrow> 'cb reactor" where
  "run_start env r =
     (let r1 = r\<lparr>running := True\<rparr>;
          r2 = r1\<lparr>contexts := []\<rparr>;
          r3 = pre_allocate_handlers r2;
          r4 = fold (subscribe env) (handlers r3) r3;
          r5 = subscribe_liveliness env r4;
          r6 = arm_poll_eventfd env r5
      in spdlog (StartupBanner (liveliness_key r6) (map (\<lambda>h. (priority h, path h)) (handlers r6))) r6)"

subsection \<open>Statistics\<close>

definition get_critical_stats :: "'cb reactor \<Rightarrow> ChannelStats" where
  "get_critical_stats r = channel_stats (critical_processed r) (critical_dropped r) (critical_latencies r)"

definition get_normal_stats :: "'cb reactor \<Rightarrow> ChannelStats" where
  "get_normal_stats r = channel_stats (normal_processed r) (normal_dropped r) (normal_latencies r)"

definition get_background_stats :: "'cb reactor \<Rightarrow> ChannelStats" where
  "get_background_stats r = channel_stats (background_processed r) (background_dropped r) (background_latencies r)"

definition get_handler_statuses :: "'cb reactor \<Rightarrow> HandlerStatus list" where
  "get_handler_statuses r =
     map (\<lambda>h. let st = \<lparr>hs_path = path h, hs_priority = '''', hs_description = '''',
                       hs_active = True, hs_total_processed = 0\<rparr>
              in case priority h of
                   CRITICAL \<Rightarrow> st\<lparr>hs_priority := ''CRITICAL'', hs_total_processed := critical_processed r\<rparr>
                 | NORMAL \<Rightarrow> st\<lparr>hs_priority := ''NORMAL'', hs_total_processed := normal_processed r\<rparr>
                 | BACKGROUND \<Rightarrow> st\<lparr>hs_priority := ''BACKGROUND'', hs_total_processed := background_processed r\<rparr>)
         (handlers r)"

definition zero_counters :: "'cb reactor \<Rightarrow> 'cb reactor" where
  "zero_counters r =
     r\<lparr>critical_processed := 0, critical_dropped := 0, normal_processed := 0, normal_dropped := 0,
       background_processed := 0, background_dropped := 0\<rparr>"

definition clear_rest :: "env \<Rightarrow> 'cb reactor \<Rightarrow> mem_error + 'cb reactor" where
  "clear_rest env r =
     (case get_total_dropped (slot_order env (background_cache r)) (background_cache r) 0 of
        Inl e \<Rightarrow> Inl e
      | Inr d \<Rightarrow> Inr (r\<lparr>last_bg_dropped := d, critical_count_last := 0, normal_count_last := 0,
                        critical_latencies := [], normal_latencies := [], background_latencies := []\<rparr>))"

definition reset_stats :: "env \<Rightarrow> 'cb reactor \<Rightarrow> mem_error + 'cb reactor" where
  "reset_stats env r =
     (let r1 = zero_counters r
      in clear_rest env (r1\<lparr>last_queue_dropped := dropped_count (critical_queue r1)\<rparr>))"

text \<open>What \<^verbatim>\<open>print_stats\<close> prints: the queue's drops if any, then the slots' lines.\<close>

definition print_stats :: "env \<Rightarrow> 'cb reactor \<Rightarrow> mem_error + u64 list \<times> (u64 \<times> u64) list" where
  "print_stats env r =
     (let d = dropped_count (critical_queue r)
      in case print_drop_stats (slot_order env (background_cache r)) (background_cache r) of
           Inl e \<Rightarrow> Inl e
         | Inr lines \<Rightarrow> Inr (if d > 0 then [d] else [], lines))"

definition get_uptime_seconds :: "int \<Rightarrow> 'cb reactor \<Rightarrow> double" where
  "get_uptime_seconds now r = fdiv (of_integer (now - start_time r)) 1000000000"

end
