(* ===== verification/Reactor.thy ===== *)
theory Reactor
  imports Reactor_Model
begin

text \<open>
  The correctness of the reactor model: its invariant, what each operation does on every
  branch, the dispatch order, and the accounting of frames.
\<close>

subsection \<open>Which handler a hash leads to\<close>

fun first_index :: "u64 \<Rightarrow> 'cb Handler list \<Rightarrow> nat option" where
  "first_index hash [] = None"
| "first_index hash (h # hs) = (if path_hash h = hash then Some 0 else map_option Suc (first_index hash hs))"

lemma first_index_append:
  "first_index hash (hs @ [h]) =
     (case first_index hash hs of
        None \<Rightarrow> if path_hash h = hash then Some (length hs) else None
      | Some i \<Rightarrow> Some i)"
  by (induction hs) (auto split: option.splits)

lemma first_index_Some:
  "first_index hash hs = Some i \<Longrightarrow>
     i < length hs \<and> path_hash (hs ! i) = hash \<and> (\<forall>j < i. path_hash (hs ! j) \<noteq> hash)"
proof (induction hs arbitrary: i)
  case (Cons h hs)
  then show ?case by (cases i) (auto split: if_splits simp: less_Suc_eq_0_disj)
qed simp

lemma first_index_None: "first_index hash hs = None \<longleftrightarrow> hash \<notin> path_hash ` set hs"
  by (induction hs) auto

subsection \<open>Invariant\<close>

definition env_ok :: "env \<Rightarrow> bool" where
  "env_ok env \<longleftrightarrow> (\<forall>c. cache_inv c \<longrightarrow> iterates (slot_order env c) c)"

text \<open>
  The components' invariants; the index is that of the first handler with a hash; every
  queued or held frame belongs to a registered handler; the windows are bounded.
\<close>

definition handlers_inv :: "'cb reactor \<Rightarrow> bool" where
  "handlers_inv r \<longleftrightarrow>
     handler_index r = (\<lambda>hash. first_index hash (handlers r)) \<and>
     (\<forall>h \<in> set (handlers r). path_hash h = fnv1a_hash (path h)) \<and>
     handler_paths r = map path (handlers r)"

definition queue_inv :: "'cb reactor \<Rightarrow> bool" where
  "queue_inv r \<longleftrightarrow>
     mpsc_inv (critical_queue r) \<and> Capacity (critical_queue r) = 512 \<and>
     (\<forall>cs \<in> set (queue_list (critical_queue r)). handler_index r (cs_handler_hash cs) \<noteq> None)"

definition frames_inv :: "'cb reactor \<Rightarrow> bool" where
  "frames_inv r \<longleftrightarrow>
     cache_inv (background_cache r) \<and>
     (\<forall>k s. view (background_cache r) k = Some s \<longrightarrow> has_data s \<longrightarrow> handler_hash s = k \<and> handler_index r k \<noteq> None)"

definition windows_inv :: "'cb reactor \<Rightarrow> bool" where
  "windows_inv r \<longleftrightarrow>
     length (critical_latencies r) \<le> LATENCY_WINDOW_SIZE \<and>
     length (normal_latencies r) \<le> LATENCY_WINDOW_SIZE \<and>
     length (background_latencies r) \<le> LATENCY_WINDOW_SIZE"

definition reactor_inv :: "'cb reactor \<Rightarrow> bool" where
  "reactor_inv r \<longleftrightarrow> handlers_inv r \<and> queue_inv r \<and> frames_inv r \<and> windows_inv r"

lemmas reactor_invs = reactor_inv_def handlers_inv_def queue_inv_def frames_inv_def windows_inv_def

text \<open>A context Zenoh may call back with: one that belongs to a registered handler.\<close>

definition ctx_ok :: "'cb reactor \<Rightarrow> CallbackContext \<Rightarrow> bool" where
  "ctx_ok r ctx \<longleftrightarrow>
     (\<exists>h \<in> set (handlers r). ctx_handler_hash ctx = path_hash h \<and> ctx_priority ctx = priority h) \<and>
     ctx_wakeup_fd ctx = wakeup_fd r"

lemma ctx_ok_index: "handlers_inv r \<Longrightarrow> ctx_ok r ctx \<Longrightarrow> handler_index r (ctx_handler_hash ctx) \<noteq> None"
  unfolding handlers_inv_def ctx_ok_def by (metis first_index_None image_eqI)

lemma reactor_new_inv: "reactor_inv (reactor_new lkey fd start)"
proof -
  have cap: "(2 :: u64) ^ 9 = 512" by simp
  have "mpsc_inv (mpsc_new 512 :: CriticalSample mpsc_queue)" "queue_list (mpsc_new 512 :: CriticalSample mpsc_queue) = []"
    using mpsc_new_inv [of 9, where 'a = CriticalSample] unfolding cap by simp_all
  then show ?thesis
    by (simp add: reactor_invs reactor_new_def) (simp add: mpsc_new_def fun_eq_iff)
qed

text \<open>Operations that touch none of the fields the invariant reads.\<close>

lemma io_fields [frame_simps]:
  "handlers (io c r) = handlers r" "handler_index (io c r) = handler_index r" "critical_queue (io c r) = critical_queue r"
  "background_cache (io c r) = background_cache r" "calls (io c r) = calls r" "wakeup_fd (io c r) = wakeup_fd r"
  "running (io c r) = running r" "io_trace (io c r) = io_trace r @ [c]"
  "reactor_inv (io c r) = reactor_inv r" "ctx_ok (io c r) = ctx_ok r"
  by (simp_all add: io_def reactor_invs ctx_ok_def fun_eq_iff)

lemma spdlog_fields [frame_simps]:
  "handlers (spdlog l r) = handlers r" "handler_index (spdlog l r) = handler_index r" "critical_queue (spdlog l r) = critical_queue r"
  "background_cache (spdlog l r) = background_cache r" "calls (spdlog l r) = calls r" "wakeup_fd (spdlog l r) = wakeup_fd r"
  "running (spdlog l r) = running r" "io_trace (spdlog l r) = io_trace r"
  "reactor_inv (spdlog l r) = reactor_inv r" "ctx_ok (spdlog l r) = ctx_ok r"
  by (simp_all add: spdlog_def reactor_invs ctx_ok_def fun_eq_iff)

subsection \<open>Registration\<close>

lemma register_handler_inv [inv_preserved]:
  assumes "reactor_inv r"
  shows "reactor_inv (register_handler p prio cb r)"
proof -
  let ?r = "register_handler p prio cb r"
  have idx: "handler_index r = (\<lambda>hash. first_index hash (handlers r))" using assms by (simp add: reactor_invs)
  have keep: "handler_index ?r k \<noteq> None" if "handler_index r k \<noteq> None" for k
    using that by (simp add: register_handler_def Let_def)
  have "handler_index ?r = (\<lambda>hash. first_index hash (handlers ?r))"
    by (auto simp: register_handler_def Let_def idx first_index_append fun_eq_iff split: option.split)
  then have "handlers_inv ?r"
    using assms by (auto simp: reactor_inv_def handlers_inv_def) (auto simp: register_handler_def Let_def)
  moreover have f: "critical_queue ?r = critical_queue r" "background_cache ?r = background_cache r" "windows_inv ?r = windows_inv r"
    by (simp_all add: register_handler_def Let_def windows_inv_def)
  moreover have "queue_inv ?r" using assms keep unfolding reactor_inv_def queue_inv_def f by blast
  moreover have "frames_inv ?r" using assms keep unfolding reactor_inv_def frames_inv_def f by blast
  moreover have "windows_inv ?r" using assms f by (simp add: reactor_inv_def)
  ultimately show ?thesis by (simp add: reactor_inv_def)
qed

subsection \<open>The receive callback on every branch\<close>

lemma put_via_frames:
  assumes "frames_inv r" "handler_index r k \<noteq> None" "get_slot_fast k (background_cache r) = Some a"
  obtains c s where "put_via a k d t (background_cache r) = Inr c" "view (background_cache r) k = Some s"
    "view c = (view (background_cache r))(k \<mapsto> put k d t s)" "slots c = slots (background_cache r)"
    "frames_inv (r\<lparr>background_cache := c\<rparr>)"
proof -
  have inv: "cache_inv (background_cache r)" using assms(1) by (simp add: frames_inv_def)
  obtain s where s: "view (background_cache r) k = Some s"
    using deref_view [OF inv] assms(3) by (auto simp: get_slot_fast_def)
  obtain c where c: "put_via a k d t (background_cache r) = Inr c" "cache_inv c"
    "view c = (view (background_cache r))(k \<mapsto> put k d t s)" "slots c = slots (background_cache r)"
    using put_via_spec [OF inv assms(3), of k d t] s by auto
  have "frames_inv (r\<lparr>background_cache := c\<rparr>)"
    using assms(1,2) c(2,3) by (auto simp: frames_inv_def)
  with c s that show thesis by blast
qed

lemma track_session_shape:
  "\<exists>m n. track_session env smp r = r\<lparr>clock_reads := n, session_last_seen := m\<rparr>"
proof (cases "robot_id_of (z_keyexpr smp)")
  case None
  then show ?thesis
    by (intro exI [of _ "session_last_seen r"] exI [of _ "clock_reads r"]) (simp add: track_session_def)
qed (auto simp: track_session_def read_clock_def)

lemma mpsc_push_cases:
  assumes "queue_inv r"
  obtains (accept) q where "push (critical_queue r) cs = Inr (True, q)" "mpsc_inv q" "Capacity q = 512"
      "length (queue_list (critical_queue r)) < 511" "queue_list q = queue_list (critical_queue r) @ [cs]"
      "dropped q = dropped (critical_queue r)"
    | (reject) q where "push (critical_queue r) cs = Inr (False, q)" "mpsc_inv q" "Capacity q = 512"
      "length (queue_list (critical_queue r)) = 511" "queue_list q = queue_list (critical_queue r)"
      "dropped q = dropped (critical_queue r) + 1"
proof -
  have cap: "Capacity q' = Capacity (critical_queue r)" if "push (critical_queue r) cs = Inr (b, q')" for b q'
    using that by (auto simp: push_def Let_def construct_at_def split: if_splits sum.splits)
  have q: "mpsc_inv (critical_queue r)" "Capacity (critical_queue r) = 512" using assms by (simp_all add: queue_inv_def)
  then have room: "ring_size (critical_queue r) - 1 = 511" by (simp add: ring_size_def)
  show thesis
  proof (cases rule: mq.push_cases [OF q(1), of cs])
    case (1 q')
    then show ?thesis using that(1) [of q'] cap [OF 1(1)] q(2) room by simp
  next
    case (2 q')
    then show ?thesis using that(2) [of q'] cap [OF 2(1)] q(2) room by simp
  qed
qed

text \<open>A sample that passes the length check and the FlatBuffers verifier.\<close>

definition admissible :: "env \<Rightarrow> z_sample \<Rightarrow> bool" where
  "admissible env smp \<longleftrightarrow> z_payload smp \<noteq> [] \<and> verify_message env (z_payload smp)"

lemma callback_discard: "\<not> admissible env smp \<Longrightarrow> zenoh_data_callback env ctx smp r = Inr r"
  by (auto simp: zenoh_data_callback_def admissible_def Let_def)

lemma inv_unaffected [simp]:
  "reactor_inv (r\<lparr>io_trace := tr, logs := l\<rparr>) = reactor_inv r"
  "reactor_inv (r\<lparr>clock_reads := n, session_last_seen := m\<rparr>) = reactor_inv r"
  "reactor_inv (r\<lparr>clock_reads := n, session_last_seen := m, critical_queue := q, logs := l\<rparr>) = reactor_inv (r\<lparr>critical_queue := q\<rparr>)"
  "reactor_inv (r\<lparr>clock_reads := n, session_last_seen := m, critical_queue := q, io_trace := tr\<rparr>) = reactor_inv (r\<lparr>critical_queue := q\<rparr>)"
  "reactor_inv (r\<lparr>clock_reads := n, session_last_seen := m, critical_queue := q\<rparr>) = reactor_inv (r\<lparr>critical_queue := q\<rparr>)"
  "reactor_inv (r\<lparr>clock_reads := n, session_last_seen := m, background_cache := c\<rparr>) = reactor_inv (r\<lparr>background_cache := c\<rparr>)"
  by (simp_all add: reactor_invs)

lemma background_inv:
  "reactor_inv (r\<lparr>background_cache := c\<rparr>) \<longleftrightarrow>
     handlers_inv r \<and> queue_inv r \<and> frames_inv (r\<lparr>background_cache := c\<rparr>) \<and> windows_inv r"
  by (simp add: reactor_inv_def handlers_inv_def queue_inv_def windows_inv_def)

text \<open>What the callback changes, as one record update per branch.\<close>

lemma callback_queue:
  assumes "reactor_inv r" "ctx_ok r ctx" "admissible env smp" "ctx_priority ctx \<noteq> BACKGROUND"
  obtains (accept) n m q t tr where
      "zenoh_data_callback env ctx smp r = Inr (r\<lparr>clock_reads := n, session_last_seen := m, critical_queue := q, io_trace := tr\<rparr>)"
      "reactor_inv (r\<lparr>clock_reads := n, session_last_seen := m, critical_queue := q, io_trace := tr\<rparr>)"
      "length (queue_list (critical_queue r)) < 511"
      "queue_list q = queue_list (critical_queue r) @
         [\<lparr>cs_handler_hash = ctx_handler_hash ctx, cs_payload = z_payload smp, enqueue_time = t\<rparr>]"
      "dropped q = dropped (critical_queue r)"
      "tr = io_trace r @ (if ctx_priority ctx = CRITICAL then [EventfdWrite (wakeup_fd r)] else [])"
    | (reject) n m q l where
      "zenoh_data_callback env ctx smp r = Inr (r\<lparr>clock_reads := n, session_last_seen := m, critical_queue := q, logs := l\<rparr>)"
      "reactor_inv (r\<lparr>clock_reads := n, session_last_seen := m, critical_queue := q, logs := l\<rparr>)"
      "length (queue_list (critical_queue r)) = 511"
      "queue_list q = queue_list (critical_queue r)" "dropped q = dropped (critical_queue r) + 1"
proof -
  obtain m n where sess: "track_session env smp r = r\<lparr>clock_reads := n, session_last_seen := m\<rparr>"
    using track_session_shape by blast
  have idx: "handler_index r (ctx_handler_hash ctx) \<noteq> None"
    using assms(1,2) ctx_ok_index by (auto simp: reactor_inv_def)
  have fd: "ctx_wakeup_fd ctx = wakeup_fd r" using assms(2) by (simp add: ctx_ok_def)
  have adm: "length (z_payload smp) \<noteq> 0" "verify_message env (z_payload smp)"
    using assms(3) by (simp_all add: admissible_def)
  define t where "t = steady_clock env n"
  define cs where "cs = \<lparr>cs_handler_hash = ctx_handler_hash ctx, cs_payload = z_payload smp, enqueue_time = t\<rparr>"
  have q: "queue_inv r" using assms(1) by (simp add: reactor_inv_def)
  have cb: "zenoh_data_callback env ctx smp r = enqueue_sample env ctx (z_payload smp) (r\<lparr>clock_reads := n, session_last_seen := m\<rparr>)"
    using adm assms(4) by (simp add: zenoh_data_callback_def Let_def sess)
  from q show thesis
  proof (cases rule: mpsc_push_cases [where cs = cs])
    case (accept q')
    define tr where "tr = io_trace r @ (if ctx_priority ctx = CRITICAL then [EventfdWrite (wakeup_fd r)] else [])"
    have "reactor_inv (r\<lparr>critical_queue := q'\<rparr>)"
      using assms(1) accept idx by (auto simp: reactor_invs cs_def)
    then have inv: "reactor_inv (r\<lparr>clock_reads := Suc n, session_last_seen := m, critical_queue := q', io_trace := tr\<rparr>)" by simp
    have "zenoh_data_callback env ctx smp r =
        Inr (r\<lparr>clock_reads := Suc n, session_last_seen := m, critical_queue := q', io_trace := tr\<rparr>)"
      using accept(1) fd unfolding cb
      by (simp add: enqueue_sample_def push_sample_def new_sample_def read_clock_def cs_def t_def io_def tr_def)
    then show thesis using inv by (rule that(1)) (use accept(4-6) in \<open>simp_all add: cs_def tr_def\<close>)
  next
    case (reject q')
    define l where "l = logs r @ [MpscFull (ctx_priority ctx) (dropped_count q')]"
    have "reactor_inv (r\<lparr>critical_queue := q'\<rparr>)"
      using assms(1) reject by (auto simp: reactor_invs)
    then have inv: "reactor_inv (r\<lparr>clock_reads := Suc n, session_last_seen := m, critical_queue := q', logs := l\<rparr>)" by simp
    have "zenoh_data_callback env ctx smp r =
        Inr (r\<lparr>clock_reads := Suc n, session_last_seen := m, critical_queue := q', logs := l\<rparr>)"
      using reject(1) unfolding cb
      by (simp add: enqueue_sample_def push_sample_def new_sample_def read_clock_def cs_def t_def spdlog_def l_def)
    then show thesis using inv by (rule that(2)) (use reject(4-6) in simp_all)
  qed
qed

lemma callback_background:
  assumes "reactor_inv r" "ctx_ok r ctx" "admissible env smp" "ctx_priority ctx = BACKGROUND"
  obtains (no_slot) n m where
      "zenoh_data_callback env ctx smp r = Inr (r\<lparr>clock_reads := n, session_last_seen := m\<rparr>)"
      "slots (background_cache r) (ctx_handler_hash ctx) = None"
    | (stored) n m c s t where
      "zenoh_data_callback env ctx smp r = Inr (r\<lparr>clock_reads := n, session_last_seen := m, background_cache := c\<rparr>)"
      "reactor_inv (r\<lparr>clock_reads := n, session_last_seen := m, background_cache := c\<rparr>)"
      "view (background_cache r) (ctx_handler_hash ctx) = Some s"
      "view c = (view (background_cache r))(ctx_handler_hash ctx \<mapsto> put (ctx_handler_hash ctx) (z_payload smp) t s)"
      "slots c = slots (background_cache r)"
proof -
  obtain m n where sess: "track_session env smp r = r\<lparr>clock_reads := n, session_last_seen := m\<rparr>"
    using track_session_shape by blast
  have idx: "handler_index r (ctx_handler_hash ctx) \<noteq> None"
    using assms(1,2) ctx_ok_index by (auto simp: reactor_inv_def)
  have adm: "length (z_payload smp) \<noteq> 0" "verify_message env (z_payload smp)"
    using assms(3) by (simp_all add: admissible_def)
  have cb: "zenoh_data_callback env ctx smp r = cache_sample env ctx (z_payload smp) (r\<lparr>clock_reads := n, session_last_seen := m\<rparr>)"
    using adm assms(4) by (simp add: zenoh_data_callback_def Let_def sess)
  show thesis
  proof (cases "slots (background_cache r) (ctx_handler_hash ctx)")
    case None
    then show thesis unfolding cb by (intro that(1)) (simp_all add: cb cache_sample_def get_slot_fast_def)
  next
    case (Some a)
    then have a: "get_slot_fast (ctx_handler_hash ctx) (background_cache r) = Some a" by (simp add: get_slot_fast_def)
    have fi: "frames_inv r" using assms(1) by (simp add: reactor_inv_def)
    obtain c s where c: "put_via a (ctx_handler_hash ctx) (z_payload smp) (steady_clock env n) (background_cache r) = Inr c"
      "view (background_cache r) (ctx_handler_hash ctx) = Some s"
      "view c = (view (background_cache r))(ctx_handler_hash ctx \<mapsto> put (ctx_handler_hash ctx) (z_payload smp) (steady_clock env n) s)"
      "slots c = slots (background_cache r)" "frames_inv (r\<lparr>background_cache := c\<rparr>)"
      by (rule put_via_frames [OF fi idx a])
    have "reactor_inv (r\<lparr>background_cache := c\<rparr>)"
      using assms(1) c(5) unfolding background_inv unfolding reactor_inv_def by blast
    then have inv: "reactor_inv (r\<lparr>clock_reads := Suc n, session_last_seen := m, background_cache := c\<rparr>)" by simp
    have "zenoh_data_callback env ctx smp r = Inr (r\<lparr>clock_reads := Suc n, session_last_seen := m, background_cache := c\<rparr>)"
      unfolding cb by (simp add: cache_sample_def read_clock_def a c(1))
    then show thesis using inv by (rule that(2)) (use c(2-4) in simp_all)
  qed
qed

lemma callback_running:
  assumes "reactor_inv r" "ctx_ok r ctx"
  shows "\<exists>r'. zenoh_data_callback env ctx smp r = Inr r' \<and> running r' = running r"
proof (cases "admissible env smp")
  case True
  show ?thesis
  proof (cases "ctx_priority ctx = BACKGROUND")
    case bg: True
    from assms True this show ?thesis by (cases rule: callback_background) simp_all
  next
    case False
    from assms True this show ?thesis by (cases rule: callback_queue) simp_all
  qed
qed (simp add: callback_discard)

subsection \<open>Dispatch\<close>

declare dispatch_queued.simps [simp del] dispatch_background.simps [simp del]

text \<open>The handler a hash leads to, and the call a queued sample turns into.\<close>

definition target :: "'cb reactor \<Rightarrow> u64 \<Rightarrow> 'cb Handler" where
  "target r hash = handlers r ! the (handler_index r hash)"

definition queued_call :: "'cb reactor \<Rightarrow> CriticalSample \<Rightarrow> 'cb \<times> bytes" where
  "queued_call r cs = (callback (target r (cs_handler_hash cs)), cs_payload cs)"

definition frame_call :: "'cb reactor \<Rightarrow> sample \<Rightarrow> 'cb \<times> bytes" where
  "frame_call r f = (case f of (hash, data, t) \<Rightarrow> (callback (target r hash), data))"

definition is_critical :: "'cb reactor \<Rightarrow> CriticalSample \<Rightarrow> bool" where
  "is_critical r cs \<longleftrightarrow> priority (target r (cs_handler_hash cs)) = CRITICAL"

text \<open>\<open>r'\<close> is \<open>r\<close> after the calls \<open>new\<close>: only the calls, the clock and the windows differ.\<close>

definition dispatched :: "'cb reactor \<Rightarrow> ('cb \<times> bytes) list \<Rightarrow> 'cb reactor \<Rightarrow> bool" where
  "dispatched r new r' \<longleftrightarrow>
     (\<exists>n cl nl bl. r' = r\<lparr>clock_reads := n, critical_latencies := cl, normal_latencies := nl,
                         background_latencies := bl, calls := calls r @ new\<rparr> \<and> windows_inv r')"

lemma dispatched_refl: "windows_inv r \<Longrightarrow> dispatched r [] r"
  unfolding dispatched_def
  by (rule exI [of _ "clock_reads r"], rule exI [of _ "critical_latencies r"],
      rule exI [of _ "normal_latencies r"], rule exI [of _ "background_latencies r"]) simp

lemma dispatched_trans:
  assumes "dispatched r xs r1" "dispatched r1 ys r2"
  shows "dispatched r (xs @ ys) r2"
proof -
  obtain n cl nl bl where 1: "r1 = r\<lparr>clock_reads := n, critical_latencies := cl, normal_latencies := nl,
      background_latencies := bl, calls := calls r @ xs\<rparr>" using assms(1) by (auto simp: dispatched_def)
  obtain n' cl' nl' bl' where 2: "r2 = r1\<lparr>clock_reads := n', critical_latencies := cl', normal_latencies := nl',
      background_latencies := bl', calls := calls r1 @ ys\<rparr>" "windows_inv r2" using assms(2) by (auto simp: dispatched_def)
  have "r2 = r\<lparr>clock_reads := n', critical_latencies := cl', normal_latencies := nl',
      background_latencies := bl', calls := calls r @ (xs @ ys)\<rparr>" by (simp add: 1 2(1))
  with 2(2) show ?thesis unfolding dispatched_def by blast
qed

lemma dispatched_fields:
  assumes "dispatched r new r'"
  shows "handlers r' = handlers r" "handler_index r' = handler_index r" "critical_queue r' = critical_queue r"
    "background_cache r' = background_cache r" "calls r' = calls r @ new" "windows_inv r'" "handlers_inv r' = handlers_inv r"
    "target r' = target r"
  using assms by (auto simp: dispatched_def handlers_inv_def target_def fun_eq_iff)

lemma record_latency_windows: "windows_inv r \<Longrightarrow> windows_inv (record_latency prio lat r)"
  by (cases prio) (simp_all add: windows_inv_def record_latency_def window_push_length)

lemma dispatched_call:
  assumes "windows_inv r"
  shows "dispatched r [(callback h, data)] (invoke h data (record_latency prio lat (r\<lparr>clock_reads := n\<rparr>)))"
    (is "dispatched r _ ?r")
proof -
  have "windows_inv (r\<lparr>clock_reads := n\<rparr>)" using assms by (simp add: windows_inv_def)
  from record_latency_windows [OF this] have "windows_inv ?r"
    by (simp add: invoke_def windows_inv_def)
  moreover have "?r = r\<lparr>clock_reads := n, critical_latencies := critical_latencies ?r, normal_latencies := normal_latencies ?r,
      background_latencies := background_latencies ?r, calls := calls r @ [(callback h, data)]\<rparr>"
    by (cases prio; rule reactor.equality) (simp_all add: invoke_def record_latency_def)
  ultimately show ?thesis unfolding dispatched_def by blast
qed

lemma handler_index_valid:
  assumes "handlers_inv r" "handler_index r hash = Some i"
  shows "i < length (handlers r)" "handlers r ! i = target r hash" "path_hash (target r hash) = hash"
  using assms first_index_Some [of hash "handlers r" i] by (simp_all add: handlers_inv_def target_def)

lemma target_unique:
  assumes "handlers_inv r" "distinct (map path_hash (handlers r))" "h \<in> set (handlers r)"
  shows "target r (path_hash h) = h"
proof -
  obtain i where i: "handler_index r (path_hash h) = Some i"
    using assms(1,3) first_index_None [of "path_hash h" "handlers r"]
    by (cases "handler_index r (path_hash h)") (auto simp: handlers_inv_def)
  note v = handler_index_valid [OF assms(1) i]
  then have "target r (path_hash h) \<in> set (handlers r)" by (metis nth_mem)
  with v(3) show ?thesis using assms(2,3) by (metis distinct_map inj_onD)
qed

lemma dispatch_queued_step:
  assumes "handlers_inv r" "windows_inv r" "handler_index r (cs_handler_hash cs) \<noteq> None"
  obtains r' where "dispatch_queued env cs (Inr (r, c, n)) =
      Inr (r', if is_critical r cs then c + 1 else c, if is_critical r cs then n else n + 1)"
    "dispatched r [queued_call r cs] r'"
proof -
  obtain i where i: "handler_index r (cs_handler_hash cs) = Some i" using assms(3) by blast
  note v = handler_index_valid [OF assms(1) i]
  define r' where "r' = invoke (target r (cs_handler_hash cs)) (cs_payload cs)
      (record_latency (priority (target r (cs_handler_hash cs)))
         (latency_us (steady_clock env (clock_reads r)) (enqueue_time cs)) (r\<lparr>clock_reads := Suc (clock_reads r)\<rparr>))"
  have "dispatch_queued env cs (Inr (r, c, n)) =
      Inr (r', if is_critical r cs then c + 1 else c, if is_critical r cs then n else n + 1)"
    using i v by (simp add: dispatch_queued.simps read_clock_def Let_def r'_def is_critical_def)
  moreover have "dispatched r [queued_call r cs] r'"
    unfolding r'_def queued_call_def by (rule dispatched_call [OF assms(2)])
  ultimately show thesis by (rule that)
qed

lemma dispatch_queued_fold:
  assumes "handlers_inv r" "windows_inv r" "\<forall>cs \<in> set xs. handler_index r (cs_handler_hash cs) \<noteq> None"
  shows "\<exists>r'. fold (dispatch_queued env) xs (Inr (r, c, n)) =
           Inr (r', c + of_nat (length (filter (is_critical r) xs)), n + of_nat (length (filter (\<lambda>cs. \<not> is_critical r cs) xs))) \<and>
         dispatched r (map (queued_call r) xs) r'"
  using assms
proof (induction xs arbitrary: r c n)
  case Nil
  then show ?case by (simp add: dispatched_refl)
next
  case (Cons cs xs)
  then have idx: "handler_index r (cs_handler_hash cs) \<noteq> None" by simp
  obtain r1 where r1: "dispatch_queued env cs (Inr (r, c, n)) =
      Inr (r1, if is_critical r cs then c + 1 else c, if is_critical r cs then n else n + 1)"
    "dispatched r [queued_call r cs] r1"
    by (rule dispatch_queued_step [OF Cons.prems(1,2) idx])
  note f = dispatched_fields [OF r1(2)]
  have same: "is_critical r1 = is_critical r" "queued_call r1 = queued_call r"
    by (simp_all add: is_critical_def queued_call_def f fun_eq_iff)
  obtain r' where "fold (dispatch_queued env) xs (dispatch_queued env cs (Inr (r, c, n))) =
      Inr (r', c + of_nat (length (filter (is_critical r) (cs # xs))), n + of_nat (length (filter (\<lambda>cs. \<not> is_critical r cs) (cs # xs))))"
    "dispatched r1 (map (queued_call r) xs) r'"
    using Cons.IH [of r1 "if is_critical r cs then c + 1 else c" "if is_critical r cs then n else n + 1"] Cons.prems f
    by (auto simp: r1(1) same add_ac)
  with dispatched_trans [OF r1(2)] show ?case by auto
qed

lemma dispatch_background_step:
  assumes "handlers_inv r" "windows_inv r" "handler_index r hash \<noteq> None"
  obtains r' where "dispatch_background env hash data t (Inr (r, n)) = Inr (r', n + 1)"
    "dispatched r [(callback (target r hash), data)] r'"
proof -
  obtain i where i: "handler_index r hash = Some i" using assms(3) by blast
  note v = handler_index_valid [OF assms(1) i]
  define r' where "r' = invoke (target r hash) data
      (record_latency BACKGROUND (latency_us (steady_clock env (clock_reads r)) t) (r\<lparr>clock_reads := Suc (clock_reads r)\<rparr>))"
  have "dispatch_background env hash data t (Inr (r, n)) = Inr (r', n + 1)"
    using i v by (simp add: dispatch_background.simps read_clock_def Let_def r'_def record_latency_def)
  moreover have "dispatched r [(callback (target r hash), data)] r'"
    unfolding r'_def by (rule dispatched_call [OF assms(2)])
  ultimately show thesis by (rule that)
qed

lemma dispatch_background_fold:
  assumes "handlers_inv r" "windows_inv r" "\<forall>(hash, data, t) \<in> set fs. handler_index r hash \<noteq> None"
  shows "\<exists>r'. fold (\<lambda>(h, d, t). dispatch_background env h d t) fs (Inr (r, n)) = Inr (r', n + of_nat (length fs)) \<and>
         dispatched r (map (frame_call r) fs) r'"
  using assms
proof (induction fs arbitrary: r n)
  case Nil
  then show ?case by (simp add: dispatched_refl)
next
  case (Cons f fs)
  obtain hash data t where f: "f = (hash, data, t)" by (cases f)
  with Cons.prems(3) have idx: "handler_index r hash \<noteq> None" by simp
  obtain r1 where r1: "dispatch_background env hash data t (Inr (r, n)) = Inr (r1, n + 1)"
    "dispatched r [(callback (target r hash), data)] r1"
    by (rule dispatch_background_step [OF Cons.prems(1,2) idx])
  note fl = dispatched_fields [OF r1(2)]
  have same: "frame_call r1 = frame_call r" by (simp add: frame_call_def fl fun_eq_iff)
  obtain r' where "fold (\<lambda>(h, d, t). dispatch_background env h d t) (f # fs) (Inr (r, n)) = Inr (r', n + of_nat (length (f # fs)))"
    "dispatched r1 (map (frame_call r) fs) r'"
    using Cons.IH [of r1 "n + 1"] Cons.prems fl by (auto simp: f r1(1) same add_ac)
  moreover have "frame_call r f = (callback (target r hash), data)" by (simp add: f frame_call_def)
  ultimately show ?case using dispatched_trans [OF r1(2)] by auto
qed

subsection \<open>One pass of the event loop\<close>

lemma drain_queue_spec:
  assumes "reactor_inv r"
  shows "\<exists>r1 q l cl nl. drain_queue env r =
           Some (Inr (r1\<lparr>critical_queue := q, critical_processed := critical_processed r + cl,
                         normal_processed := normal_processed r + nl,
                         critical_count_last := cl, normal_count_last := nl, logs := l\<rparr>)) \<and>
         dispatched r (map (queued_call r) (queue_list (critical_queue r))) r1 \<and>
         cl = of_nat (length (filter (is_critical r) (queue_list (critical_queue r)))) \<and>
         nl = of_nat (length (filter (\<lambda>cs. \<not> is_critical r cs) (queue_list (critical_queue r)))) \<and>
         mpsc_inv q \<and> queue_list q = [] \<and> Capacity q = 512 \<and> dropped q = dropped (critical_queue r)"
proof -
  have inv: "handlers_inv r" "windows_inv r" "mpsc_inv (critical_queue r)"
    "\<forall>cs \<in> set (queue_list (critical_queue r)). handler_index r (cs_handler_hash cs) \<noteq> None"
    "ring_size (critical_queue r) = 512"
    using assms by (simp_all add: reactor_inv_def queue_inv_def ring_size_def)
  define xs where "xs = queue_list (critical_queue r)"
  define cl :: u64 where "cl = of_nat (length (filter (is_critical r) xs))"
  define nl :: u64 where "nl = of_nat (length (filter (\<lambda>cs. \<not> is_critical r cs) xs))"
  obtain r1 where r1: "fold (dispatch_queued env) xs (Inr (r, 0, 0)) = Inr (r1, cl, nl)"
    "dispatched r (map (queued_call r) xs) r1"
    using dispatch_queued_fold [OF inv(1,2,4), of env 0 0] by (auto simp: xs_def cl_def nl_def)
  obtain q where q: "drain_loop pop (dispatch_queued env) (critical_queue r) (Inr (r, 0, 0)) = Some (Inr (q, Inr (r1, cl, nl)))"
    "mpsc_inv q" "queue_list q = []" "ring_size q - 1 = 511" "dropped q = dropped (critical_queue r)"
    using mq.drain_all [OF inv(3), of "dispatch_queued env" "Inr (r, 0, 0)"] r1(1) inv(5) by (auto simp: xs_def)
  define l where "l = (if cl + nl > BACKPRESSURE_WARN_THRESHOLD then logs r1 @ [Backpressure (cl + nl)] else logs r1)"
  have "critical_processed r1 = critical_processed r" "normal_processed r1 = normal_processed r"
    using r1(2) by (auto simp: dispatched_def)
  then have "drain_queue env r = Some (Inr (r1\<lparr>critical_queue := q, critical_processed := critical_processed r + cl,
                         normal_processed := normal_processed r + nl,
                         critical_count_last := cl, normal_count_last := nl, logs := l\<rparr>))"
    using q(1) by (simp add: drain_queue_def finish_queue_def Let_def spdlog_def l_def)
  moreover have "Capacity q = 512"
    by (rule unsigned_word_eqI [where 'a = nat]) (use q(4) in \<open>simp add: ring_size_def\<close>)
  ultimately show ?thesis using r1(2) q(2,3,5) cl_def nl_def unfolding xs_def by blast
qed

text \<open>The frames a drain of the cache will hand out.\<close>

definition held_frames :: "env \<Rightarrow> 'cb reactor \<Rightarrow> sample list" where
  "held_frames env r = frames_of (slot_order env (background_cache r)) (view (background_cache r))"

lemma frames_of_mem:
  "f \<in> set (frames_of ord v) \<Longrightarrow> \<exists>k \<in> set ord. \<exists>s. v k = Some s \<and> has_data s \<and> f = (handler_hash s, payload s, put_time s)"
  by (induction ord) (auto simp: held_frame_def bind_eq_Some_conv split: option.splits if_splits)

lemma drain_background_spec:
  assumes "reactor_inv r" "env_ok env"
  shows "\<exists>r1 c. drain_background env r =
           Inr (r1\<lparr>background_cache := c, background_processed := background_processed r + of_nat (length (held_frames env r)),
                   last_bg_dropped := dropped_frames (view (background_cache r)),
                   background_dropped := background_dropped r + (dropped_frames (view (background_cache r)) - last_bg_dropped r)\<rparr>) \<and>
         dispatched r (map (frame_call r) (held_frames env r)) r1 \<and>
         cache_inv c \<and> slots c = slots (background_cache r) \<and>
         (\<forall>h. view c h = map_option emptied (view (background_cache r) h)) \<and>
         dropped_frames (view c) = dropped_frames (view (background_cache r))"
proof -
  define ord where "ord = slot_order env (background_cache r)"
  have inv: "handlers_inv r" "windows_inv r" "frames_inv r" "cache_inv (background_cache r)"
    using assms(1) by (simp_all add: reactor_inv_def frames_inv_def)
  have it: "iterates ord (background_cache r)" using assms(2) inv(4) by (simp add: env_ok_def ord_def)
  have "handler_index r hash \<noteq> None" if "(hash, data, t) \<in> set (held_frames env r)" for hash data t
  proof -
    from that obtain k s where "view (background_cache r) k = Some s" "has_data s" "hash = handler_hash s"
      by (auto simp: held_frames_def dest: frames_of_mem)
    with inv(3) show ?thesis unfolding frames_inv_def by metis
  qed
  then have "\<forall>(hash, data, t) \<in> set (held_frames env r). handler_index r hash \<noteq> None" by blast
  from dispatch_background_fold [OF inv(1,2) this, of env 0] obtain r1 where
    r1: "fold (\<lambda>(h, d, t). dispatch_background env h d t) (held_frames env r) (Inr (r, 0)) = Inr (r1, of_nat (length (held_frames env r)))"
    "dispatched r (map (frame_call r) (held_frames env r)) r1" by auto
  obtain c where c: "drain ord (dispatch_background env) (background_cache r) (Inr (r, 0)) =
      Inr (c, fold (\<lambda>(h, d, t). dispatch_background env h d t) (held_frames env r) (Inr (r, 0)))"
    "cache_inv c" "slots c = slots (background_cache r)" "\<And>h. view c h = map_option emptied (view (background_cache r) h)"
    "dropped_frames (view c) = dropped_frames (view (background_cache r))"
    unfolding held_frames_def ord_def [symmetric]
    by (rule drain_whole [OF inv(4) it, of "dispatch_background env" "Inr (r, 0)"]) blast
  have "iterates (slot_order env c) c" using assms(2) c(2) by (simp add: env_ok_def)
  from total_dropped_iterates [OF c(2) this]
  have d: "get_total_dropped (slot_order env c) c 0 = Inr (dropped_frames (view (background_cache r)))" by (simp add: c(5))
  have "background_processed r1 = background_processed r" "background_dropped r1 = background_dropped r" "last_bg_dropped r1 = last_bg_dropped r"
    using r1(2) by (auto simp: dispatched_def)
  then have "drain_background env r =
      Inr (r1\<lparr>background_cache := c, background_processed := background_processed r + of_nat (length (held_frames env r)),
              last_bg_dropped := dropped_frames (view (background_cache r)),
              background_dropped := background_dropped r + (dropped_frames (view (background_cache r)) - last_bg_dropped r)\<rparr>)"
    using c(1) r1(1) d by (simp add: drain_background_def count_background_def sync_background_drops_def Let_def ord_def)
  then show ?thesis using r1(2) c(2-5) by blast
qed

lemma arm_poll_shape: "\<exists>tr l. arm_poll_eventfd env r = r\<lparr>io_trace := tr, logs := l\<rparr>"
proof (cases "sqe_available env (io_trace r)")
  case True
  then show ?thesis
    by (intro exI [of _ "io_trace r @ [GetSqe, PollAdd (wakeup_fd r), SubmitRing]"] exI [of _ "logs r"])
       (simp add: arm_poll_eventfd_def Let_def io_def)
qed (auto simp: arm_poll_eventfd_def Let_def io_def spdlog_def)

lemma wait_events_shape: "\<exists>tr l. wait_events env r = r\<lparr>io_trace := tr, logs := l\<rparr>"
proof -
  obtain ret ud where w: "wait_result env (io_trace r) = (ret, ud)" by (cases "wait_result env (io_trace r)")
  have io: "\<exists>tr. io CqeSeen (if ud = 1 then io (EventfdRead (wakeup_fd (io WaitCqe r))) (io WaitCqe r) else io WaitCqe r) = r\<lparr>io_trace := tr\<rparr>"
    by (auto simp: io_def)
  then obtain tr0 where tr0: "io CqeSeen (if ud = 1 then io (EventfdRead (wakeup_fd (io WaitCqe r))) (io WaitCqe r) else io WaitCqe r) = r\<lparr>io_trace := tr0\<rparr>" ..
  obtain tr l where "arm_poll_eventfd env (r\<lparr>io_trace := tr0\<rparr>) = r\<lparr>io_trace := tr, logs := l\<rparr>"
    using arm_poll_shape [of env "r\<lparr>io_trace := tr0\<rparr>"] by auto
  then show ?thesis
  proof (cases "ret = 0")
    case True
    then show ?thesis using w tr0 \<open>arm_poll_eventfd env _ = _\<close> by (auto simp: wait_events_def Let_def)
  next
    case False
    then have "wait_events env r = r\<lparr>io_trace := io_trace r @ [WaitCqe], logs := logs r\<rparr>"
      using w by (simp add: wait_events_def Let_def io_def)
    then show ?thesis by blast
  qed
qed

lemma sync_shape:
  "\<exists>cd nd. sync_queue_drops r = r\<lparr>last_queue_dropped := dropped (critical_queue r), critical_dropped := cd, normal_dropped := nd\<rparr> \<and>
     cd + nd = critical_dropped r + normal_dropped r + (dropped (critical_queue r) - last_queue_dropped r)"
proof -
  define new where "new = dropped (critical_queue r) - last_queue_dropped r"
  define cycle where "cycle = critical_count_last r + normal_count_last r"
  define c where "c = (if new > 0 then if cycle > 0 then new * critical_count_last r div cycle else new else 0)"
  have "sync_queue_drops r = r\<lparr>last_queue_dropped := dropped (critical_queue r),
          critical_dropped := critical_dropped r + c, normal_dropped := normal_dropped r + (new - c)\<rparr>"
    unfolding sync_queue_drops_def charge_drops_def Let_def dropped_count_def c_def cycle_def new_def
    by (rule reactor.equality) (simp_all add: word_gt_0)
  moreover have "critical_dropped r + c + (normal_dropped r + (new - c)) = critical_dropped r + normal_dropped r + new"
    by simp
  ultimately show ?thesis unfolding new_def by blast
qed

lemma sync_inv [simp]: "reactor_inv (sync_queue_drops r) = reactor_inv r"
proof -
  obtain cd nd where "sync_queue_drops r =
      r\<lparr>last_queue_dropped := dropped (critical_queue r), critical_dropped := cd, normal_dropped := nd\<rparr>"
    using sync_shape by blast
  then show ?thesis by (simp add: reactor_invs)
qed

lemma frames_inv_drained:
  assumes "cache_inv (background_cache r')" "\<And>h. view (background_cache r') h = map_option emptied (view c h)"
  shows "frames_inv r'"
  using assms by (auto simp: frames_inv_def)

lemma handle_events_spec:
  assumes "reactor_inv r" "env_ok env"
  obtains r' where "handle_events env r = Some (Inr r')" "reactor_inv r'"
    "calls r' = calls r @ map (queued_call r) (queue_list (critical_queue r)) @ map (frame_call r) (held_frames env r)"
    "queue_list (critical_queue r') = []" "dropped (critical_queue r') = dropped (critical_queue r)"
    "slots (background_cache r') = slots (background_cache r)"
    "\<And>h. view (background_cache r') h = map_option emptied (view (background_cache r) h)"
    "dropped_frames (view (background_cache r')) = dropped_frames (view (background_cache r))"
    "handlers r' = handlers r" "handler_index r' = handler_index r" "contexts r' = contexts r" "wakeup_fd r' = wakeup_fd r"
    "running r' = running r" "session_last_seen r' = session_last_seen r"
    "critical_processed r' = critical_processed r + of_nat (length (filter (is_critical r) (queue_list (critical_queue r))))"
    "normal_processed r' = normal_processed r + of_nat (length (filter (\<lambda>cs. \<not> is_critical r cs) (queue_list (critical_queue r))))"
    "background_processed r' = background_processed r + of_nat (length (held_frames env r))"
    "critical_count_last r' = of_nat (length (filter (is_critical r) (queue_list (critical_queue r))))"
    "normal_count_last r' = of_nat (length (filter (\<lambda>cs. \<not> is_critical r cs) (queue_list (critical_queue r))))"
    "critical_dropped r' = critical_dropped (sync_queue_drops r)" "normal_dropped r' = normal_dropped (sync_queue_drops r)"
    "last_queue_dropped r' = dropped (critical_queue r)"
    "last_bg_dropped r' = dropped_frames (view (background_cache r))"
    "background_dropped r' = background_dropped r + (dropped_frames (view (background_cache r)) - last_bg_dropped r)"
    "\<exists>r2. r' = wait_events env r2 \<and> io_trace r2 = io_trace r \<and> wakeup_fd r2 = wakeup_fd r"
proof -
  define s where "s = sync_queue_drops r"
  obtain cd nd where s: "s = r\<lparr>last_queue_dropped := dropped (critical_queue r), critical_dropped := cd, normal_dropped := nd\<rparr>"
    using sync_shape unfolding s_def by blast
  have same: "queued_call s = queued_call r" "is_critical s = is_critical r" "target s = target r"
    by (simp_all add: queued_call_def is_critical_def target_def s fun_eq_iff)
  have sf: "critical_queue s = critical_queue r" "critical_processed s = critical_processed r" "normal_processed s = normal_processed r"
    by (simp_all add: s)
  have inv_s: "reactor_inv s" using assms(1) by (simp add: s_def)
  obtain r1 q l cl nl where q: "drain_queue env s = Some (Inr (r1\<lparr>critical_queue := q, critical_processed := critical_processed r + cl,
        normal_processed := normal_processed r + nl, critical_count_last := cl, normal_count_last := nl, logs := l\<rparr>))"
    and d1: "dispatched s (map (queued_call r) (queue_list (critical_queue r))) r1"
    and cl: "cl = of_nat (length (filter (is_critical r) (queue_list (critical_queue r))))"
      "nl = of_nat (length (filter (\<lambda>cs. \<not> is_critical r cs) (queue_list (critical_queue r))))"
    and mq: "mpsc_inv q" "queue_list q = []" "Capacity q = 512" "dropped q = dropped (critical_queue r)"
    using drain_queue_spec [OF inv_s, of env] unfolding same sf by blast
  define r1' where "r1' = r1\<lparr>critical_queue := q, critical_processed := critical_processed r + cl,
        normal_processed := normal_processed r + nl, critical_count_last := cl, normal_count_last := nl, logs := l\<rparr>"
  obtain n1 cl1 nl1 bl1 where r1: "r1 = s\<lparr>clock_reads := n1, critical_latencies := cl1, normal_latencies := nl1,
      background_latencies := bl1, calls := calls r @ map (queued_call r) (queue_list (critical_queue r))\<rparr>" "windows_inv r1"
    using d1 by (auto simp: dispatched_def s)
  have inv1: "reactor_inv r1'"
  proof -
    have "handlers_inv r1' = handlers_inv r" "frames_inv r1' = frames_inv r" "windows_inv r1' = windows_inv r1"
      by (simp_all add: handlers_inv_def frames_inv_def windows_inv_def r1'_def, simp_all add: r1(1) s)
    moreover have "queue_inv r1'" using mq by (simp add: queue_inv_def r1'_def)
    ultimately show ?thesis using assms(1) r1(2) by (simp add: reactor_inv_def)
  qed
  have same': "held_frames env r1' = held_frames env r" "frame_call r1' = frame_call r"
    by (simp_all add: held_frames_def frame_call_def target_def r1'_def r1(1) s fun_eq_iff)
  have cache: "background_cache r1' = background_cache r" by (simp add: r1'_def r1(1) s)
  obtain r2 c where b: "drain_background env r1' =
      Inr (r2\<lparr>background_cache := c, background_processed := background_processed r1' + of_nat (length (held_frames env r)),
              last_bg_dropped := dropped_frames (view (background_cache r)),
              background_dropped := background_dropped r1' + (dropped_frames (view (background_cache r)) - last_bg_dropped r1')\<rparr>)"
    and d2: "dispatched r1' (map (frame_call r) (held_frames env r)) r2"
    and c: "cache_inv c" "slots c = slots (background_cache r)" "\<forall>h. view c h = map_option emptied (view (background_cache r) h)"
      "dropped_frames (view c) = dropped_frames (view (background_cache r))"
    using drain_background_spec [OF inv1 assms(2)] unfolding same' cache by blast
  define r2' where "r2' = r2\<lparr>background_cache := c, background_processed := background_processed r1' + of_nat (length (held_frames env r)),
              last_bg_dropped := dropped_frames (view (background_cache r)),
              background_dropped := background_dropped r1' + (dropped_frames (view (background_cache r)) - last_bg_dropped r1')\<rparr>"
  obtain n2 cl2 nl2 bl2 where r2: "r2 = r1'\<lparr>clock_reads := n2, critical_latencies := cl2, normal_latencies := nl2,
      background_latencies := bl2, calls := calls r1' @ map (frame_call r) (held_frames env r)\<rparr>" "windows_inv r2"
    using d2 by (auto simp: dispatched_def)
  have "frames_inv r2'" by (rule frames_inv_drained [of _ "background_cache r"]) (simp_all add: r2'_def c)
  moreover have "handlers_inv r2' = handlers_inv r1'" "queue_inv r2' = queue_inv r1'" "windows_inv r2' = windows_inv r2"
    by (simp_all add: handlers_inv_def queue_inv_def windows_inv_def r2'_def, simp_all add: r2(1))
  then have "handlers_inv r2'" "queue_inv r2'" "windows_inv r2'"
    using inv1 r2(2) by (simp_all add: reactor_inv_def)
  ultimately have inv2: "reactor_inv r2'" by (simp add: reactor_inv_def)
  obtain tr l2 where w: "wait_events env r2' = r2'\<lparr>io_trace := tr, logs := l2\<rparr>" using wait_events_shape by blast
  have "handle_events env r = Some (Inr (r2'\<lparr>io_trace := tr, logs := l2\<rparr>))"
    using q b by (simp add: handle_events_def s_def [symmetric] r1'_def [symmetric] r2'_def [symmetric] w)
  moreover have "reactor_inv (r2'\<lparr>io_trace := tr, logs := l2\<rparr>)" using inv2 by simp
  moreover have "\<exists>r2. r2'\<lparr>io_trace := tr, logs := l2\<rparr> = wait_events env r2 \<and> io_trace r2 = io_trace r \<and> wakeup_fd r2 = wakeup_fd r"
    by (rule exI [of _ r2']) (simp add: w, simp add: r2'_def r2(1) r1'_def r1(1) s)
  ultimately show thesis
    by (intro that [of "r2'\<lparr>io_trace := tr, logs := l2\<rparr>"]) (use c mq in \<open>simp_all add: r2'_def r2(1) r1'_def r1(1) s_def [symmetric] cl s\<close>)
qed

subsection \<open>An environment for the witnesses\<close>

text \<open>Every message verifies, the clock ticks once a microsecond, the map iterates in key order.\<close>

definition sample_env :: env where
  "sample_env =
     \<lparr>verify_message = (\<lambda>b. True), build_estop = (\<lambda>t reason. map (\<lambda>c. of_nat (of_char c)) reason),
      steady_clock = (\<lambda>n. int n * 1000), slot_order = (\<lambda>c. sorted_list_of_set (dom (slots c))),
      keyexpr_valid = (\<lambda>k. k \<noteq> ''''), subscribe_ok = (\<lambda>tr k. True), sqe_available = (\<lambda>tr. True),
      wait_result = (\<lambda>tr. (- 62, 0))\<rparr>"

lemma sample_env_ok: "env_ok sample_env"
  by (simp add: env_ok_def sample_env_def iterates_def cache_inv_def)

definition two_topics :: "nat reactor" where
  "two_topics = register_handler ''b'' BACKGROUND 2 (register_handler ''a'' CRITICAL 1 (reactor_new ''l'' 5 0))"

lemma two_topics_inv: "reactor_inv two_topics"
  unfolding two_topics_def by (intro register_handler_inv reactor_new_inv)

lemma two_topics_fields:
  "handlers two_topics = [\<lparr>path = ''a'', path_hash = fnv1a_hash ''a'', priority = CRITICAL, callback = 1\<rparr>,
                          \<lparr>path = ''b'', path_hash = fnv1a_hash ''b'', priority = BACKGROUND, callback = 2\<rparr>]"
  "wakeup_fd two_topics = 5" "queue_list (critical_queue two_topics) = []" "background_cache two_topics = cache_new"
  "io_trace two_topics = []" "calls two_topics = []" "last_queue_dropped two_topics = 0"
  "dropped (critical_queue two_topics) = 0"
proof -
  have "queue_list (mpsc_new 512 :: CriticalSample mpsc_queue) = []"
    using mpsc_new_inv [of 9, where 'a = CriticalSample] by simp
  then show "queue_list (critical_queue two_topics) = []"
    by (simp add: two_topics_def register_handler_def reactor_new_def Let_def)
qed (simp_all add: two_topics_def register_handler_def reactor_new_def Let_def mpsc_new_def)

lemma two_topics_ctx:
  "ctx_ok two_topics \<lparr>ctx_handler_hash = fnv1a_hash ''a'', ctx_priority = CRITICAL, ctx_wakeup_fd = 5\<rparr>"
  by (simp add: ctx_ok_def two_topics_fields)

subsection \<open>Properties\<close>

text \<open>
  Whatever is registered, in whatever order and however often, the index leads every
  hash to the first handler registered with it, never outside the handler table, and the
  reactor's invariant holds.
\<close>

theorem registration_index:
  "reactor_inv (fold (\<lambda>(p, prio, cb). register_handler p prio cb) regs (reactor_new lkey fd start)) \<and>
   map path (handlers (fold (\<lambda>(p, prio, cb). register_handler p prio cb) regs (reactor_new lkey fd start))) = map fst regs \<and>
   (\<forall>hash i. handler_index (fold (\<lambda>(p, prio, cb). register_handler p prio cb) regs (reactor_new lkey fd start)) hash = Some i \<longleftrightarrow>
      i < length regs \<and> fnv1a_hash (fst (regs ! i)) = hash \<and> (\<forall>j < i. fnv1a_hash (fst (regs ! j)) \<noteq> hash))"
proof -
  define r where "r = fold (\<lambda>(p, prio, cb). register_handler p prio cb) regs (reactor_new lkey fd start)"
  have "reactor_inv (fold (\<lambda>(p, prio, cb). register_handler p prio cb) regs s) \<and>
        map path (handlers (fold (\<lambda>(p, prio, cb). register_handler p prio cb) regs s)) = map path (handlers s) @ map fst regs"
    if "reactor_inv s" for s :: "'a reactor"
    using that
  proof (induction regs arbitrary: s)
    case (Cons reg regs)
    then show ?case
      using Cons.IH [of "register_handler (fst reg) (fst (snd reg)) (snd (snd reg)) s"]
      by (simp add: register_handler_inv case_prod_unfold) (simp add: register_handler_def Let_def)
  qed simp
  from this [OF reactor_new_inv] have r: "reactor_inv r" "map path (handlers r) = map fst regs"
    by (simp_all add: r_def reactor_new_def)
  then have hs: "handlers_inv r" by (simp add: reactor_inv_def)
  have len: "length (handlers r) = length regs" using r(2) by (metis length_map)
  have hash: "path_hash (handlers r ! i) = fnv1a_hash (fst (regs ! i))" if "i < length regs" for i
  proof -
    have "handlers r ! i \<in> set (handlers r)" using that len by simp
    then have "path_hash (handlers r ! i) = fnv1a_hash (path (handlers r ! i))" using hs by (simp add: handlers_inv_def)
    also have "path (handlers r ! i) = map path (handlers r) ! i" using that len by simp
    finally show ?thesis using that by (simp add: r(2))
  qed
  have "handler_index r h = Some i \<longleftrightarrow>
      i < length regs \<and> fnv1a_hash (fst (regs ! i)) = h \<and> (\<forall>j < i. fnv1a_hash (fst (regs ! j)) \<noteq> h)" for h i
  proof
    assume "handler_index r h = Some i"
    then have "first_index h (handlers r) = Some i" using hs by (simp add: handlers_inv_def)
    from first_index_Some [OF this] show "i < length regs \<and> fnv1a_hash (fst (regs ! i)) = h \<and> (\<forall>j < i. fnv1a_hash (fst (regs ! j)) \<noteq> h)"
      using hash by (auto simp: len)
  next
    assume i: "i < length regs \<and> fnv1a_hash (fst (regs ! i)) = h \<and> (\<forall>j < i. fnv1a_hash (fst (regs ! j)) \<noteq> h)"
    then have "h \<in> path_hash ` set (handlers r)" using hash len by (metis image_eqI nth_mem)
    then obtain k where k: "first_index h (handlers r) = Some k" using first_index_None by fastforce
    from first_index_Some [OF this] i hash have "k = i" unfolding len by (metis linorder_neqE_nat order_less_trans)
    then show "handler_index r h = Some i" using hs k by (simp add: handlers_inv_def)
  qed
  with r show ?thesis unfolding r_def by blast
qed

theorem registration_index_witness:
  "handler_index (fold (\<lambda>(p, prio, cb). register_handler p prio cb)
     [(''a'', CRITICAL, 1 :: nat), (''b'', NORMAL, 2), (''a'', BACKGROUND, 3)] (reactor_new ''l'' 5 0)) (fnv1a_hash ''a'') = Some 0"
  using registration_index [of "[(''a'', CRITICAL, 1 :: nat), (''b'', NORMAL, 2), (''a'', BACKGROUND, 3)]" "''l''" 5 0] by simp

text \<open>
  A second registration of a path gets a subscription of its own but is never called:
  the frames of the path still go to the handler that was there, whatever the priorities.
\<close>

theorem duplicate_registration_shadowed:
  assumes "reactor_inv r" "p \<in> path ` set (handlers r)"
  shows "length (handlers (register_handler p prio cb r)) = length (handlers r) + 1 \<and>
         handler_index (register_handler p prio cb r) = handler_index r \<and>
         target (register_handler p prio cb r) (fnv1a_hash p) = target r (fnv1a_hash p)"
proof -
  have hs: "handlers_inv r" using assms(1) by (simp add: reactor_inv_def)
  then have "fnv1a_hash p \<in> path_hash ` set (handlers r)" using assms(2) by (auto simp: handlers_inv_def)
  then obtain i where i: "handler_index r (fnv1a_hash p) = Some i"
    using hs first_index_None [of "fnv1a_hash p" "handlers r"] by (auto simp: handlers_inv_def)
  then show ?thesis
    using handler_index_valid(1) [OF hs i] by (simp add: register_handler_def Let_def target_def nth_append)
qed

theorem duplicate_registration_shadowed_witness:
  "callback (target (register_handler ''a'' NORMAL 9 two_topics) (fnv1a_hash ''a'')) = 1"
  using duplicate_registration_shadowed [OF two_topics_inv, of "''a''" NORMAL 9]
  by (simp add: two_topics_fields) (simp add: target_def two_topics_def register_handler_def reactor_new_def Let_def)

text \<open>
  C21. The receive callback on every branch: it never faults and calls no handler; a sample
  that is empty or fails verification changes nothing; a CRITICAL or NORMAL sample is
  appended to the queue unless 511 wait there, in which case it is counted and lost, and
  only an accepted CRITICAL one writes the eventfd; a BACKGROUND sample replaces the frame
  its topic's slot holds and leaves the queue alone.
\<close>

theorem callback_routes:
  assumes "reactor_inv r" "ctx_ok r ctx"
  shows "\<exists>r'. zenoh_data_callback env ctx smp r = Inr r' \<and> reactor_inv r' \<and> calls r' = calls r \<and> handlers r' = handlers r \<and>
     (if \<not> admissible env smp then r' = r
      else if ctx_priority ctx \<noteq> BACKGROUND
      then background_cache r' = background_cache r \<and>
           (if length (queue_list (critical_queue r)) < 511
            then (\<exists>t. queue_list (critical_queue r') = queue_list (critical_queue r) @
                    [\<lparr>cs_handler_hash = ctx_handler_hash ctx, cs_payload = z_payload smp, enqueue_time = t\<rparr>]) \<and>
                 dropped (critical_queue r') = dropped (critical_queue r) \<and>
                 io_trace r' = io_trace r @ (if ctx_priority ctx = CRITICAL then [EventfdWrite (wakeup_fd r)] else [])
            else queue_list (critical_queue r') = queue_list (critical_queue r) \<and>
                 dropped (critical_queue r') = dropped (critical_queue r) + 1 \<and> io_trace r' = io_trace r)
      else critical_queue r' = critical_queue r \<and> io_trace r' = io_trace r \<and>
           (case view (background_cache r) (ctx_handler_hash ctx) of
              None \<Rightarrow> background_cache r' = background_cache r
            | Some s \<Rightarrow> (\<exists>t. view (background_cache r') = (view (background_cache r))
                 (ctx_handler_hash ctx \<mapsto> put (ctx_handler_hash ctx) (z_payload smp) t s))))"
proof (cases "admissible env smp")
  case False
  then show ?thesis using assms callback_discard [OF False] by simp
next
  case True
  show ?thesis
  proof (cases "ctx_priority ctx = BACKGROUND")
    case False
    from assms True this show ?thesis
    proof (cases rule: callback_queue)
      case (accept n m q t tr)
      then show ?thesis using True False by auto
    next
      case (reject n m q l)
      then show ?thesis using True False by auto
    qed
  next
    case bg: True
    from assms True this show ?thesis
    proof (cases rule: callback_background)
      case (no_slot n m)
      moreover have "view (background_cache r) (ctx_handler_hash ctx) = None"
        using no_slot(2) by (simp add: view_def)
      ultimately show ?thesis using True bg assms(1) by auto
    next
      case (stored n m c s t)
      then show ?thesis using True bg by auto
    qed
  qed
qed

theorem callback_routes_witness:
  "\<exists>r'. zenoh_data_callback sample_env \<lparr>ctx_handler_hash = fnv1a_hash ''a'', ctx_priority = CRITICAL, ctx_wakeup_fd = 5\<rparr>
          \<lparr>z_keyexpr = ''robot/1/estop'', z_payload = [1, 2], z_delete = False\<rparr> two_topics = Inr r' \<and>
        map cs_payload (queue_list (critical_queue r')) = [[1, 2]] \<and> io_trace r' = [EventfdWrite 5]"
proof -
  have adm: "admissible sample_env \<lparr>z_keyexpr = ''robot/1/estop'', z_payload = [1, 2], z_delete = False\<rparr>"
    by (simp add: admissible_def sample_env_def)
  show ?thesis
    using callback_routes [OF two_topics_inv two_topics_ctx, of sample_env
        "\<lparr>z_keyexpr = ''robot/1/estop'', z_payload = [1, 2], z_delete = False\<rparr>"] adm
    by (auto simp: two_topics_fields)
qed

text \<open>
  C16. One pass of the loop ends, never faults, keeps the invariant, and calls exactly the
  handlers of the queued samples in the order they were queued, followed by those of the
  held BACKGROUND frames; afterwards the queue and every slot are empty. Each of the three
  counters has grown by the number of calls of handlers in its channel: a queued sample
  counts as CRITICAL when its handler is and as NORMAL otherwise.
\<close>

theorem handle_events_dispatches:
  assumes "reactor_inv r" "env_ok env"
  shows "\<exists>r'. handle_events env r = Some (Inr r') \<and> reactor_inv r' \<and>
     calls r' = calls r @ map (queued_call r) (queue_list (critical_queue r)) @ map (frame_call r) (held_frames env r) \<and>
     queue_list (critical_queue r') = [] \<and> held_frames env r' = [] \<and>
     critical_processed r' = critical_processed r +
       of_nat (length (filter (\<lambda>cs. priority (target r (cs_handler_hash cs)) = CRITICAL) (queue_list (critical_queue r)))) \<and>
     normal_processed r' = normal_processed r +
       of_nat (length (filter (\<lambda>cs. priority (target r (cs_handler_hash cs)) \<noteq> CRITICAL) (queue_list (critical_queue r)))) \<and>
     background_processed r' = background_processed r + of_nat (length (held_frames env r))"
proof (rule handle_events_spec [OF assms])
  fix r'
  assume r': "handle_events env r = Some (Inr r')" "reactor_inv r'"
    "calls r' = calls r @ map (queued_call r) (queue_list (critical_queue r)) @ map (frame_call r) (held_frames env r)"
    "queue_list (critical_queue r') = []"
    "\<And>h. view (background_cache r') h = map_option emptied (view (background_cache r) h)"
    "critical_processed r' = critical_processed r + of_nat (length (filter (is_critical r) (queue_list (critical_queue r))))"
    "normal_processed r' = normal_processed r + of_nat (length (filter (\<lambda>cs. \<not> is_critical r cs) (queue_list (critical_queue r))))"
    "background_processed r' = background_processed r + of_nat (length (held_frames env r))"
  have "held_frames env r' = []"
  proof (rule ccontr)
    assume "held_frames env r' \<noteq> []"
    then have "hd (held_frames env r') \<in> set (held_frames env r')" by simp
    then obtain k s where "view (background_cache r') k = Some s" "has_data s"
      unfolding held_frames_def using frames_of_mem by blast
    then show False using r'(5) [of k] by auto
  qed
  moreover have "is_critical r = (\<lambda>cs. priority (target r (cs_handler_hash cs)) = CRITICAL)"
    by (intro ext) (simp add: is_critical_def)
  ultimately show ?thesis using r' by auto
qed

text \<open>A CRITICAL sample is queued, and a frame of the BACKGROUND topic held.\<close>

lemma busy_two_topics:
  "\<exists>r. reactor_inv r \<and> handlers r = handlers two_topics \<and> calls r = [] \<and>
     (\<exists>t. queue_list (critical_queue r) = [\<lparr>cs_handler_hash = fnv1a_hash ''a'', cs_payload = [1, 2], enqueue_time = t\<rparr>]) \<and>
     (\<exists>t. held_frames sample_env r = [(fnv1a_hash ''b'', [9], t)])"
proof -
  let ?k = "fnv1a_hash ''b''"
  let ?bctx = "\<lparr>ctx_handler_hash = ?k, ctx_priority = BACKGROUND, ctx_wakeup_fd = 5\<rparr>"
  let ?actx = "\<lparr>ctx_handler_hash = fnv1a_hash ''a'', ctx_priority = CRITICAL, ctx_wakeup_fd = 5\<rparr>"
  let ?smp = "\<lambda>b. \<lparr>z_keyexpr = ''b'', z_payload = b, z_delete = False\<rparr>"
  define r0 where "r0 = two_topics\<lparr>background_cache := pre_allocate ?k cache_new\<rparr>"
  have c0: "cache_inv (pre_allocate ?k cache_new)" by (rule pre_allocate_inv) simp
  have v0: "view (background_cache r0) = [?k \<mapsto> slot_new]" "dom (slots (background_cache r0)) = {?k}"
    by (auto simp: r0_def pre_allocate_view [OF cache_new_inv(1)] pre_allocate_slots [OF cache_new_inv(1)] dom_def split: if_splits)
  have i0: "reactor_inv r0"
    using two_topics_inv c0 v0(1) by (simp add: r0_def reactor_invs slot_new_def two_topics_fields(3) split: if_splits)
  have adm: "admissible sample_env (?smp [9])" "admissible sample_env (?smp [1, 2])" by (simp_all add: admissible_def sample_env_def)
  have bctx: "ctx_ok r0 ?bctx" "ctx_priority ?bctx = BACKGROUND" by (simp_all add: r0_def ctx_ok_def two_topics_fields)
  from i0 bctx(1) adm(1) bctx(2) obtain r1 where r1: "reactor_inv r1" "handlers r1 = handlers two_topics" "calls r1 = []" "wakeup_fd r1 = 5"
    "queue_list (critical_queue r1) = []" "\<exists>t. view (background_cache r1) = [?k \<mapsto> put ?k [9] t slot_new]"
    "slots (background_cache r1) = slots (background_cache r0)"
  proof (cases rule: callback_background)
    case (no_slot n m)
    with v0(2) show ?thesis by auto
  next
    case (stored n m c s t)
    then show ?thesis using v0(1) by (intro that [OF stored(2)]) (auto simp: r0_def two_topics_fields)
  qed
  have actx: "ctx_ok r1 ?actx" "ctx_priority ?actx \<noteq> BACKGROUND"
    by (simp_all add: ctx_ok_def r1(2,4)) (simp add: two_topics_fields)
  from r1(1) actx(1) adm(2) actx(2) show ?thesis
  proof (cases rule: callback_queue)
    case (accept n m q t tr)
    let ?r2 = "r1\<lparr>clock_reads := n, session_last_seen := m, critical_queue := q, io_trace := tr\<rparr>"
    obtain t' where "view (background_cache r1) = [?k \<mapsto> put ?k [9] t' slot_new]" using r1(6) by blast
    then have "held_frames sample_env ?r2 = [(?k, [9], t')]"
      using v0(2) r1(7) by (simp add: held_frames_def sample_env_def held_frame_def)
    then show ?thesis using accept(2,4) r1 by (intro exI [of _ ?r2]) simp
  next
    case (reject n m q l)
    then show ?thesis using r1(5) by simp
  qed
qed

theorem handle_events_dispatches_witness:
  "\<exists>r r'. reactor_inv r \<and> handlers r = handlers two_topics \<and> handle_events sample_env r = Some (Inr r') \<and>
     calls r' = [(1, [1, 2]), (2, [9])] \<and> critical_processed r' = critical_processed r + 1 \<and>
     normal_processed r' = normal_processed r \<and> background_processed r' = background_processed r + 1"
proof -
  obtain r t t' where r: "reactor_inv r" "handlers r = handlers two_topics" "calls r = []"
    "queue_list (critical_queue r) = [\<lparr>cs_handler_hash = fnv1a_hash ''a'', cs_payload = [1, 2], enqueue_time = t\<rparr>]"
    "held_frames sample_env r = [(fnv1a_hash ''b'', [9], t')]"
    using busy_two_topics by blast
  have ne: "fnv1a_hash ''a'' \<noteq> fnv1a_hash ''b''" by code_simp
  have t: "target r (fnv1a_hash ''a'') = \<lparr>path = ''a'', path_hash = fnv1a_hash ''a'', priority = CRITICAL, callback = 1\<rparr>"
    "target r (fnv1a_hash ''b'') = \<lparr>path = ''b'', path_hash = fnv1a_hash ''b'', priority = BACKGROUND, callback = 2\<rparr>"
    using r(1,2) ne by (simp_all add: target_def reactor_invs two_topics_fields)
  obtain r' where r': "handle_events sample_env r = Some (Inr r')" "calls r' = [(1, [1, 2]), (2, [9])]"
    "critical_processed r' = critical_processed r + 1" "normal_processed r' = normal_processed r"
    "background_processed r' = background_processed r + 1"
    using handle_events_dispatches [OF r(1) sample_env_ok] r t by (auto simp: queued_call_def frame_call_def)
  show ?thesis by (rule exI [of _ r], rule exI [of _ r']) (use r' r(1,2) in simp)
qed

end
