(* ===== verification/Reactor_Accounting.thy ===== *)
theory Reactor_Accounting
  imports Reactor
begin

text \<open>
  What the reactor's counters mean: how the queue's drop counter is split over the CRITICAL
  and NORMAL channels, what a reset does, where a CRITICAL sample stands behind NORMAL
  ones, and the accounting of every frame over a whole run of interleaved receive callbacks
  and loop passes.
\<close>

subsection \<open>Splitting the drop counter\<close>

lemma unat_mult_div_u64:
  fixes a b c :: u64
  assumes "unat a * unat b < 2 ^ 64"
  shows "unat (a * b div c) = unat a * unat b div unat c"
proof -
  have "unat (a * b) = unat a * unat b" using assms by (simp add: unat_word_ariths)
  then show ?thesis by (simp add: unat_div)
qed

lemma unat_plus_u64: "unat (a :: u64) + unat b < 2 ^ 64 \<Longrightarrow> unat (a + b) = unat a + unat b"
  by (simp add: unat_word_ariths)

text \<open>
  New drops of the shared queue are charged to the two channels without loss or gain,
  in proportion to the last pass's CRITICAL and NORMAL counts (rounded down for CRITICAL)
  as long as the product fits 64 bits; when the last pass dispatched nothing, all of them
  are charged to CRITICAL, whatever was dropped.
\<close>

theorem drop_split:
  assumes "new = dropped (critical_queue r) - last_queue_dropped r"
    and "c = critical_count_last r" and "n = normal_count_last r"
    and "unat new * unat c < 2 ^ 64" and "unat c + unat n < 2 ^ 64"
    and "r' = sync_queue_drops r"
  shows "critical_dropped r' + normal_dropped r' = critical_dropped r + normal_dropped r + new \<and>
         last_queue_dropped r' = dropped (critical_queue r) \<and>
         unat (critical_dropped r' - critical_dropped r) =
           (if unat c + unat n = 0 then unat new else unat new * unat c div (unat c + unat n)) \<and>
         unat (critical_dropped r' - critical_dropped r) + unat (normal_dropped r' - normal_dropped r) = unat new"
proof -
  define d where "d = (if unat c + unat n = 0 then new else new * c div (c + n))"
  have sum: "unat (c + n) = unat c + unat n" using assms(5) by (rule unat_plus_u64)
  then have zero: "c + n = 0 \<longleftrightarrow> unat c + unat n = 0" by (metis unat_eq_0)
  have d: "unat d = (if unat c + unat n = 0 then unat new else unat new * unat c div (unat c + unat n))"
    using unat_mult_div_u64 [OF assms(4), of "c + n"] by (simp add: d_def sum)
  have "unat new * unat c div (unat c + unat n) \<le> unat new" if "unat c + unat n \<noteq> 0"
  proof -
    have "unat new * unat c div (unat c + unat n) \<le> unat new * (unat c + unat n) div (unat c + unat n)"
      by (intro div_le_mono mult_le_mono2) simp
    then show ?thesis using that by (auto split: if_splits)
  qed
  then have le: "unat d \<le> unat new" using d by simp
  have r': "critical_dropped r' = critical_dropped r + d" "normal_dropped r' = normal_dropped r + (new - d)"
    "last_queue_dropped r' = dropped (critical_queue r)"
    unfolding assms(6) sync_queue_drops_def charge_drops_def Let_def dropped_count_def assms(1-3) [symmetric]
    using zero by (auto simp: d_def word_gt_0 assms(2,3) [symmetric])
  have "unat (new - d) = unat new - unat d" using le by (simp add: unat_sub word_le_nat_alt)
  with le have "unat d + unat (new - d) = unat new" by simp
  moreover have "critical_dropped r' + normal_dropped r' = critical_dropped r + normal_dropped r + new" by (simp add: r')
  ultimately show ?thesis using d r' by simp
qed

theorem drop_split_witness:
  "unat (critical_dropped (sync_queue_drops (two_topics\<lparr>critical_queue := (mpsc_new 512)\<lparr>dropped := 7\<rparr>, normal_count_last := 0\<rparr>)) - 0) = 7"
  using drop_split [of 7 "two_topics\<lparr>critical_queue := (mpsc_new 512)\<lparr>dropped := 7\<rparr>, normal_count_last := 0\<rparr>" 0 0, OF _ _ _ _ _ refl]
  by (simp add: two_topics_def register_handler_def reactor_new_def Let_def)

subsection \<open>CRITICAL behind NORMAL\<close>

lemma callback_keeps_cache_frames:
  assumes "background_cache r' = background_cache r" "handlers r' = handlers r" "handler_index r' = handler_index r"
  shows "held_frames env r' = held_frames env r" "frame_call r' = frame_call r" "queued_call r' = queued_call r"
  using assms by (simp_all add: held_frames_def frame_call_def queued_call_def target_def fun_eq_iff)

text \<open>
  C30. CRITICAL samples have no lane of their own: an accepted one is handled after every
  NORMAL sample that was queued before it, and when 511 samples of any priority wait, it is
  lost, counted as a drop, and nobody is woken.
\<close>

theorem critical_waits_in_line:
  assumes "reactor_inv r" "env_ok env" "ctx_ok r ctx" "admissible env smp" "ctx_priority ctx = CRITICAL"
  shows "\<exists>r'. zenoh_data_callback env ctx smp r = Inr r' \<and>
     (if length (queue_list (critical_queue r)) < 511
      then \<exists>r''. handle_events env r' = Some (Inr r'') \<and>
             calls r'' = calls r @ map (queued_call r) (queue_list (critical_queue r)) @
                         [(callback (target r (ctx_handler_hash ctx)), z_payload smp)] @
                         map (frame_call r) (held_frames env r)
      else queue_list (critical_queue r') = queue_list (critical_queue r) \<and>
           dropped (critical_queue r') = dropped (critical_queue r) + 1 \<and> io_trace r' = io_trace r)"
proof -
  have prio: "ctx_priority ctx \<noteq> BACKGROUND" using assms(5) by simp
  from assms(1,3,4) prio show ?thesis
  proof (cases rule: callback_queue)
    case (accept n m q t tr)
    let ?r = "r\<lparr>clock_reads := n, session_last_seen := m, critical_queue := q, io_trace := tr\<rparr>"
    have same: "held_frames env ?r = held_frames env r" "frame_call ?r = frame_call r" "queued_call ?r = queued_call r"
      by (rule callback_keeps_cache_frames; simp)+
    obtain r'' where "handle_events env ?r = Some (Inr r'')"
      "calls r'' = calls ?r @ map (queued_call ?r) (queue_list (critical_queue ?r)) @ map (frame_call ?r) (held_frames env ?r)"
      by (rule handle_events_spec [OF accept(2) assms(2)])
    then show ?thesis using accept unfolding same by (auto simp: queued_call_def)
  next
    case (reject n m q l)
    then show ?thesis by auto
  qed
qed

theorem critical_waits_in_line_witness:
  "\<exists>r' r''. zenoh_data_callback sample_env \<lparr>ctx_handler_hash = fnv1a_hash ''a'', ctx_priority = CRITICAL, ctx_wakeup_fd = 5\<rparr>
          \<lparr>z_keyexpr = ''robot/1/estop'', z_payload = [1, 2], z_delete = False\<rparr> two_topics = Inr r' \<and>
        handle_events sample_env r' = Some (Inr r'') \<and> map snd (calls r'') = [[1, 2]]"
proof -
  have adm: "admissible sample_env \<lparr>z_keyexpr = ''robot/1/estop'', z_payload = [1, 2], z_delete = False\<rparr>"
    by (simp add: admissible_def sample_env_def)
  have "held_frames sample_env two_topics = []"
    by (simp add: held_frames_def two_topics_fields sample_env_def)
  then show ?thesis
    using critical_waits_in_line [OF two_topics_inv sample_env_ok two_topics_ctx adm]
    by (auto simp: two_topics_fields)
qed

subsection \<open>Reset\<close>

text \<open>The state a reset leaves.\<close>

definition cleared :: "'cb reactor \<Rightarrow> 'cb reactor" where
  "cleared r =
     r\<lparr>critical_processed := 0, critical_dropped := 0, normal_processed := 0, normal_dropped := 0,
       background_processed := 0, background_dropped := 0,
       last_queue_dropped := dropped (critical_queue r), last_bg_dropped := dropped_frames (view (background_cache r)),
       critical_count_last := 0, normal_count_last := 0,
       critical_latencies := [], normal_latencies := [], background_latencies := []\<rparr>"

lemma reset_spec:
  assumes "reactor_inv r" "env_ok env"
  shows "reset_stats env r = Inr (cleared r)" "reactor_inv (cleared r)"
proof -
  have c: "cache_inv (background_cache r)" using assms(1) by (simp add: reactor_inv_def frames_inv_def)
  then have "iterates (slot_order env (background_cache r)) (background_cache r)" using assms(2) by (simp add: env_ok_def)
  from total_dropped_iterates [OF c this] show "reset_stats env r = Inr (cleared r)"
    by (simp add: reset_stats_def zero_counters_def clear_rest_def Let_def dropped_count_def cleared_def)
  have "handlers_inv (cleared r) = handlers_inv r" "queue_inv (cleared r) = queue_inv r"
    "frames_inv (cleared r) = frames_inv r" "windows_inv (cleared r)"
    by (simp_all add: handlers_inv_def queue_inv_def frames_inv_def windows_inv_def cleared_def)
  then show "reactor_inv (cleared r)" using assms(1) by (simp add: reactor_inv_def)
qed

text \<open>
  C31. A reset zeroes the six counters and loses no frame; what was dropped before it is not
  reported again: the next pass reports no drops and exactly the frames it dispatches.
\<close>

theorem reset_starts_afresh:
  assumes "reactor_inv r" "env_ok env"
  shows "\<exists>r1 r2. reset_stats env r = Inr r1 \<and> reactor_inv r1 \<and>
     critical_queue r1 = critical_queue r \<and> background_cache r1 = background_cache r \<and> calls r1 = calls r \<and>
     handle_events env r1 = Some (Inr r2) \<and>
     critical_dropped r2 = 0 \<and> normal_dropped r2 = 0 \<and> background_dropped r2 = 0 \<and>
     critical_processed r2 + normal_processed r2 = of_nat (length (queue_list (critical_queue r))) \<and>
     background_processed r2 = of_nat (length (held_frames env r))"
proof -
  define r1 where "r1 = cleared r"
  have r1: "reset_stats env r = Inr r1" "reactor_inv r1" unfolding r1_def by (rule reset_spec [OF assms])+
  have held: "held_frames env r1 = held_frames env r" by (simp add: held_frames_def r1_def cleared_def)
  have split: "(of_nat (length (queue_list (critical_queue r1))) :: u64) =
      of_nat (length (filter (is_critical r1) (queue_list (critical_queue r1)))) +
      of_nat (length (filter (\<lambda>cs. \<not> is_critical r1 cs) (queue_list (critical_queue r1))))"
    by (simp only: of_nat_add [symmetric] sum_length_filter_compl)
  obtain r2 where r2: "handle_events env r1 = Some (Inr r2)"
    "critical_dropped r2 = critical_dropped (sync_queue_drops r1)" "normal_dropped r2 = normal_dropped (sync_queue_drops r1)"
    "background_dropped r2 = background_dropped r1 + (dropped_frames (view (background_cache r1)) - last_bg_dropped r1)"
    "critical_processed r2 = critical_processed r1 + of_nat (length (filter (is_critical r1) (queue_list (critical_queue r1))))"
    "normal_processed r2 = normal_processed r1 + of_nat (length (filter (\<lambda>cs. \<not> is_critical r1 cs) (queue_list (critical_queue r1))))"
    "background_processed r2 = background_processed r1 + of_nat (length (held_frames env r1))"
    by (rule handle_events_spec [OF r1(2) assms(2)])
  have "critical_dropped (sync_queue_drops r1) = 0" "normal_dropped (sync_queue_drops r1) = 0"
    by (simp_all add: sync_queue_drops_def charge_drops_def Let_def dropped_count_def r1_def cleared_def)
  moreover have "critical_processed r1 = 0" "normal_processed r1 = 0" "background_processed r1 = 0" "background_dropped r1 = 0"
    "critical_queue r1 = critical_queue r" "background_cache r1 = background_cache r" "calls r1 = calls r"
    "last_bg_dropped r1 = dropped_frames (view (background_cache r1))"
    by (simp_all add: r1_def cleared_def)
  ultimately show ?thesis using r1 r2 split held by auto
qed

theorem reset_starts_afresh_witness:
  "\<exists>r1 r2. reset_stats sample_env two_topics = Inr r1 \<and> handle_events sample_env r1 = Some (Inr r2) \<and> critical_dropped r2 = 0"
  using reset_starts_afresh [OF two_topics_inv sample_env_ok] by blast

subsection \<open>Runs\<close>

text \<open>
  What happens to a running reactor: Zenoh delivers a sample on a subscription or a
  liveliness change, the loop makes a pass, the TUI resets the statistics, somebody stops it.
\<close>

datatype event = Receive CallbackContext z_sample | Liveliness z_sample | Pass | Reset | Stop

fun apply_event :: "env \<Rightarrow> event \<Rightarrow> 'cb reactor \<Rightarrow> (mem_error + 'cb reactor) option" where
  "apply_event env (Receive ctx smp) r = Some (zenoh_data_callback env ctx smp r)"
| "apply_event env (Liveliness smp) r = Some (Inr (zenoh_liveliness_callback env smp r))"
| "apply_event env Pass r = handle_events env r"
| "apply_event env Reset r = Some (reset_stats env r)"
| "apply_event env Stop r = Some (Inr (stop r))"

fun run_events :: "env \<Rightarrow> event list \<Rightarrow> 'cb reactor \<Rightarrow> (mem_error + 'cb reactor) option" where
  "run_events env [] r = Some (Inr r)"
| "run_events env (ev # evs) r =
     (case apply_event env ev r of
        Some (Inr r') \<Rightarrow> run_events env evs r'
      | other \<Rightarrow> other)"

text \<open>The samples of a run that pass verification, per kind of channel.\<close>

fun queue_offers :: "env \<Rightarrow> event list \<Rightarrow> nat" where
  "queue_offers env [] = 0"
| "queue_offers env (Receive ctx smp # evs) =
     (if admissible env smp \<and> ctx_priority ctx \<noteq> BACKGROUND then 1 else 0) + queue_offers env evs"
| "queue_offers env (ev # evs) = queue_offers env evs"

fun background_offers :: "env \<Rightarrow> event list \<Rightarrow> nat" where
  "background_offers env [] = 0"
| "background_offers env (Receive ctx smp # evs) =
     (if admissible env smp \<and> ctx_priority ctx = BACKGROUND then 1 else 0) + background_offers env evs"
| "background_offers env (ev # evs) = background_offers env evs"

text \<open>The contexts of the run belong to registered handlers, BACKGROUND ones to a slot.\<close>

definition subscribed :: "'cb reactor \<Rightarrow> CallbackContext \<Rightarrow> bool" where
  "subscribed r ctx \<longleftrightarrow> ctx_ok r ctx \<and>
     (ctx_priority ctx = BACKGROUND \<longrightarrow> slots (background_cache r) (ctx_handler_hash ctx) \<noteq> None)"

definition events_ok :: "'cb reactor \<Rightarrow> event list \<Rightarrow> bool" where
  "events_ok r evs \<longleftrightarrow> (\<forall>ctx smp. Receive ctx smp \<in> set evs \<longrightarrow> subscribed r ctx)"

text \<open>Topics whose slot holds a frame.\<close>

definition waiting :: "(u64 \<rightharpoonup> latest_slot) \<Rightarrow> u64 set" where
  "waiting v = {k. \<exists>s. v k = Some s \<and> has_data s}"

lemma length_frames_of:
  assumes "distinct ord" "set ord = dom v"
  shows "length (frames_of ord v) = card (waiting v)"
proof -
  have "length (frames_of xs v) = length (filter (\<lambda>k. k \<in> waiting v) xs)" for xs
    by (induction xs) (auto simp: waiting_def held_frame_def bind_eq_Some_conv split: option.split if_splits)
  moreover have "set (filter (\<lambda>k. k \<in> waiting v) ord) = waiting v" using assms(2) by (auto simp: waiting_def)
  ultimately show ?thesis using distinct_card [of "filter (\<lambda>k. k \<in> waiting v) ord"] assms(1) by simp
qed

lemma length_held_frames:
  assumes "reactor_inv r" "env_ok env"
  shows "length (held_frames env r) = card (waiting (view (background_cache r)))"
proof -
  have c: "cache_inv (background_cache r)" using assms(1) by (simp add: reactor_inv_def frames_inv_def)
  then have "iterates (slot_order env (background_cache r)) (background_cache r)" using assms(2) by (simp add: env_ok_def)
  then show ?thesis
    unfolding held_frames_def by (intro length_frames_of) (simp_all add: iterates_def dom_def view_slots [OF c])
qed

text \<open>The two balances: what was dispatched, still waits, or was dropped.\<close>

definition queue_balance :: "'cb reactor \<Rightarrow> u64" where
  "queue_balance r = critical_processed r + normal_processed r +
     of_nat (length (queue_list (critical_queue r))) + dropped (critical_queue r)"

definition background_balance :: "'cb reactor \<Rightarrow> u64" where
  "background_balance r = background_processed r +
     of_nat (card (waiting (view (background_cache r)))) + dropped_frames (view (background_cache r))"

text \<open>The drops not yet reported in the channel counters.\<close>

definition unreported :: "'cb reactor \<Rightarrow> u64 \<times> u64" where
  "unreported r = (last_queue_dropped r - (critical_dropped r + normal_dropped r), last_bg_dropped r - background_dropped r)"

lemma balance_callback:
  assumes "reactor_inv r" "subscribed r ctx"
  shows "\<exists>r'. zenoh_data_callback env ctx smp r = Inr r' \<and> reactor_inv r' \<and> subscribed r' = subscribed r \<and>
     queue_balance r' = queue_balance r + of_nat (queue_offers env [Receive ctx smp]) \<and>
     background_balance r' = background_balance r + of_nat (background_offers env [Receive ctx smp]) \<and>
     unreported r' = unreported r \<and> calls r' = calls r"
proof (cases "admissible env smp")
  case False
  then show ?thesis using assms(1) callback_discard [OF False, of ctx r] by simp
next
  case adm: True
  have ctx: "ctx_ok r ctx" using assms(2) by (simp add: subscribed_def)
  show ?thesis
  proof (cases "ctx_priority ctx = BACKGROUND")
    case False
    from assms(1) ctx adm this show ?thesis
    proof (cases rule: callback_queue)
      case (accept n m q t tr)
      then show ?thesis using adm False
        by (auto simp: subscribed_def ctx_ok_def queue_balance_def background_balance_def unreported_def fun_eq_iff simp del: length_queue_list)
    next
      case (reject n m q l)
      then show ?thesis using adm False
        by (auto simp: subscribed_def ctx_ok_def queue_balance_def background_balance_def unreported_def fun_eq_iff simp del: length_queue_list)
    qed
  next
    case bg: True
    from assms(1) ctx adm this show ?thesis
    proof (cases rule: callback_background)
      case (no_slot n m)
      then show ?thesis using assms(2) bg by (simp add: subscribed_def)
    next
      case (stored n m c s t)
      let ?k = "ctx_handler_hash ctx" and ?v = "view (background_cache r)"
      have fin: "finite (dom ?v)"
        using assms(1) by (intro view_finite) (simp add: reactor_inv_def frames_inv_def)
      then have fw: "finite (waiting ?v)" by (rule rev_finite_subset) (auto simp: waiting_def)
      have w: "waiting (view c) = insert ?k (waiting ?v)" using stored(3,4) by (auto simp: waiting_def split: if_splits)
      have "?k \<in> waiting ?v \<longleftrightarrow> has_data s" using stored(3) by (simp add: waiting_def)
      then have "of_nat (card (waiting (view c))) + dropped_frames (view c) = (of_nat (card (waiting ?v)) + dropped_frames ?v + 1 :: u64)"
        using dropped_frames_put [OF fin stored(3), of ?k "z_payload smp" t] stored(4) fw unfolding w
        by (simp add: insert_absorb)
      then show ?thesis using stored(1,2,5) adm bg
        by (auto simp: subscribed_def ctx_ok_def queue_balance_def background_balance_def unreported_def fun_eq_iff add.assoc)
    qed
  qed
qed

lemma balance_pass:
  assumes "reactor_inv r" "env_ok env"
  shows "\<exists>r'. handle_events env r = Some (Inr r') \<and> reactor_inv r' \<and> subscribed r' = subscribed r \<and>
     queue_balance r' = queue_balance r \<and> background_balance r' = background_balance r \<and> unreported r' = unreported r"
proof -
  have parts: "(of_nat (length (queue_list (critical_queue r))) :: u64) =
      of_nat (length (filter (is_critical r) (queue_list (critical_queue r)))) +
      of_nat (length (filter (\<lambda>cs. \<not> is_critical r cs) (queue_list (critical_queue r))))"
    by (simp only: of_nat_add [symmetric] sum_length_filter_compl)
  obtain cd nd where sync: "sync_queue_drops r = r\<lparr>last_queue_dropped := dropped (critical_queue r), critical_dropped := cd, normal_dropped := nd\<rparr>"
    "cd + nd = critical_dropped r + normal_dropped r + (dropped (critical_queue r) - last_queue_dropped r)"
    using sync_shape by blast
  show ?thesis
  proof (rule handle_events_spec [OF assms])
    fix r'
    assume r': "handle_events env r = Some (Inr r')" "reactor_inv r'"
      "queue_list (critical_queue r') = []" "dropped (critical_queue r') = dropped (critical_queue r)"
      "slots (background_cache r') = slots (background_cache r)"
      "\<And>h. view (background_cache r') h = map_option emptied (view (background_cache r) h)"
      "dropped_frames (view (background_cache r')) = dropped_frames (view (background_cache r))"
      "handlers r' = handlers r" "wakeup_fd r' = wakeup_fd r"
      "critical_processed r' = critical_processed r + of_nat (length (filter (is_critical r) (queue_list (critical_queue r))))"
      "normal_processed r' = normal_processed r + of_nat (length (filter (\<lambda>cs. \<not> is_critical r cs) (queue_list (critical_queue r))))"
      "background_processed r' = background_processed r + of_nat (length (held_frames env r))"
      "critical_dropped r' = critical_dropped (sync_queue_drops r)" "normal_dropped r' = normal_dropped (sync_queue_drops r)"
      "last_queue_dropped r' = dropped (critical_queue r)"
      "last_bg_dropped r' = dropped_frames (view (background_cache r))"
      "background_dropped r' = background_dropped r + (dropped_frames (view (background_cache r)) - last_bg_dropped r)"
    have "waiting (view (background_cache r')) = {}" by (auto simp: waiting_def r'(6))
    then have "background_balance r' = background_balance r"
      by (simp add: background_balance_def r' length_held_frames [OF assms])
    moreover have "queue_balance r' = queue_balance r" by (simp add: queue_balance_def r' parts del: length_queue_list)
    moreover have "critical_dropped r' + normal_dropped r' = cd + nd" by (simp add: r' sync(1))
    then have "unreported r' = unreported r" unfolding unreported_def by (simp add: r' sync(2))
    moreover have "subscribed r' = subscribed r" by (simp add: subscribed_def ctx_ok_def r' fun_eq_iff)
    ultimately show ?thesis using r'(1,2) by blast
  qed
qed

lemma balance_step:
  assumes "reactor_inv r" "env_ok env" "events_ok r [ev]" "ev \<noteq> Reset"
  shows "\<exists>r'. apply_event env ev r = Some (Inr r') \<and> reactor_inv r' \<and> subscribed r' = subscribed r \<and>
     queue_balance r' = queue_balance r + of_nat (queue_offers env [ev]) \<and>
     background_balance r' = background_balance r + of_nat (background_offers env [ev]) \<and> unreported r' = unreported r"
proof (cases ev)
  case (Receive ctx smp)
  then show ?thesis using balance_callback [OF assms(1), of ctx env smp] assms(3) by (auto simp: events_ok_def)
next
  case (Liveliness smp)
  have "reactor_inv (zenoh_liveliness_callback env smp r) = reactor_inv r"
    unfolding zenoh_liveliness_callback_def read_clock_def by (simp add: reactor_invs io_def spdlog_def)
  then show ?thesis using assms(1) Liveliness
    by (simp add: zenoh_liveliness_callback_def read_clock_def io_def spdlog_def subscribed_def ctx_ok_def
        queue_balance_def background_balance_def unreported_def fun_eq_iff)
next
  case Pass
  then show ?thesis using balance_pass [OF assms(1,2)] by simp
next
  case Stop
  have "reactor_inv (stop r) = reactor_inv r" by (simp add: stop_def Let_def reactor_invs io_def)
  then show ?thesis using assms(1) Stop
    by (simp add: stop_def Let_def io_def subscribed_def ctx_ok_def
        queue_balance_def background_balance_def unreported_def fun_eq_iff)
qed (use assms in simp)

lemma offers_Cons:
  "queue_offers env (ev # evs) = queue_offers env [ev] + queue_offers env evs"
  "background_offers env (ev # evs) = background_offers env [ev] + background_offers env evs"
  by (cases ev; simp)+

text \<open>
  C17. Over any run without a reset, whatever the interleaving of receive callbacks, loop
  passes, liveliness changes and stops, nothing faults and every frame that passed
  verification is accounted for (as 64-bit numbers): each queued one was dispatched, still
  waits, or was dropped; each BACKGROUND one was dispatched, is held, or was overwritten;
  and the reported drop counters lag behind the real ones by a constant per channel.
\<close>

theorem frame_accounting:
  assumes "reactor_inv r" "env_ok env" "events_ok r evs" "Reset \<notin> set evs"
  shows "\<exists>r'. run_events env evs r = Some (Inr r') \<and> reactor_inv r' \<and>
     queue_balance r' = queue_balance r + of_nat (queue_offers env evs) \<and>
     background_balance r' = background_balance r + of_nat (background_offers env evs) \<and>
     unreported r' = unreported r"
  using assms
proof (induction evs arbitrary: r)
  case (Cons ev evs)
  then have "events_ok r [ev]" "ev \<noteq> Reset" by (auto simp: events_ok_def)
  from balance_step [OF Cons.prems(1,2) this] obtain r1 where r1: "apply_event env ev r = Some (Inr r1)" "reactor_inv r1"
    "subscribed r1 = subscribed r" "queue_balance r1 = queue_balance r + of_nat (queue_offers env [ev])"
    "background_balance r1 = background_balance r + of_nat (background_offers env [ev])" "unreported r1 = unreported r" by blast
  have "events_ok r1 evs" "Reset \<notin> set evs" using Cons.prems(3,4) r1(3) by (auto simp: events_ok_def)
  from Cons.IH [OF r1(2) Cons.prems(2) this] show ?case
    using r1 offers_Cons [of env ev evs] by (auto simp: add_ac)
qed simp

theorem frame_accounting_witness:
  "\<exists>r'. run_events sample_env
          [Receive \<lparr>ctx_handler_hash = fnv1a_hash ''a'', ctx_priority = CRITICAL, ctx_wakeup_fd = 5\<rparr>
             \<lparr>z_keyexpr = ''a'', z_payload = [1], z_delete = False\<rparr>, Pass, Stop] two_topics = Some (Inr r') \<and>
        queue_balance r' = queue_balance two_topics + 1"
proof -
  let ?evs = "[Receive \<lparr>ctx_handler_hash = fnv1a_hash ''a'', ctx_priority = CRITICAL, ctx_wakeup_fd = 5\<rparr>
             \<lparr>z_keyexpr = ''a'', z_payload = [1], z_delete = False\<rparr>, Pass, Stop]"
  have "events_ok two_topics ?evs" using two_topics_ctx by (simp add: events_ok_def subscribed_def)
  moreover have "queue_offers sample_env ?evs = 1" by (simp add: admissible_def sample_env_def)
  ultimately show ?thesis using frame_accounting [OF two_topics_inv sample_env_ok, of ?evs] by auto
qed

end
