(* ===== verification/Reactor_Run.thy ===== *)
theory Reactor_Run
  imports Reactor_Accounting
begin

text \<open>
  \<^verbatim>\<open>DataFlowReactor::run\<close> and \<^verbatim>\<open>stop\<close>: what the start-up guarantees to
  the callbacks, when the loop returns, and the eventfd wake-up.
\<close>

subsection \<open>The loop\<close>

datatype 'cb run_result =
    StillRunning "'cb reactor"   \<comment> \<open>the script is over and \<open>running_\<close> is still set\<close>
  | Returned "'cb reactor"
  | Faulted mem_error
  | Diverged                     \<comment> \<open>a pass did not end\<close>

text \<open>
  \<^verbatim>\<open>while (running_) handle_events();\<close> with a script of what other threads do at
  the end of each pass, while the loop waits.
\<close>

fun run_loop :: "env \<Rightarrow> event list list \<Rightarrow> 'cb reactor \<Rightarrow> 'cb run_result" where
  "run_loop env script r =
     (if \<not> running r then Returned r
      else case script of
             [] \<Rightarrow> StillRunning r
           | evs # rest \<Rightarrow>
               (case handle_events env r of
                  None \<Rightarrow> Diverged
                | Some (Inl e) \<Rightarrow> Faulted e
                | Some (Inr r1) \<Rightarrow>
                    (case run_events env evs r1 of
                       None \<Rightarrow> Diverged
                     | Some (Inl e) \<Rightarrow> Faulted e
                     | Some (Inr r2) \<Rightarrow> run_loop env rest r2)))"

declare run_loop.simps [simp del]

definition run :: "env \<Rightarrow> event list list \<Rightarrow> 'cb reactor \<Rightarrow> 'cb run_result" where
  "run env script r = run_loop env script (run_start env r)"

subsection \<open>Start-up\<close>

lemma pre_allocate_all_spec:
  assumes "cache_inv c"
  shows "cache_inv (pre_allocate_all hs c) \<and>
    (slots (pre_allocate_all hs c) k \<noteq> None \<longleftrightarrow> slots c k \<noteq> None \<or> (\<exists>h \<in> set hs. priority h = BACKGROUND \<and> path_hash h = k)) \<and>
    (\<forall>a. slots c k = Some a \<longrightarrow> slots (pre_allocate_all hs c) k = Some a) \<and>
    (\<forall>s. view (pre_allocate_all hs c) k = Some s \<longrightarrow> view c k = Some s \<or> s = slot_new)"
  using assms
proof (induction hs arbitrary: c)
  case Nil
  then show ?case by (simp add: pre_allocate_all_def)
next
  case (Cons h hs)
  show ?case
  proof (cases "priority h = BACKGROUND")
    case True
    then have "pre_allocate_all (h # hs) c = pre_allocate_all hs (pre_allocate (path_hash h) c)"
      by (simp add: pre_allocate_all_def)
    with Cons.IH [OF pre_allocate_inv [OF Cons.prems, of "path_hash h"]] True show ?thesis
      by (simp add: pre_allocate_slots [OF Cons.prems] pre_allocate_view [OF Cons.prems] del: not_None_eq)
         (auto split: if_splits)
  next
    case False
    then have "pre_allocate_all (h # hs) c = pre_allocate_all hs c" by (simp add: pre_allocate_all_def)
    with Cons.IH [OF Cons.prems] False show ?thesis by simp
  qed
qed

text \<open>The subscriptions: which contexts they add, and that they touch nothing else.\<close>

lemma subscribe_shape:
  "\<exists>tr cs l. subscribe env h r = r\<lparr>io_trace := tr, contexts := contexts r @ cs, logs := l\<rparr> \<and>
     (\<forall>ctx \<in> set cs. ctx_handler_hash ctx = path_hash h \<and> ctx_priority ctx = priority h \<and> ctx_wakeup_fd ctx = wakeup_fd r)"
proof -
  define ctx where "ctx = \<lparr>ctx_handler_hash = path_hash h, ctx_priority = priority h, ctx_wakeup_fd = wakeup_fd r\<rparr>"
  define tr where "tr = (if keyexpr_valid env (path h) then io_trace r @ [DeclareSubscriber (path h)] else io_trace r)"
  define ok where "ok \<longleftrightarrow> keyexpr_valid env (path h) \<and> subscribe_ok env (io_trace r) (path h)"
  define l where "l = (if ok then logs r else logs r @ [if keyexpr_valid env (path h) then SubscribeFailed (path h) else InvalidKeyexpr (path h)])"
  have "subscribe env h r = r\<lparr>io_trace := tr, contexts := contexts r @ (if ok then [ctx] else []), logs := l\<rparr>"
    by (rule reactor.equality) (simp_all add: subscribe_def Let_def io_def spdlog_def tr_def ok_def l_def ctx_def)
  moreover have "\<forall>c \<in> set (if ok then [ctx] else []). ctx_handler_hash c = path_hash h \<and> ctx_priority c = priority h \<and> ctx_wakeup_fd c = wakeup_fd r"
    by (simp add: ctx_def)
  ultimately show ?thesis by blast
qed

lemma subscribe_fold:
  "\<exists>tr cs l. fold (subscribe env) hs r = r\<lparr>io_trace := tr, contexts := contexts r @ cs, logs := l\<rparr> \<and>
     (\<forall>ctx \<in> set cs. \<exists>h \<in> set hs. ctx_handler_hash ctx = path_hash h \<and> ctx_priority ctx = priority h \<and> ctx_wakeup_fd ctx = wakeup_fd r)"
proof (induction hs arbitrary: r)
  case Nil
  have "r = r\<lparr>io_trace := io_trace r, contexts := contexts r @ [], logs := logs r\<rparr>" by simp
  then show ?case by (metis empty_iff empty_set fold_simps(1))
next
  case (Cons h hs)
  obtain tr cs l where 1: "subscribe env h r = r\<lparr>io_trace := tr, contexts := contexts r @ cs, logs := l\<rparr>"
    "\<forall>ctx \<in> set cs. ctx_handler_hash ctx = path_hash h \<and> ctx_priority ctx = priority h \<and> ctx_wakeup_fd ctx = wakeup_fd r"
    using subscribe_shape by blast
  obtain tr' cs' l' where 2: "fold (subscribe env) hs (subscribe env h r) =
      (subscribe env h r)\<lparr>io_trace := tr', contexts := contexts (subscribe env h r) @ cs', logs := l'\<rparr>"
    "\<forall>ctx \<in> set cs'. \<exists>h' \<in> set hs. ctx_handler_hash ctx = path_hash h' \<and> ctx_priority ctx = priority h' \<and> ctx_wakeup_fd ctx = wakeup_fd (subscribe env h r)"
    using Cons [of "subscribe env h r"] by blast
  have "fold (subscribe env) (h # hs) r = r\<lparr>io_trace := tr', contexts := contexts r @ (cs @ cs'), logs := l'\<rparr>"
    using 2(1) by (simp add: 1(1))
  moreover have "wakeup_fd (subscribe env h r) = wakeup_fd r" by (simp add: 1(1))
  then have "\<forall>ctx \<in> set (cs @ cs'). \<exists>h' \<in> set (h # hs). ctx_handler_hash ctx = path_hash h' \<and> ctx_priority ctx = priority h' \<and> ctx_wakeup_fd ctx = wakeup_fd r"
    using 1(2) 2(2) by auto
  ultimately show ?case by blast
qed

text \<open>The start-up as one record update, and the invariant afterwards.\<close>

lemma run_start_shape:
  "\<exists>tr cs l. run_start env r = r\<lparr>running := True, background_cache := pre_allocate_all (handlers r) (background_cache r),
        io_trace := tr, contexts := cs, logs := l\<rparr> \<and>
     (\<forall>ctx \<in> set cs. \<exists>h \<in> set (handlers r). ctx_handler_hash ctx = path_hash h \<and> ctx_priority ctx = priority h \<and> ctx_wakeup_fd ctx = wakeup_fd r)"
proof -
  define r3 where "r3 = r\<lparr>running := True, contexts := [], background_cache := pre_allocate_all (handlers r) (background_cache r)\<rparr>"
  obtain tr cs l where f: "fold (subscribe env) (handlers r) r3 = r3\<lparr>io_trace := tr, contexts := contexts r3 @ cs, logs := l\<rparr>"
    "\<forall>ctx \<in> set cs. \<exists>h \<in> set (handlers r). ctx_handler_hash ctx = path_hash h \<and> ctx_priority ctx = priority h \<and> ctx_wakeup_fd ctx = wakeup_fd r3"
    using subscribe_fold by blast
  define r5 where "r5 = subscribe_liveliness env (fold (subscribe env) (handlers r) r3)"
  obtain tr5 where r5: "r5 = r3\<lparr>io_trace := tr5, contexts := cs, logs := l\<rparr>"
  proof -
    have e: "r5 = subscribe_liveliness env (r3\<lparr>io_trace := tr, contexts := contexts r3 @ cs, logs := l\<rparr>)"
      by (simp only: r5_def f(1))
    have "contexts r3 = []" by (simp add: r3_def)
    then have "r5 = r3\<lparr>io_trace := io_trace r5, contexts := cs, logs := l\<rparr>"
      by (intro reactor.equality) (simp_all add: e subscribe_liveliness_def io_def)
    with that show thesis by blast
  qed
  obtain tr6 l6 where r6: "arm_poll_eventfd env r5 = r5\<lparr>io_trace := tr6, logs := l6\<rparr>" using arm_poll_shape by blast
  have eq: "run_start env r = spdlog (StartupBanner (liveliness_key (arm_poll_eventfd env r5))
              (map (\<lambda>h. (priority h, path h)) (handlers (arm_poll_eventfd env r5)))) (arm_poll_eventfd env r5)"
    by (simp add: run_start_def Let_def pre_allocate_handlers_def r5_def r3_def)
  have "run_start env r = r\<lparr>running := True, background_cache := pre_allocate_all (handlers r) (background_cache r),
        io_trace := tr6, contexts := cs, logs := logs (run_start env r)\<rparr>"
    unfolding eq r6 unfolding r5 r3_def by (rule reactor.equality) (simp_all add: spdlog_def)
  moreover have "wakeup_fd r3 = wakeup_fd r" by (simp add: r3_def)
  ultimately show ?thesis using f(2) by metis
qed

lemma run_start_spec:
  assumes "reactor_inv r"
  shows "reactor_inv (run_start env r)" "running (run_start env r)" "\<forall>ctx \<in> set (contexts (run_start env r)). subscribed (run_start env r) ctx"
    "handlers (run_start env r) = handlers r"
proof -
  obtain tr cs l where rs: "run_start env r = r\<lparr>running := True, background_cache := pre_allocate_all (handlers r) (background_cache r),
        io_trace := tr, contexts := cs, logs := l\<rparr>"
    "\<forall>ctx \<in> set cs. \<exists>h \<in> set (handlers r). ctx_handler_hash ctx = path_hash h \<and> ctx_priority ctx = priority h \<and> ctx_wakeup_fd ctx = wakeup_fd r"
    using run_start_shape by blast
  have c: "cache_inv (background_cache r)" using assms by (simp add: reactor_inv_def frames_inv_def)
  note pre = pre_allocate_all_spec [OF c, of "handlers r"]
  have "frames_inv (run_start env r)"
    unfolding frames_inv_def
  proof (intro conjI allI impI)
    show "cache_inv (background_cache (run_start env r))" using pre by (simp add: rs(1))
    fix k s
    assume v: "view (background_cache (run_start env r)) k = Some s" "has_data s"
    then have "view (background_cache r) k = Some s" using pre [of k] by (auto simp: rs(1) slot_new_def)
    with v(2) assms show "handler_hash s = k" "handler_index (run_start env r) k \<noteq> None"
      unfolding reactor_inv_def frames_inv_def rs(1) by simp_all
  qed
  moreover have "handlers_inv (run_start env r) = handlers_inv r" "queue_inv (run_start env r) = queue_inv r"
    "windows_inv (run_start env r) = windows_inv r"
    by (simp_all add: rs(1) handlers_inv_def queue_inv_def windows_inv_def)
  ultimately show "reactor_inv (run_start env r)" using assms by (simp add: reactor_inv_def)
  show "running (run_start env r)" "handlers (run_start env r) = handlers r" by (simp_all add: rs(1))
  show "\<forall>ctx \<in> set (contexts (run_start env r)). subscribed (run_start env r) ctx"
  proof
    fix ctx assume "ctx \<in> set (contexts (run_start env r))"
    then obtain h where h: "h \<in> set (handlers r)" "ctx_handler_hash ctx = path_hash h" "ctx_priority ctx = priority h" "ctx_wakeup_fd ctx = wakeup_fd r"
      using rs(2) by (auto simp: rs(1))
    moreover have "slots (background_cache (run_start env r)) (path_hash h) \<noteq> None" if "priority h = BACKGROUND"
      using pre [of "path_hash h"] h(1) that by (auto simp: rs(1))
    ultimately show "subscribed (run_start env r) ctx"
      unfolding subscribed_def ctx_ok_def by (auto simp: rs(1))
  qed
qed

text \<open>
  After the start-up every registered BACKGROUND topic has its slot, and every context
  Zenoh may call back with belongs to a registered handler: no BACKGROUND frame of a live
  subscription is discarded for want of a slot, and the invariant holds for whatever the
  reactor did before.
\<close>

theorem start_up_complete:
  assumes "reactor_inv r"
  shows "reactor_inv (run_start env r) \<and> running (run_start env r) \<and>
         (\<forall>h \<in> set (handlers r). priority h = BACKGROUND \<longrightarrow> get_slot_fast (path_hash h) (background_cache (run_start env r)) \<noteq> None) \<and>
         (\<forall>ctx \<in> set (contexts (run_start env r)). subscribed (run_start env r) ctx)"
proof -
  obtain tr cs l where rs: "run_start env r = r\<lparr>running := True, background_cache := pre_allocate_all (handlers r) (background_cache r),
        io_trace := tr, contexts := cs, logs := l\<rparr>"
    using run_start_shape by blast
  have c: "cache_inv (background_cache r)" using assms by (simp add: reactor_inv_def frames_inv_def)
  have "get_slot_fast (path_hash h) (background_cache (run_start env r)) \<noteq> None"
    if "h \<in> set (handlers r)" "priority h = BACKGROUND" for h
    using pre_allocate_all_spec [OF c, of "handlers r" "path_hash h"] that by (auto simp: rs get_slot_fast_def)
  with run_start_spec [OF assms, of env] show ?thesis by blast
qed

theorem start_up_complete_witness:
  "get_slot_fast (fnv1a_hash ''b'') (background_cache (run_start sample_env two_topics)) \<noteq> None"
  using start_up_complete [OF two_topics_inv, of sample_env] by (simp add: two_topics_fields)

subsection \<open>Returning\<close>

lemma reactor_inv_stop [simp]: "reactor_inv (stop r) = reactor_inv r"
  by (simp add: stop_def Let_def reactor_invs io_def)

lemma running_stop [simp]: "running (stop r) = False"
  by (simp add: stop_def Let_def io_def)

lemma running_liveliness [simp]: "running (zenoh_liveliness_callback env smp r) = running r"
  by (simp add: zenoh_liveliness_callback_def read_clock_def io_def spdlog_def)

lemma run_events_running:
  assumes "reactor_inv r" "env_ok env" "events_ok r evs"
  shows "\<exists>r'. run_events env evs r = Some (Inr r') \<and> reactor_inv r' \<and> subscribed r' = subscribed r \<and>
     (running r' \<longleftrightarrow> running r \<and> Stop \<notin> set evs)"
  using assms
proof (induction evs arbitrary: r)
  case (Cons ev evs)
  have "\<exists>r1. apply_event env ev r = Some (Inr r1) \<and> reactor_inv r1 \<and> subscribed r1 = subscribed r \<and> (running r1 \<longleftrightarrow> running r \<and> ev \<noteq> Stop)"
  proof (cases "ev = Reset")
    case True
    have "subscribed (cleared r) = subscribed r" "running (cleared r) = running r"
      by (simp_all add: cleared_def subscribed_def ctx_ok_def fun_eq_iff)
    with True show ?thesis using reset_spec [OF Cons.prems(1,2)] by simp
  next
    case False
    have "events_ok r [ev]" using Cons.prems(3) by (auto simp: events_ok_def)
    from balance_step [OF Cons.prems(1,2) this False] obtain r1 where r1:
      "apply_event env ev r = Some (Inr r1)" "reactor_inv r1" "subscribed r1 = subscribed r" by blast
    have "running r1 \<longleftrightarrow> running r \<and> ev \<noteq> Stop"
    proof (cases ev)
      case (Receive ctx smp)
      then have "subscribed r ctx" using Cons.prems(3) by (simp add: events_ok_def)
      then show ?thesis
        using r1(1) Receive callback_running [OF Cons.prems(1), of ctx env smp] by (auto simp: subscribed_def)
    next
      case Pass
      obtain r2 where "handle_events env r = Some (Inr r2)" "running r2 = running r"
        by (rule handle_events_spec [OF Cons.prems(1,2)])
      then show ?thesis using r1(1) Pass by simp
    qed (use r1(1) False in auto)
    with r1 show ?thesis by blast
  qed
  then obtain r1 where r1: "apply_event env ev r = Some (Inr r1)" "reactor_inv r1" "subscribed r1 = subscribed r"
    "running r1 \<longleftrightarrow> running r \<and> ev \<noteq> Stop" by blast
  have "events_ok r1 evs" using Cons.prems(3) r1(3) by (auto simp: events_ok_def)
  from Cons.IH [OF r1(2) Cons.prems(2) this] show ?case using r1 by auto
qed simp

lemma run_loop_step:
  assumes "reactor_inv r" "env_ok env" "events_ok r evs" "running r"
  obtains r2 where "run_loop env (evs # rest) r = run_loop env rest r2" "reactor_inv r2" "subscribed r2 = subscribed r"
    "running r2 \<longleftrightarrow> Stop \<notin> set evs"
proof -
  obtain r1 where r1: "handle_events env r = Some (Inr r1)" "reactor_inv r1" "handlers r1 = handlers r"
    "wakeup_fd r1 = wakeup_fd r" "slots (background_cache r1) = slots (background_cache r)" "running r1 = running r"
    by (rule handle_events_spec [OF assms(1,2)])
  have sub: "subscribed r1 = subscribed r" by (simp add: subscribed_def ctx_ok_def r1 fun_eq_iff)
  then have "events_ok r1 evs" using assms(3) by (simp add: events_ok_def)
  from run_events_running [OF r1(2) assms(2) this] obtain r2 where r2: "run_events env evs r1 = Some (Inr r2)"
    "reactor_inv r2" "subscribed r2 = subscribed r1" "running r2 \<longleftrightarrow> running r1 \<and> Stop \<notin> set evs" by blast
  have "run_loop env (evs # rest) r = run_loop env rest r2"
    using r1(1) r2(1) assms(4) by (simp add: run_loop.simps [of env "evs # rest" r])
  then show thesis using r2 r1(6) assms(4) sub by (intro that [of r2]) simp_all
qed

lemma run_loop_stopped: "\<not> running r \<Longrightarrow> run_loop env script r = Returned r"
  by (simp add: run_loop.simps)

lemma run_loop_returns:
  assumes "reactor_inv r" "env_ok env" "events_ok r (concat script)" "running r"
  shows "(Stop \<in> set (concat script) \<longrightarrow> (\<exists>r'. run_loop env script r = Returned r' \<and> reactor_inv r' \<and> \<not> running r')) \<and>
         (Stop \<notin> set (concat script) \<longrightarrow> (\<exists>r'. run_loop env script r = StillRunning r' \<and> reactor_inv r' \<and> running r'))"
  using assms
proof (induction script arbitrary: r)
  case Nil
  then show ?case by (simp add: run_loop.simps [of env "[]" r])
next
  case (Cons evs script)
  have "events_ok r evs" using Cons.prems(3) by (auto simp: events_ok_def)
  from run_loop_step [OF Cons.prems(1,2) this Cons.prems(4), of script] obtain r2 where
    r2: "run_loop env (evs # script) r = run_loop env script r2" "reactor_inv r2" "subscribed r2 = subscribed r"
    "running r2 \<longleftrightarrow> Stop \<notin> set evs" by blast
  show ?case
  proof (cases "Stop \<in> set evs")
    case True
    then show ?thesis using r2 run_loop_stopped [of r2 env script] by auto
  next
    case False
    have "events_ok r2 (concat script)" using Cons.prems(3) r2(3) by (auto simp: events_ok_def)
    with Cons.IH [OF r2(2) Cons.prems(2)] False r2(1,4) show ?thesis by auto
  qed
qed

text \<open>
  When other threads act only between two passes, so that every pass ends, the event loop
  never faults and returns exactly when a stop is requested while it runs: with a stop among
  the events of some pass \<open>run\<close> returns (after that pass), without one it keeps running.
\<close>

theorem run_returns_iff_stopped:
  assumes "reactor_inv r" "env_ok env" "events_ok (run_start env r) (concat script)"
  shows "if Stop \<in> set (concat script)
         then \<exists>r'. run env script r = Returned r' \<and> reactor_inv r' \<and> \<not> running r'
         else \<exists>r'. run env script r = StillRunning r' \<and> reactor_inv r' \<and> running r'"
  using run_loop_returns [OF run_start_spec(1) [OF assms(1)] assms(2,3) run_start_spec(2) [OF assms(1)]]
  by (simp add: run_def)

theorem run_returns_iff_stopped_witness:
  "\<exists>r'. run sample_env [[], [Stop], []] two_topics = Returned r'"
  using run_returns_iff_stopped [OF two_topics_inv sample_env_ok, of "[[], [Stop], []]"] by (auto simp: events_ok_def)

text \<open>
  A stop that comes before \<open>run\<close> is lost: \<open>run\<close> sets the flag again, so the loop goes
  on for as long as nobody stops it a second time.
\<close>

theorem stop_before_run_lost:
  assumes "reactor_inv r" "env_ok env" "events_ok (run_start env (stop r)) (concat script)" "Stop \<notin> set (concat script)"
  shows "\<exists>r'. run env script (stop r) = StillRunning r' \<and> running r'"
proof -
  have "reactor_inv (stop r)" using assms(1) by simp
  from run_loop_returns [OF run_start_spec(1) [OF this] assms(2,3) run_start_spec(2) [OF this]] assms(4)
  show ?thesis by (auto simp: run_def)
qed

theorem stop_before_run_lost_witness:
  "\<exists>r'. run sample_env [[], [], []] (stop two_topics) = StillRunning r' \<and> running r'"
  using stop_before_run_lost [OF two_topics_inv sample_env_ok, of "[[], [], []]"] by (auto simp: events_ok_def)

subsection \<open>Waking up\<close>

text \<open>
  What the trace says about the kernel's objects: whether the eventfd was written since it
  was last read, and whether a poll on it is submitted and not yet completed.
\<close>

definition eventfd_step :: "io_call \<Rightarrow> bool \<Rightarrow> bool" where
  "eventfd_step c b = (case c of EventfdWrite _ \<Rightarrow> True | EventfdRead _ \<Rightarrow> False | _ \<Rightarrow> b)"

definition poll_step :: "io_call \<Rightarrow> bool \<Rightarrow> bool" where
  "poll_step c b = (case c of SubmitRing \<Rightarrow> True | CqeSeen \<Rightarrow> False | _ \<Rightarrow> b)"

definition eventfd_pending :: "io_call list \<Rightarrow> bool" where
  "eventfd_pending tr = fold eventfd_step tr False"

definition poll_armed :: "io_call list \<Rightarrow> bool" where
  "poll_armed tr = fold poll_step tr False"

text \<open>
  Documented behaviour of the kernel: an armed poll on a written eventfd completes at once
  with the poll's tag; without an armed poll the wait can only time out.
\<close>

definition kernel_wakes :: "env \<Rightarrow> bool" where
  "kernel_wakes env \<longleftrightarrow> (\<forall>tr. eventfd_pending tr \<and> poll_armed tr \<longrightarrow> wait_result env tr = (0, 1))"

definition kernel_quiet :: "env \<Rightarrow> bool" where
  "kernel_quiet env \<longleftrightarrow> (\<forall>tr. \<not> poll_armed tr \<longrightarrow> fst (wait_result env tr) \<noteq> 0)"

lemma trace_simps [simp]:
  "eventfd_pending (tr @ cs) = fold eventfd_step cs (eventfd_pending tr)"
  "poll_armed (tr @ cs) = fold poll_step cs (poll_armed tr)"
  by (simp_all add: eventfd_pending_def poll_armed_def)

lemma step_simps [simp]:
  "eventfd_step (EventfdWrite fd) b = True" "eventfd_step (EventfdRead fd) b = False"
  "poll_step SubmitRing b = True" "poll_step CqeSeen b = False" "poll_step (EventfdWrite fd) b = b"
  "poll_step (EventfdRead fd) b = b" "poll_step GetSqe b = b" "poll_step (PollAdd fd) b = b" "poll_step WaitCqe b = b"
  "poll_step (PublisherPut d) b = b"
  by (simp_all add: eventfd_step_def poll_step_def)

lemma io_trace_io [simp]: "io_trace (io c r) = io_trace r @ [c]" "wakeup_fd (io c r) = wakeup_fd r"
  by (simp_all add: io_def)

lemma wait_armed:
  assumes "sqe_available env = (\<lambda>tr. True)" "poll_armed (io_trace r)"
  shows "poll_armed (io_trace (wait_events env r))"
  using assms by (auto simp: wait_events_def arm_poll_eventfd_def Let_def split: prod.split)

lemma wait_stays_unarmed:
  assumes "kernel_quiet env" "\<not> poll_armed (io_trace r)"
  shows "\<not> poll_armed (io_trace (wait_events env r))"
  using assms by (auto simp: wait_events_def kernel_quiet_def Let_def split: prod.split)

lemma callback_trace:
  assumes "reactor_inv r" "ctx_ok r ctx"
  shows "\<exists>r' cs. zenoh_data_callback env ctx smp r = Inr r' \<and> io_trace r' = io_trace r @ cs \<and> set cs \<subseteq> range EventfdWrite"
proof (cases "admissible env smp")
  case True
  show ?thesis
  proof (cases "ctx_priority ctx = BACKGROUND")
    case bg: True
    from assms True this show ?thesis by (cases rule: callback_background) simp_all
  next
    case False
    from assms True this show ?thesis by (cases rule: callback_queue) auto
  qed
qed (simp add: callback_discard)

lemma armed_append: "set cs \<subseteq> range EventfdWrite \<Longrightarrow> fold poll_step cs b = b"
  by (induction cs) auto

text \<open>Every event but a pass leaves the poll as it is.\<close>

lemma event_keeps_poll:
  assumes "reactor_inv r" "env_ok env" "events_ok r [ev]" "ev \<noteq> Pass" "apply_event env ev r = Some (Inr r')"
  shows "poll_armed (io_trace r') = poll_armed (io_trace r)"
proof (cases ev)
  case (Receive ctx smp)
  then have "ctx_ok r ctx" using assms(3) by (simp add: events_ok_def subscribed_def)
  from callback_trace [OF assms(1) this, of env smp] obtain cs where
    "io_trace r' = io_trace r @ cs" "set cs \<subseteq> range EventfdWrite" using assms(5) Receive by auto
  then show ?thesis using armed_append [of cs] by simp
next
  case (Liveliness smp)
  then show ?thesis using assms(5) by (auto simp: zenoh_liveliness_callback_def read_clock_def io_def spdlog_def split: if_splits)
next
  case Reset
  then show ?thesis using assms(5) reset_spec(1) [OF assms(1,2)] by (auto simp: cleared_def)
next
  case Stop
  then show ?thesis using assms(5) by (auto simp: stop_def Let_def io_def split: if_splits)
qed (use assms in simp)

lemma events_keep_poll:
  fixes r :: "'cb reactor"
  assumes "reactor_inv r" "env_ok env" "events_ok r evs"
    and pass: "\<And>r1 r2 :: 'cb reactor. reactor_inv r1 \<Longrightarrow> poll_armed (io_trace r1) = b \<Longrightarrow> handle_events env r1 = Some (Inr r2) \<Longrightarrow> poll_armed (io_trace r2) = b"
    and "poll_armed (io_trace r) = b"
  shows "\<exists>r'. run_events env evs r = Some (Inr r') \<and> reactor_inv r' \<and> subscribed r' = subscribed r \<and> poll_armed (io_trace r') = b"
  using assms(1,3,5)
proof (induction evs arbitrary: r)
  case (Cons ev evs)
  have "events_ok r [ev]" using Cons.prems(2) by (auto simp: events_ok_def)
  with run_events_running [OF Cons.prems(1) assms(2), of "[ev]"] obtain r1 where
    r1: "apply_event env ev r = Some (Inr r1)" "reactor_inv r1" "subscribed r1 = subscribed r"
    by (auto split: option.splits sum.splits)
  have "poll_armed (io_trace r1) = b"
  proof (cases "ev = Pass")
    case True
    then show ?thesis using pass [OF Cons.prems(1,3)] r1(1) by simp
  next
    case False
    then show ?thesis using event_keeps_poll [OF Cons.prems(1) assms(2) \<open>events_ok r [ev]\<close> _ r1(1)] Cons.prems(3) by simp
  qed
  moreover have "events_ok r1 evs" using Cons.prems(2) r1(3) by (auto simp: events_ok_def)
  ultimately show ?case using Cons.IH [OF r1(2)] r1 by auto
qed simp

lemma pass_waits:
  assumes "reactor_inv r" "env_ok env" "handle_events env r = Some (Inr r')"
  shows "\<exists>r2. r' = wait_events env r2 \<and> io_trace r2 = io_trace r"
proof -
  obtain r'' where "handle_events env r = Some (Inr r'')"
    "\<exists>r2. r'' = wait_events env r2 \<and> io_trace r2 = io_trace r \<and> wakeup_fd r2 = wakeup_fd r"
    by (rule handle_events_spec [OF assms(1,2)])
  with assms(3) show ?thesis by auto
qed

lemma run_start_armed:
  assumes "sqe_available env = (\<lambda>tr. True)"
  shows "poll_armed (io_trace (run_start env r))"
  using assms by (simp add: run_start_def Let_def spdlog_def arm_poll_eventfd_def)

text \<open>
  No wake-up is lost: while the submission queue has room, a poll on the eventfd is
  armed at every moment of a run between two waits, and an accepted CRITICAL sample that
  arrives then makes the next wait return at once, consume the event and arm the poll
  again, and the pass after it calls the sample's handler.
\<close>

theorem no_lost_wakeup:
  assumes "reactor_inv r" "env_ok env" "kernel_wakes env" "sqe_available env = (\<lambda>tr. True)"
    and "events_ok (run_start env r) evs"
  shows "\<exists>r1. run_events env evs (run_start env r) = Some (Inr r1) \<and> poll_armed (io_trace r1) \<and>
     (\<forall>ctx smp. subscribed r1 ctx \<and> admissible env smp \<and> ctx_priority ctx = CRITICAL \<and>
        length (queue_list (critical_queue r1)) < 511 \<longrightarrow>
        (\<exists>r2 r3. zenoh_data_callback env ctx smp r1 = Inr r2 \<and>
           io_trace (wait_events env r2) = io_trace r2 @
             [WaitCqe, EventfdRead (wakeup_fd r1), CqeSeen, GetSqe, PollAdd (wakeup_fd r1), SubmitRing] \<and>
           handle_events env (wait_events env r2) = Some (Inr r3) \<and>
           (callback (target r1 (ctx_handler_hash ctx)), z_payload smp) \<in> set (calls r3)))"
proof -
  note s = run_start_spec [OF assms(1), of env]
  have "\<exists>r1. run_events env evs (run_start env r) = Some (Inr r1) \<and> reactor_inv r1 \<and>
          subscribed r1 = subscribed (run_start env r) \<and> poll_armed (io_trace r1) = True"
  proof (rule events_keep_poll [OF s(1) assms(2,5)])
    fix r1 r2 :: "'a reactor"
    assume "reactor_inv r1" "poll_armed (io_trace r1) = True" "handle_events env r1 = Some (Inr r2)"
    then show "poll_armed (io_trace r2) = True"
      using pass_waits [OF _ assms(2)] wait_armed [OF assms(4)] by metis
  qed (simp add: run_start_armed [OF assms(4)])
  then obtain r1 where
    r1: "run_events env evs (run_start env r) = Some (Inr r1)" "reactor_inv r1" "poll_armed (io_trace r1)" by auto
  have "\<exists>r2 r3. zenoh_data_callback env ctx smp r1 = Inr r2 \<and>
           io_trace (wait_events env r2) = io_trace r2 @
             [WaitCqe, EventfdRead (wakeup_fd r1), CqeSeen, GetSqe, PollAdd (wakeup_fd r1), SubmitRing] \<and>
           handle_events env (wait_events env r2) = Some (Inr r3) \<and>
           (callback (target r1 (ctx_handler_hash ctx)), z_payload smp) \<in> set (calls r3)"
    if h: "subscribed r1 ctx \<and> admissible env smp \<and> ctx_priority ctx = CRITICAL \<and> length (queue_list (critical_queue r1)) < 511" for ctx smp
  proof -
    have "ctx_ok r1 ctx" "admissible env smp" "ctx_priority ctx \<noteq> BACKGROUND" using h by (simp_all add: subscribed_def)
    with r1(2) show ?thesis
    proof (cases rule: callback_queue)
      case (accept n m q t tr)
      define r2 where "r2 = r1\<lparr>clock_reads := n, session_last_seen := m, critical_queue := q, io_trace := tr\<rparr>"
      have tr: "io_trace r2 = io_trace r1 @ [EventfdWrite (wakeup_fd r1)]" "wakeup_fd r2 = wakeup_fd r1"
        using accept h by (simp_all add: r2_def)
      then have "wait_result env (io_trace r2) = (0, 1)" using assms(3) r1(3) by (simp add: kernel_wakes_def)
      then have woken: "io_trace (wait_events env r2) = io_trace r2 @
             [WaitCqe, EventfdRead (wakeup_fd r1), CqeSeen, GetSqe, PollAdd (wakeup_fd r1), SubmitRing]"
        by (simp add: wait_events_def Let_def arm_poll_eventfd_def assms(4) tr)
      obtain tr' l' where w: "wait_events env r2 = r2\<lparr>io_trace := tr', logs := l'\<rparr>" using wait_events_shape by blast
      have "reactor_inv (wait_events env r2)" using accept(2) by (simp add: w r2_def [symmetric])
      from handle_events_spec [OF this assms(2)] obtain r3 where r3: "handle_events env (wait_events env r2) = Some (Inr r3)"
        "calls r3 = calls (wait_events env r2) @ map (queued_call (wait_events env r2)) (queue_list (critical_queue (wait_events env r2))) @
           map (frame_call (wait_events env r2)) (held_frames env (wait_events env r2))" by blast
      have "queued_call (wait_events env r2) = queued_call r1" "queue_list (critical_queue (wait_events env r2)) = queue_list q"
        unfolding w unfolding r2_def by (simp_all add: queued_call_def target_def fun_eq_iff)
      then have "set (map (queued_call r1) (queue_list q)) \<subseteq> set (calls r3)" using r3(2) by auto
      moreover have "(callback (target r1 (ctx_handler_hash ctx)), z_payload smp) \<in> set (map (queued_call r1) (queue_list q))"
        by (simp add: accept(4) queued_call_def)
      ultimately have "(callback (target r1 (ctx_handler_hash ctx)), z_payload smp) \<in> set (calls r3)" by blast
      with woken r3(1) show ?thesis using accept(1) unfolding r2_def [symmetric] by blast
    qed (use h in simp)
  qed
  with r1 show ?thesis by blast
qed

text \<open>A kernel with the documented behaviour.\<close>

definition waking_env :: env where
  "waking_env = sample_env\<lparr>wait_result := (\<lambda>tr. if eventfd_pending tr \<and> poll_armed tr then (0, 1) else (- 62, 0))\<rparr>"

lemma waking_env_ok: "env_ok waking_env" "kernel_wakes waking_env" "kernel_quiet waking_env" "sqe_available waking_env = (\<lambda>tr. True)"
  using sample_env_ok by (simp_all add: env_ok_def waking_env_def kernel_wakes_def kernel_quiet_def sample_env_def)

theorem no_lost_wakeup_witness:
  "\<exists>r1. run_events waking_env [Pass, Pass] (run_start waking_env two_topics) = Some (Inr r1) \<and> poll_armed (io_trace r1)"
  using no_lost_wakeup [OF two_topics_inv waking_env_ok(1,2,4), of "[Pass, Pass]"] by (auto simp: events_ok_def)

text \<open>
  C34. Arming the poll is never retried: when the submission queue is full the poll stays
  unarmed, and since only a completed wait arms it again and nothing completes without an
  armed poll, every later event and pass leaves it unarmed. From then on no eventfd write,
  of a CRITICAL sample or a stop, ends a wait early.
\<close>

theorem missed_rearm_is_final:
  assumes "reactor_inv r" "env_ok env" "kernel_quiet env" "\<not> poll_armed (io_trace r)"
    and "\<not> sqe_available env (io_trace r)" and "events_ok r evs"
  shows "\<not> poll_armed (io_trace (arm_poll_eventfd env r)) \<and>
         (\<exists>r'. run_events env evs (arm_poll_eventfd env r) = Some (Inr r') \<and> \<not> poll_armed (io_trace r'))"
proof -
  define a where "a = arm_poll_eventfd env r"
  have a: "a = r\<lparr>io_trace := io_trace r @ [GetSqe], logs := logs r @ [SqFull]\<rparr>"
    using assms(5) by (simp add: a_def arm_poll_eventfd_def Let_def io_def spdlog_def)
  then have ua: "\<not> poll_armed (io_trace a)" using assms(4) by simp
  have inv: "reactor_inv a" using assms(1) by (simp add: a)
  have "events_ok a evs" using assms(6) by (simp add: a events_ok_def subscribed_def ctx_ok_def)
  then have "\<exists>r'. run_events env evs a = Some (Inr r') \<and> reactor_inv r' \<and> subscribed r' = subscribed a \<and> poll_armed (io_trace r') = False"
  proof (rule events_keep_poll [OF inv assms(2)])
    fix r1 r2 :: "'a reactor"
    assume "reactor_inv r1" "poll_armed (io_trace r1) = False" "handle_events env r1 = Some (Inr r2)"
    then show "poll_armed (io_trace r2) = False"
      using pass_waits [OF _ assms(2)] wait_stays_unarmed [OF assms(3)] by metis
  qed (simp add: ua)
  with ua show ?thesis by (auto simp: a_def)
qed

theorem missed_rearm_is_final_witness:
  "\<exists>r'. run_events (waking_env\<lparr>sqe_available := (\<lambda>tr. False)\<rparr>) [Stop, Pass]
     (arm_poll_eventfd (waking_env\<lparr>sqe_available := (\<lambda>tr. False)\<rparr>) two_topics) = Some (Inr r') \<and> \<not> poll_armed (io_trace r')"
proof -
  let ?env = "waking_env\<lparr>sqe_available := (\<lambda>tr. False)\<rparr>"
  have "env_ok ?env" "kernel_quiet ?env" "\<not> sqe_available ?env (io_trace two_topics)"
    using waking_env_ok by (simp_all add: env_ok_def kernel_quiet_def)
  moreover have "\<not> poll_armed (io_trace two_topics)" by (simp add: two_topics_fields poll_armed_def)
  moreover have "events_ok two_topics [Stop, Pass]" by (simp add: events_ok_def)
  ultimately show ?thesis using missed_rearm_is_final [OF two_topics_inv] by blast
qed

subsection \<open>Running twice\<close>

definition declared :: "io_call list \<Rightarrow> nat" where
  "declared tr = length (filter (\<lambda>c. case c of DeclareSubscriber _ \<Rightarrow> True | _ \<Rightarrow> False) tr)"

lemma declared_append [simp]: "declared (tr @ cs) = declared tr + declared cs"
  by (simp add: declared_def)

lemma subscribe_all:
  assumes "\<forall>h \<in> set hs. keyexpr_valid env (path h)" "subscribe_ok env = (\<lambda>tr p. True)"
  shows "length (contexts (fold (subscribe env) hs r)) = length (contexts r) + length hs \<and>
         declared (io_trace (fold (subscribe env) hs r)) = declared (io_trace r) + length hs"
  using assms by (induction hs arbitrary: r) (auto simp: subscribe_def Let_def io_def declared_def)

lemma run_start_declared:
  assumes "\<forall>h \<in> set (handlers r). keyexpr_valid env (path h)" "subscribe_ok env = (\<lambda>tr p. True)"
  shows "length (contexts (run_start env r)) = length (handlers r)"
    "declared (io_trace (run_start env r)) = declared (io_trace r) + length (handlers r)"
  using subscribe_all [of "handlers r" env "r\<lparr>running := True, contexts := [], background_cache := pre_allocate_all (handlers r) (background_cache r)\<rparr>"] assms
  by (simp_all add: run_start_def Let_def pre_allocate_handlers_def spdlog_def arm_poll_eventfd_def
      subscribe_liveliness_def io_def declared_def)

text \<open>
  C35. Running a second time frees the contexts of the first run while their subscriptions
  stay declared: after it there are twice as many live subscriptions as contexts, so half
  of the callbacks hold a pointer to a freed context.
\<close>

theorem rerun_frees_live_contexts:
  assumes "reactor_inv r" "\<forall>h \<in> set (handlers r). keyexpr_valid env (path h)" "subscribe_ok env = (\<lambda>tr p. True)"
    and "r2 = run_start env (stop (run_start env r))"
  shows "length (contexts r2) = length (handlers r) \<and>
         declared (io_trace r2) = declared (io_trace r) + 2 * length (handlers r)"
proof -
  have st: "handlers (stop (run_start env r)) = handlers r" "declared (io_trace (stop (run_start env r))) = declared (io_trace (run_start env r))"
    using run_start_spec(4) [OF assms(1)] by (simp_all add: stop_def Let_def io_def declared_def)
  then show ?thesis
    using run_start_declared [of "stop (run_start env r)" env] run_start_declared [of r env] assms(2-4) by simp
qed

theorem rerun_frees_live_contexts_witness:
  "length (contexts (run_start sample_env (stop (run_start sample_env two_topics)))) = 2 \<and>
   declared (io_trace (run_start sample_env (stop (run_start sample_env two_topics)))) = 4"
proof -
  have "\<forall>h \<in> set (handlers two_topics). keyexpr_valid sample_env (path h)" "subscribe_ok sample_env = (\<lambda>tr p. True)"
    by (simp_all add: two_topics_fields sample_env_def)
  from rerun_frees_live_contexts [OF two_topics_inv this refl] show ?thesis
    by (simp add: two_topics_fields declared_def)
qed

end
