(* ===== verification/Reactor_Threads.thy ===== *)
theory Reactor_Threads
  imports Reactor_Run
begin

text \<open>
  The threads of a running reactor and their interleavings: the loop of \<^verbatim>\<open>run\<close> and
  \<^verbatim>\<open>handle_events\<close>, any number of Zenoh threads inside \<^verbatim>\<open>zenoh_data_callback\<close>,
  and threads that call \<^verbatim>\<open>stop\<close>. Between two steps of one thread every other thread
  may run. One push, one pop, and one access to a slot are single steps: their own
  interleavings are those of \<^verbatim>\<open>MPSC_Concurrent\<close> and \<^verbatim>\<open>Spin_Lock\<close>.
\<close>

subsection \<open>Threads\<close>

text \<open>
  Where the loop is, with its local variables: the two counts of the queue's loop and the
  popped sample, the background count, the keys still to visit and the frame taken.
\<close>

datatype loop_pc =
    LCheck | LSync
  | LPop u64 u64 | LCall u64 u64 CriticalSample
  | LDrain u64 "u64 list" | LFrame u64 "u64 list" sample | LTotals
  | LWait | LRead | LSeen | LArm
  | LDone

text \<open>A callback after the verifier, before the push or put, and before the eventfd write.\<close>

datatype thread_pc =
    Outside
  | Tracking CallbackContext z_sample
  | Sending CallbackContext z_sample
  | Waking int

text \<open>
  The last four fields record what happened: the samples the queue took, with the priority
  of their subscription, how many it refused, the samples and frames whose handlers were
  called, and how many frames were put for each topic.
\<close>

record 'cb conc =
  mem :: "'cb reactor"
  loop :: loop_pc
  pcs :: "nat \<Rightarrow> thread_pc"
  conc_fault :: "mem_error option"
  taken_in :: "(CriticalSample \<times> TopicPriority) list"
  turned_away :: nat
  handled :: "(CriticalSample + sample) list"
  stored :: "u64 \<Rightarrow> nat"

subsection \<open>Steps of the loop\<close>

definition take_slot :: "u64 \<Rightarrow> latest_cache \<Rightarrow> mem_error + sample option \<times> latest_cache" where
  "take_slot hash c =
     (case slots c hash of
        None \<Rightarrow> Inr (None, c)
      | Some a \<Rightarrow>
          (case deref a c of
             Inl e \<Rightarrow> Inl e
           | Inr s \<Rightarrow> (case take_sample s of (f, s') \<Rightarrow> Inr (f, store_slot a s' c))))"

definition pop_step :: "env \<Rightarrow> u64 \<Rightarrow> u64 \<Rightarrow> 'cb conc \<Rightarrow> 'cb conc" where
  "pop_step env c n s =
     (let r = mem s
      in case pop (critical_queue r) of
           Inl e \<Rightarrow> s\<lparr>conc_fault := Some e\<rparr>
         | Inr (None, q) \<Rightarrow>
             s\<lparr>mem := finish_queue c n (r\<lparr>critical_queue := q\<rparr>),
               loop := LDrain 0 (slot_order env (background_cache r))\<rparr>
         | Inr (Some cs, q) \<Rightarrow> s\<lparr>mem := r\<lparr>critical_queue := q\<rparr>, loop := LCall c n cs\<rparr>)"

definition call_step :: "env \<Rightarrow> u64 \<Rightarrow> u64 \<Rightarrow> CriticalSample \<Rightarrow> 'cb conc \<Rightarrow> 'cb conc" where
  "call_step env c n cs s =
     (case dispatch_queued env cs (Inr (mem s, c, n)) of
        Inl e \<Rightarrow> s\<lparr>conc_fault := Some e\<rparr>
      | Inr (r, c', n') \<Rightarrow> s\<lparr>mem := r, loop := LPop c' n', handled := handled s @ [Inl cs]\<rparr>)"

definition drain_step :: "u64 \<Rightarrow> u64 \<Rightarrow> u64 list \<Rightarrow> 'cb conc \<Rightarrow> 'cb conc" where
  "drain_step n hash ord s =
     (let r = mem s
      in case take_slot hash (background_cache r) of
           Inl e \<Rightarrow> s\<lparr>conc_fault := Some e\<rparr>
         | Inr (None, c) \<Rightarrow> s\<lparr>mem := r\<lparr>background_cache := c\<rparr>, loop := LDrain n ord\<rparr>
         | Inr (Some f, c) \<Rightarrow> s\<lparr>mem := r\<lparr>background_cache := c\<rparr>, loop := LFrame n ord f\<rparr>)"

definition frame_step :: "env \<Rightarrow> u64 \<Rightarrow> u64 list \<Rightarrow> sample \<Rightarrow> 'cb conc \<Rightarrow> 'cb conc" where
  "frame_step env n ord f s =
     (case f of (hash, data, t) \<Rightarrow>
        (case dispatch_background env hash data t (Inr (mem s, n)) of
           Inl e \<Rightarrow> s\<lparr>conc_fault := Some e\<rparr>
         | Inr (r, n') \<Rightarrow> s\<lparr>mem := r, loop := LDrain n' ord, handled := handled s @ [Inr f]\<rparr>))"

text \<open>The wait returns with what the kernel reports for the calls made so far.\<close>

definition wait_step :: "env \<Rightarrow> 'cb conc \<Rightarrow> 'cb conc" where
  "wait_step env s =
     (case wait_result env (io_trace (mem s)) of (ret, user_data) \<Rightarrow>
        s\<lparr>mem := io WaitCqe (mem s),
          loop := (if ret = 0 then if user_data = 1 then LRead else LSeen else LCheck)\<rparr>)"

fun loop_step :: "env \<Rightarrow> 'cb conc \<Rightarrow> loop_pc \<Rightarrow> 'cb conc" where
  "loop_step env s LCheck = s\<lparr>loop := (if running (mem s) then LSync else LDone)\<rparr>"
| "loop_step env s LSync = s\<lparr>mem := sync_queue_drops (mem s), loop := LPop 0 0\<rparr>"
| "loop_step env s (LPop c n) = pop_step env c n s"
| "loop_step env s (LCall c n cs) = call_step env c n cs s"
| "loop_step env s (LDrain n []) = s\<lparr>mem := count_background n (mem s), loop := LTotals\<rparr>"
| "loop_step env s (LDrain n (hash # ord)) = drain_step n hash ord s"
| "loop_step env s (LFrame n ord f) = frame_step env n ord f s"
| "loop_step env s LTotals =
     (case sync_background_drops env (mem s) of
        Inl e \<Rightarrow> s\<lparr>conc_fault := Some e\<rparr>
      | Inr r \<Rightarrow> s\<lparr>mem := r, loop := LWait\<rparr>)"
| "loop_step env s LWait = wait_step env s"
| "loop_step env s LRead = s\<lparr>mem := io (EventfdRead (wakeup_fd (mem s))) (mem s), loop := LSeen\<rparr>"
| "loop_step env s LSeen = s\<lparr>mem := io CqeSeen (mem s), loop := LArm\<rparr>"
| "loop_step env s LArm = s\<lparr>mem := arm_poll_eventfd env (mem s), loop := LCheck\<rparr>"
| "loop_step env s LDone = s"

subsection \<open>Steps of the other threads\<close>

definition set_thread :: "nat \<Rightarrow> thread_pc \<Rightarrow> 'cb conc \<Rightarrow> 'cb conc" where
  "set_thread t pc s = s\<lparr>pcs := (pcs s)(t := pc)\<rparr>"

definition send_step :: "env \<Rightarrow> nat \<Rightarrow> CallbackContext \<Rightarrow> z_sample \<Rightarrow> 'cb conc \<Rightarrow> 'cb conc" where
  "send_step env t ctx smp s =
     (let r = mem s
      in if ctx_priority ctx \<noteq> BACKGROUND
         then case push_sample env ctx (z_payload smp) r of
                Inl e \<Rightarrow> s\<lparr>conc_fault := Some e\<rparr>
              | Inr (False, r1) \<Rightarrow>
                  set_thread t Outside
                    (s\<lparr>mem := spdlog (MpscFull (ctx_priority ctx) (dropped_count (critical_queue r1))) r1,
                       turned_away := turned_away s + 1\<rparr>)
              | Inr (True, r1) \<Rightarrow>
                  set_thread t (if ctx_priority ctx = CRITICAL then Waking (ctx_wakeup_fd ctx) else Outside)
                    (s\<lparr>mem := r1,
                       taken_in := taken_in s @ [(new_sample env ctx (z_payload smp) r, ctx_priority ctx)]\<rparr>)
         else case cache_sample env ctx (z_payload smp) r of
                Inl e \<Rightarrow> s\<lparr>conc_fault := Some e\<rparr>
              | Inr r1 \<Rightarrow>
                  set_thread t Outside
                    (s\<lparr>mem := r1, stored := (stored s)(ctx_handler_hash ctx := stored s (ctx_handler_hash ctx) + 1)\<rparr>))"

fun thread_step :: "env \<Rightarrow> nat \<Rightarrow> 'cb conc \<Rightarrow> thread_pc \<Rightarrow> 'cb conc" where
  "thread_step env t s Outside = s"
| "thread_step env t s (Tracking ctx smp) =
     set_thread t (Sending ctx smp) (s\<lparr>mem := track_session env smp (mem s)\<rparr>)"
| "thread_step env t s (Sending ctx smp) = send_step env t ctx smp s"
| "thread_step env t s (Waking fd) = set_thread t Outside (s\<lparr>mem := io (EventfdWrite fd) (mem s)\<rparr>)"

text \<open>The first store of \<^verbatim>\<open>stop\<close>; its eventfd write is a step of its own.\<close>

definition stop_store :: "nat \<Rightarrow> 'cb conc \<Rightarrow> 'cb conc" where
  "stop_store t s =
     set_thread t (if wakeup_fd (mem s) \<ge> 0 then Waking (wakeup_fd (mem s)) else Outside)
       (s\<lparr>mem := (mem s)\<lparr>running := False\<rparr>\<rparr>)"

text \<open>
  One step of anybody. Zenoh calls back with a context of a declared subscription; a sample
  the length check or the verifier rejects ends its callback.
\<close>

inductive conc_step :: "env \<Rightarrow> 'cb conc \<Rightarrow> 'cb conc \<Rightarrow> bool" for env where
  loop_moves: "loop s \<noteq> LDone \<Longrightarrow> conc_step env s (loop_step env s (loop s))"
| callback_enters: "pcs s t = Outside \<Longrightarrow> ctx \<in> set (contexts (mem s)) \<Longrightarrow> admissible env smp \<Longrightarrow>
    conc_step env s (set_thread t (Tracking ctx smp) s)"
| thread_moves: "pcs s t \<noteq> Outside \<Longrightarrow> conc_step env s (thread_step env t s (pcs s t))"
| stop_enters: "pcs s t = Outside \<Longrightarrow> conc_step env s (stop_store t s)"
| liveliness_changes: "conc_step env s (s\<lparr>mem := zenoh_liveliness_callback env smp (mem s)\<rparr>)"
| stats_reset: "reset_stats env (mem s) = Inr r \<Longrightarrow> conc_step env s (s\<lparr>mem := r\<rparr>)"

definition conc_start :: "env \<Rightarrow> 'cb reactor \<Rightarrow> 'cb conc" where
  "conc_start env r =
     \<lparr>mem = run_start env r, loop = LCheck, pcs = (\<lambda>t. Outside), conc_fault = None,
      taken_in = [], turned_away = 0, handled = [], stored = (\<lambda>k. 0)\<rparr>"

inductive conc_reachable :: "env \<Rightarrow> 'cb reactor \<Rightarrow> 'cb conc \<Rightarrow> bool" for env r where
  conc_begin: "conc_reachable env r (conc_start env r)"
| conc_next: "conc_reachable env r s \<Longrightarrow> conc_step env s s' \<Longrightarrow> conc_reachable env r s'"

inductive_cases conc_step_cases: "conc_step env s s'"

subsection \<open>What the threads keep\<close>

text \<open>The part of the reactor no thread changes, and the part most steps leave alone.\<close>

definition same_setup :: "'cb reactor \<Rightarrow> 'cb reactor \<Rightarrow> bool" where
  "same_setup r r' \<longleftrightarrow>
     handlers r' = handlers r \<and> handler_index r' = handler_index r \<and> handler_paths r' = handler_paths r \<and>
     contexts r' = contexts r \<and> wakeup_fd r' = wakeup_fd r \<and> slots (background_cache r') = slots (background_cache r)"

definition same_core :: "'cb reactor \<Rightarrow> 'cb reactor \<Rightarrow> bool" where
  "same_core r r' \<longleftrightarrow>
     same_setup r r' \<and> critical_queue r' = critical_queue r \<and> background_cache r' = background_cache r \<and> calls r' = calls r"

lemma same_core_refl [simp]: "same_core r r"
  by (simp add: same_core_def same_setup_def)

lemma same_core_inv:
  assumes "same_core r r'" "windows_inv r'" "reactor_inv r"
  shows "reactor_inv r'"
proof -
  have "handlers_inv r' = handlers_inv r" "queue_inv r' = queue_inv r" "frames_inv r' = frames_inv r"
    using assms(1) by (simp_all add: same_core_def same_setup_def handlers_inv_def queue_inv_def frames_inv_def)
  with assms(2,3) show ?thesis by (simp add: reactor_inv_def)
qed

named_theorems core_steps \<open>operations that keep the core and the windows\<close>

lemma core_io [core_steps]: "same_core r (io c r)" "windows_inv (io c r) = windows_inv r"
  by (simp_all add: same_core_def same_setup_def io_def windows_inv_def)

lemma core_log [core_steps]: "same_core r (spdlog l r)" "windows_inv (spdlog l r) = windows_inv r"
  by (simp_all add: same_core_def same_setup_def spdlog_def windows_inv_def)

lemma core_sync [core_steps]: "same_core r (sync_queue_drops r)" "windows_inv (sync_queue_drops r) = windows_inv r"
  by (simp_all add: same_core_def same_setup_def sync_queue_drops_def charge_drops_def Let_def windows_inv_def)

lemma core_finish [core_steps]: "same_core r (finish_queue c n r)" "windows_inv (finish_queue c n r) = windows_inv r"
  by (simp_all add: same_core_def same_setup_def finish_queue_def spdlog_def Let_def windows_inv_def)

lemma core_count [core_steps]: "same_core r (count_background n r)" "windows_inv (count_background n r) = windows_inv r"
  by (simp_all add: same_core_def same_setup_def count_background_def windows_inv_def)

lemma core_totals:
  assumes "sync_background_drops env r = Inr r'"
  shows "same_core r r'" "windows_inv r' = windows_inv r" "io_trace r' = io_trace r" "running r' = running r"
  using assms by (auto simp: same_core_def same_setup_def sync_background_drops_def Let_def windows_inv_def split: sum.splits)

lemma core_track [core_steps]: "same_core r (track_session env smp r)" "windows_inv (track_session env smp r) = windows_inv r"
  by (simp_all add: same_core_def same_setup_def track_session_def read_clock_def windows_inv_def split: option.split)

lemma core_liveliness [core_steps]:
  "same_core r (zenoh_liveliness_callback env smp r)" "windows_inv (zenoh_liveliness_callback env smp r) = windows_inv r"
  by (simp_all add: same_core_def same_setup_def zenoh_liveliness_callback_def read_clock_def io_def spdlog_def windows_inv_def)

lemma core_arm [core_steps]: "same_core r (arm_poll_eventfd env r)" "windows_inv (arm_poll_eventfd env r) = windows_inv r"
  by (simp_all add: same_core_def same_setup_def arm_poll_eventfd_def Let_def io_def spdlog_def windows_inv_def)

lemma core_running [core_steps]: "same_core r (r\<lparr>running := b\<rparr>)" "windows_inv (r\<lparr>running := b\<rparr>) = windows_inv r"
  by (simp_all add: same_core_def same_setup_def windows_inv_def)

lemma core_reset: "reset_stats env r = Inr r' \<Longrightarrow> same_core r r' \<and> windows_inv r' \<and> io_trace r' = io_trace r \<and> running r' = running r"
  by (auto simp: same_core_def same_setup_def reset_stats_def zero_counters_def clear_rest_def Let_def windows_inv_def LATENCY_WINDOW_SIZE_def split: sum.splits)

subsection \<open>The invariant\<close>

fun lefts :: "('a + 'b) list \<Rightarrow> 'a list" where
  "lefts [] = []"
| "lefts (Inl x # xs) = x # lefts xs"
| "lefts (Inr y # xs) = lefts xs"

fun rights :: "('a + 'b) list \<Rightarrow> 'b list" where
  "rights [] = []"
| "rights (Inl x # xs) = rights xs"
| "rights (Inr y # xs) = y # rights xs"

lemma lefts_append [simp]: "lefts (xs @ ys) = lefts xs @ lefts ys"
  by (induction xs rule: lefts.induct) simp_all

lemma rights_append [simp]: "rights (xs @ ys) = rights xs @ rights ys"
  by (induction xs rule: rights.induct) simp_all

text \<open>The sample or frame the loop has taken and not yet given to its handler.\<close>

fun in_hand :: "loop_pc \<Rightarrow> CriticalSample list" where
  "in_hand (LCall c n cs) = [cs]"
| "in_hand pc = []"

fun frame_in_hand :: "loop_pc \<Rightarrow> sample list" where
  "frame_in_hand (LFrame n ord f) = [f]"
| "frame_in_hand pc = []"

definition handled_call :: "'cb reactor \<Rightarrow> CriticalSample + sample \<Rightarrow> 'cb \<times> bytes" where
  "handled_call r x = (case x of Inl cs \<Rightarrow> queued_call r cs | Inr f \<Rightarrow> frame_call r f)"

definition frames_for :: "u64 \<Rightarrow> sample list \<Rightarrow> nat" where
  "frames_for k fs = length (filter (\<lambda>f. fst f = k) fs)"

lemma frames_for_simps [simp]:
  "frames_for k [] = 0" "frames_for k (f # fs) = (if fst f = k then 1 else 0) + frames_for k fs"
  "frames_for k (fs @ gs) = frames_for k fs + frames_for k gs"
  by (simp_all add: frames_for_def)

text \<open>\<open>r0\<close> is the reactor when the loop starts.\<close>

definition base_inv :: "'cb reactor \<Rightarrow> 'cb conc \<Rightarrow> bool" where
  "base_inv r0 s \<longleftrightarrow>
     conc_fault s = None \<and> reactor_inv (mem s) \<and> same_setup r0 (mem s) \<and>
     (\<forall>t ctx smp. pcs s t = Tracking ctx smp \<or> pcs s t = Sending ctx smp \<longrightarrow> ctx \<in> set (contexts r0)) \<and>
     (\<forall>cs \<in> set (in_hand (loop s)). handler_index r0 (cs_handler_hash cs) \<noteq> None) \<and>
     (\<forall>f \<in> set (frame_in_hand (loop s)). handler_index r0 (fst f) \<noteq> None)"

definition queue_order :: "'cb reactor \<Rightarrow> 'cb conc \<Rightarrow> bool" where
  "queue_order r0 s \<longleftrightarrow>
     map fst (taken_in s) = lefts (handled s) @ in_hand (loop s) @ queue_list (critical_queue (mem s)) \<and>
     dropped (critical_queue (mem s)) = dropped (critical_queue r0) + of_nat (turned_away s)"

definition call_order :: "'cb reactor \<Rightarrow> 'cb conc \<Rightarrow> bool" where
  "call_order r0 s \<longleftrightarrow> calls (mem s) = calls r0 @ map (handled_call r0) (handled s)"

definition frame_budget :: "'cb reactor \<Rightarrow> 'cb conc \<Rightarrow> bool" where
  "frame_budget r0 s \<longleftrightarrow>
     (\<forall>k sl. view (background_cache (mem s)) k = Some sl \<longrightarrow>
        of_nat (stored s k) = of_nat (frames_for k (rights (handled s) @ frame_in_hand (loop s))) +
          (if has_data sl then 1 else 0) + (drop_count sl - drop_count (the (view (background_cache r0) k))))"

definition conc_inv :: "'cb reactor \<Rightarrow> 'cb conc \<Rightarrow> bool" where
  "conc_inv r0 s \<longleftrightarrow> base_inv r0 s \<and> queue_order r0 s \<and> call_order r0 s \<and> frame_budget r0 s"

lemmas conc_invs = conc_inv_def base_inv_def queue_order_def call_order_def frame_budget_def

lemma same_setup_trans: "same_setup r r' \<Longrightarrow> same_setup r' r'' \<Longrightarrow> same_setup r r''"
  by (simp add: same_setup_def)

text \<open>A step that keeps the core, and takes or gives nothing out of hand.\<close>

lemma conc_inv_core:
  assumes "conc_inv r0 s" "same_core (mem s) r" "windows_inv r"
    and "in_hand pc = in_hand (loop s)" "frame_in_hand pc = frame_in_hand (loop s)"
  shows "conc_inv r0 (s\<lparr>mem := r, loop := pc\<rparr>)"
proof -
  have "reactor_inv r" using same_core_inv [OF assms(2,3)] assms(1) by (simp add: conc_invs)
  moreover have "same_setup r0 r"
    using assms(1,2) same_setup_trans [of r0 "mem s" r] by (simp add: conc_invs same_core_def)
  ultimately show ?thesis using assms by (simp add: conc_invs same_core_def)
qed

lemma conc_inv_loop:
  assumes "conc_inv r0 s" "in_hand pc = in_hand (loop s)" "frame_in_hand pc = frame_in_hand (loop s)"
  shows "conc_inv r0 (s\<lparr>loop := pc\<rparr>)"
  using assms by (simp add: conc_invs)

lemma conc_inv_shared:
  assumes "conc_inv r0 s" "same_core (mem s) r" "windows_inv r"
  shows "conc_inv r0 (s\<lparr>mem := r\<rparr>)"
  using conc_inv_core [OF assms refl refl] by simp

lemma conc_inv_thread:
  assumes "conc_inv r0 s" "\<forall>ctx smp. pc = Tracking ctx smp \<or> pc = Sending ctx smp \<longrightarrow> ctx \<in> set (contexts r0)"
  shows "conc_inv r0 (set_thread t pc s)"
  using assms by (auto simp: conc_invs set_thread_def)

lemma windows_of_inv: "conc_inv r0 s \<Longrightarrow> windows_inv (mem s)"
  by (simp add: conc_invs reactor_inv_def)

subsection \<open>Steps that move samples and frames\<close>

lemma mpsc_pop_cases:
  assumes "queue_inv r"
  obtains (empty) "pop (critical_queue r) = Inr (None, critical_queue r)" "queue_list (critical_queue r) = []"
    | (item) cs q where "pop (critical_queue r) = Inr (Some cs, q)" "queue_list (critical_queue r) = cs # queue_list q"
      "mpsc_inv q" "Capacity q = 512" "dropped q = dropped (critical_queue r)"
proof -
  have q: "mpsc_inv (critical_queue r)" "Capacity (critical_queue r) = 512" using assms by (simp_all add: queue_inv_def)
  have cap: "Capacity q' = Capacity (critical_queue r)" if "pop (critical_queue r) = Inr (x, q')" for x q'
    using that by (auto simp: pop_def Let_def read_at_def destroy_at_def split: if_splits sum.splits option.splits)
  show thesis
  proof (cases rule: mq.pop_cases [OF q(1)])
    case 1
    then show ?thesis using that(1) by simp
  next
    case (2 cs q')
    then show ?thesis using that(2) [of cs q'] cap [OF 2(2)] q(2) by simp
  qed
qed

lemma pop_step_inv:
  assumes "conc_inv r0 s" "loop s = LPop c n"
  shows "conc_inv r0 (pop_step env c n s)"
proof -
  have qi: "queue_inv (mem s)" using assms(1) by (simp add: conc_invs reactor_inv_def)
  then show ?thesis
  proof (cases rule: mpsc_pop_cases)
    case empty
    then show ?thesis
      using conc_inv_core [OF assms(1), of "finish_queue c n (mem s)" "LDrain 0 (slot_order env (background_cache (mem s)))"]
        windows_of_inv [OF assms(1)] assms(2)
      by (simp add: pop_step_def core_steps Let_def)
  next
    case (item cs q)
    let ?r = "(mem s)\<lparr>critical_queue := q\<rparr>"
    have idx: "\<forall>x \<in> set (cs # queue_list q). handler_index (mem s) (cs_handler_hash x) \<noteq> None"
      using qi by (simp add: queue_inv_def item(2))
    have "handlers_inv ?r = handlers_inv (mem s)" "frames_inv ?r = frames_inv (mem s)" "windows_inv ?r = windows_inv (mem s)"
      by (simp_all add: handlers_inv_def frames_inv_def windows_inv_def)
    moreover have "queue_inv ?r" using item idx by (simp add: queue_inv_def)
    ultimately have "reactor_inv ?r" using assms(1) by (simp add: conc_invs reactor_inv_def)
    moreover have "same_setup r0 ?r" "handler_index (mem s) = handler_index r0"
      using assms(1) by (simp_all add: conc_invs same_setup_def)
    ultimately show ?thesis
      using assms item idx by (simp add: conc_invs pop_step_def)
  qed
qed

text \<open>A call keeps everything but the calls, the clock and the windows.\<close>

lemma dispatched_inv:
  assumes "dispatched r new r'" "reactor_inv r"
  shows "reactor_inv r'" "same_setup r r'"
proof -
  have w: "windows_inv r'" using dispatched_fields(6) [OF assms(1)] .
  obtain n cl nl bl where r': "r' = r\<lparr>clock_reads := n, critical_latencies := cl, normal_latencies := nl,
      background_latencies := bl, calls := calls r @ new\<rparr>"
    using assms(1) by (auto simp: dispatched_def)
  have "handlers_inv r' = handlers_inv r" "queue_inv r' = queue_inv r" "frames_inv r' = frames_inv r"
    by (simp_all add: r' handlers_inv_def queue_inv_def frames_inv_def)
  with w assms(2) show "reactor_inv r'" by (simp add: reactor_inv_def)
  show "same_setup r r'" by (simp add: r' same_setup_def)
qed

lemma setup_targets:
  assumes "same_setup r0 r"
  shows "target r = target r0" "queued_call r = queued_call r0" "frame_call r = frame_call r0"
  using assms by (simp_all add: same_setup_def target_def queued_call_def frame_call_def fun_eq_iff)

lemma call_step_inv:
  assumes "conc_inv r0 s" "loop s = LCall c n cs"
  shows "conc_inv r0 (call_step env c n cs s)"
proof -
  have st: "same_setup r0 (mem s)" and ri: "reactor_inv (mem s)" using assms(1) by (simp_all add: conc_invs)
  have "handlers_inv (mem s)" "windows_inv (mem s)" using ri by (simp_all add: reactor_inv_def)
  moreover have "handler_index (mem s) (cs_handler_hash cs) \<noteq> None"
    using assms st by (simp add: conc_invs same_setup_def)
  ultimately obtain r' where r': "dispatch_queued env cs (Inr (mem s, c, n)) =
      Inr (r', if is_critical (mem s) cs then c + 1 else c, if is_critical (mem s) cs then n else n + 1)"
    "dispatched (mem s) [queued_call (mem s) cs] r'"
    by (rule dispatch_queued_step)
  note f = dispatched_fields [OF r'(2)]
  have "same_setup r0 r'" using same_setup_trans [OF st dispatched_inv(2) [OF r'(2) ri]] .
  then show ?thesis
    using assms dispatched_inv(1) [OF r'(2) ri] f setup_targets [OF st]
    by (simp add: conc_invs call_step_def r'(1) handled_call_def)
qed

lemma frame_step_inv:
  assumes "conc_inv r0 s" "loop s = LFrame n ord f"
  shows "conc_inv r0 (frame_step env n ord f s)"
proof -
  obtain hash data t where fe: "f = (hash, data, t)" by (cases f)
  have st: "same_setup r0 (mem s)" and ri: "reactor_inv (mem s)" using assms(1) by (simp_all add: conc_invs)
  have "handlers_inv (mem s)" "windows_inv (mem s)" using ri by (simp_all add: reactor_inv_def)
  moreover have "handler_index (mem s) hash \<noteq> None"
    using assms st by (simp add: conc_invs same_setup_def fe)
  ultimately obtain r' where r': "dispatch_background env hash data t (Inr (mem s, n)) = Inr (r', n + 1)"
    "dispatched (mem s) [(callback (target (mem s) hash), data)] r'"
    by (rule dispatch_background_step)
  note f = dispatched_fields [OF r'(2)]
  have "same_setup r0 r'" using same_setup_trans [OF st dispatched_inv(2) [OF r'(2) ri]] .
  then show ?thesis
    using assms dispatched_inv(1) [OF r'(2) ri] f setup_targets [OF st]
    by (simp add: conc_invs frame_step_def r'(1) handled_call_def fe frame_call_def)
qed

lemma take_slot_cases:
  assumes "cache_inv c"
  obtains (no_slot) "take_slot h c = Inr (None, c)" "slots c h = None"
    | (slot) s c' where "view c h = Some s" "take_slot h c = Inr (fst (take_sample s), c')"
      "view c' = (view c)(h \<mapsto> snd (take_sample s))" "slots c' = slots c" "cache_inv c'"
proof (cases "slots c h")
  case None
  then show thesis using that(1) by (simp add: take_slot_def)
next
  case (Some a)
  define s where "s = the (view c h)"
  have s: "deref a c = Inr s" "view c h = Some s" using deref_view [OF assms Some] by (simp_all add: s_def)
  have "take_slot h c = Inr (fst (take_sample s), store_slot a (snd (take_sample s)) c)"
    by (simp add: take_slot_def Some s(1) split_beta)
  then show thesis
    using that(2) [OF s(2)] view_store [OF assms Some] cache_inv_store [OF assms Some] by simp
qed

lemma take_sample_simps:
  "fst (take_sample s) = held_frame s" "has_data (snd (take_sample s)) = False"
  "drop_count (snd (take_sample s)) = drop_count s"
  by (simp_all add: take_sample_def held_frame_def)

text \<open>Storing into a slot a frame that belongs there, or taking one out.\<close>

lemma cache_change_inv:
  assumes "reactor_inv r" "cache_inv c" "slots c = slots (background_cache r)"
    and "view c = (view (background_cache r))(k \<mapsto> s)" "has_data s \<Longrightarrow> handler_hash s = k \<and> handler_index r k \<noteq> None"
  shows "reactor_inv (r\<lparr>background_cache := c\<rparr>)" "same_setup r (r\<lparr>background_cache := c\<rparr>)"
proof -
  have "frames_inv (r\<lparr>background_cache := c\<rparr>)"
    using assms by (auto simp: reactor_inv_def frames_inv_def)
  then show "reactor_inv (r\<lparr>background_cache := c\<rparr>)" 
    using assms(1) unfolding background_inv unfolding reactor_inv_def by blast
  show "same_setup r (r\<lparr>background_cache := c\<rparr>)" using assms(3) by (simp add: same_setup_def)
qed

lemma drain_step_inv:
  assumes "conc_inv r0 s" "loop s = LDrain n (hash # ord)"
  shows "conc_inv r0 (drain_step n hash ord s)"
proof -
  have ri: "reactor_inv (mem s)" and st: "same_setup r0 (mem s)" using assms(1) by (simp_all add: conc_invs)
  have c: "cache_inv (background_cache (mem s))" and fi: "frames_inv (mem s)"
    using ri by (simp_all add: reactor_inv_def frames_inv_def)
  from c show ?thesis
  proof (cases rule: take_slot_cases [where h = hash])
    case no_slot
    then show ?thesis using conc_inv_loop [OF assms(1), of "LDrain n ord"] assms(2) by (simp add: drain_step_def)
  next
    case (slot sl c')
    let ?r = "(mem s)\<lparr>background_cache := c'\<rparr>"
    have ri': "reactor_inv ?r" "same_setup (mem s) ?r"
      using cache_change_inv [OF ri slot(5,4,3)] by (simp_all add: take_sample_simps)
    have st': "same_setup r0 ?r" using same_setup_trans [OF st ri'(2)] .
    have key: "handler_hash sl = hash" "handler_index r0 hash \<noteq> None" if "has_data sl"
      using fi slot(1) that st by (auto simp: frames_inv_def same_setup_def)
    show ?thesis
    proof (cases "has_data sl")
      case False
      then have n: "fst (take_sample sl) = None" by (simp add: take_sample_simps held_frame_def)
      have "drain_step n hash ord s = s\<lparr>mem := ?r, loop := LDrain n ord\<rparr>"
        using slot(2) n by (simp add: drain_step_def Let_def)
      moreover have "frame_budget r0 (s\<lparr>mem := ?r, loop := LDrain n ord\<rparr>)"
        using assms False slot(1,3) by (auto simp: conc_invs take_sample_simps)
      ultimately show ?thesis using assms ri' st' by (simp add: conc_inv_def base_inv_def queue_order_def call_order_def)
    next
      case True
      define f where "f = (handler_hash sl, payload sl, put_time sl)"
      have n: "fst (take_sample sl) = Some f" using True by (simp add: take_sample_simps held_frame_def f_def)
      have "drain_step n hash ord s = s\<lparr>mem := ?r, loop := LFrame n ord f\<rparr>"
        using slot(2) n by (simp add: drain_step_def Let_def)
      moreover have "frame_budget r0 (s\<lparr>mem := ?r, loop := LFrame n ord f\<rparr>)"
        using assms True slot(1,3) key(1) by (auto simp: conc_invs take_sample_simps f_def)
      moreover have "handler_index r0 (fst f) \<noteq> None" using key True by (simp add: f_def)
      ultimately show ?thesis using assms ri' st' by (simp add: conc_inv_def base_inv_def queue_order_def call_order_def)
    qed
  qed
qed

subsection \<open>The steps of a callback\<close>

lemma push_sample_cases:
  assumes "reactor_inv r" "handler_index r (ctx_handler_hash ctx) \<noteq> None"
  obtains (accept) r' where "push_sample env ctx buf r = Inr (True, r')" "reactor_inv r'" "same_setup r r'"
      "queue_list (critical_queue r') = queue_list (critical_queue r) @ [new_sample env ctx buf r]"
      "dropped (critical_queue r') = dropped (critical_queue r)" "calls r' = calls r" "background_cache r' = background_cache r"
      "io_trace r' = io_trace r" "running r' = running r"
    | (reject) r' where "push_sample env ctx buf r = Inr (False, r')" "reactor_inv r'" "same_setup r r'"
      "queue_list (critical_queue r') = queue_list (critical_queue r)" "length (queue_list (critical_queue r)) = 511"
      "dropped (critical_queue r') = dropped (critical_queue r) + 1" "calls r' = calls r" "background_cache r' = background_cache r"
      "io_trace r' = io_trace r" "running r' = running r"
proof -
  have qi: "queue_inv r" using assms(1) by (simp add: reactor_inv_def)
  have inv: "reactor_inv (r\<lparr>clock_reads := Suc (clock_reads r), critical_queue := q\<rparr>)"
    if "mpsc_inv q" "Capacity q = 512" "set (queue_list q) \<subseteq> insert (new_sample env ctx buf r) (set (queue_list (critical_queue r)))" for q
  proof -
    have "handlers_inv (r\<lparr>clock_reads := Suc (clock_reads r), critical_queue := q\<rparr>) = handlers_inv r"
      "frames_inv (r\<lparr>clock_reads := Suc (clock_reads r), critical_queue := q\<rparr>) = frames_inv r"
      "windows_inv (r\<lparr>clock_reads := Suc (clock_reads r), critical_queue := q\<rparr>) = windows_inv r"
      by (simp_all add: handlers_inv_def frames_inv_def windows_inv_def)
    moreover have "queue_inv (r\<lparr>clock_reads := Suc (clock_reads r), critical_queue := q\<rparr>)"
      using that qi assms(2) by (auto simp: queue_inv_def new_sample_def)
    ultimately show ?thesis using assms(1) by (simp add: reactor_inv_def)
  qed
  from qi show thesis
  proof (cases rule: mpsc_push_cases [where cs = "new_sample env ctx buf r"])
    case (accept q)
    show thesis
      by (rule that(1) [of "r\<lparr>clock_reads := Suc (clock_reads r), critical_queue := q\<rparr>"])
         (use accept inv [of q] in \<open>simp_all add: push_sample_def read_clock_def same_setup_def\<close>)
  next
    case (reject q)
    show thesis
      by (rule that(2) [of "r\<lparr>clock_reads := Suc (clock_reads r), critical_queue := q\<rparr>"])
         (use reject inv [of q] in \<open>auto simp add: push_sample_def read_clock_def same_setup_def\<close>)
  qed
qed

lemma cache_sample_effect:
  assumes "reactor_inv r" "subscribed r ctx" "ctx_priority ctx = BACKGROUND"
  obtains r' sl t where "cache_sample env ctx buf r = Inr r'" "reactor_inv r'" "same_setup r r'"
    "view (background_cache r) (ctx_handler_hash ctx) = Some sl"
    "view (background_cache r') = (view (background_cache r))(ctx_handler_hash ctx \<mapsto> put (ctx_handler_hash ctx) buf t sl)"
    "critical_queue r' = critical_queue r" "calls r' = calls r" "io_trace r' = io_trace r" "running r' = running r"
proof -
  let ?k = "ctx_handler_hash ctx"
  have fi: "frames_inv r" and idx: "handler_index r ?k \<noteq> None"
    using assms(1,2) ctx_ok_index [of r ctx] by (simp_all add: reactor_inv_def subscribed_def)
  obtain a where a: "get_slot_fast ?k (background_cache r) = Some a"
    using assms(2,3) by (auto simp: subscribed_def get_slot_fast_def)
  define t where "t = steady_clock env (clock_reads r)"
  obtain c sl where c: "put_via a ?k buf t (background_cache r) = Inr c" "view (background_cache r) ?k = Some sl"
    "view c = (view (background_cache r))(?k \<mapsto> put ?k buf t sl)" "slots c = slots (background_cache r)"
    "frames_inv (r\<lparr>background_cache := c\<rparr>)"
    by (rule put_via_frames [OF fi idx a])
  define r' where "r' = r\<lparr>clock_reads := Suc (clock_reads r), background_cache := c\<rparr>"
  have "cache_sample env ctx buf r = Inr r'"
    using a c(1) by (simp add: cache_sample_def read_clock_def t_def r'_def)
  moreover have "reactor_inv r'"
  proof -
    have "handlers_inv r' = handlers_inv r" "queue_inv r' = queue_inv r" "windows_inv r' = windows_inv r"
      "frames_inv r' = frames_inv (r\<lparr>background_cache := c\<rparr>)"
      by (simp_all add: r'_def handlers_inv_def queue_inv_def windows_inv_def frames_inv_def)
    with assms(1) c(5) show ?thesis by (simp add: reactor_inv_def)
  qed
  ultimately show thesis
    by (rule that [where t = t]) (use c in \<open>simp_all add: r'_def same_setup_def\<close>)
qed

lemma send_step_inv:
  assumes "conc_inv r0 s" "pcs s t = Sending ctx smp" "subscribed r0 ctx"
  shows "conc_inv r0 (send_step env t ctx smp s)"
proof -
  have ri: "reactor_inv (mem s)" and st: "same_setup r0 (mem s)" using assms(1) by (simp_all add: conc_invs)
  have sub: "subscribed (mem s) ctx" using assms(3) st by (simp add: subscribed_def ctx_ok_def same_setup_def)
  then have idx: "handler_index (mem s) (ctx_handler_hash ctx) \<noteq> None"
    using ri ctx_ok_index [of "mem s" ctx] by (simp add: reactor_inv_def subscribed_def)
  show ?thesis
  proof (cases "ctx_priority ctx = BACKGROUND")
    case False
    from ri idx show ?thesis
    proof (cases rule: push_sample_cases [where env = env and buf = "z_payload smp"])
      case (accept r')
      have "same_setup r0 r'" using same_setup_trans [OF st accept(3)] .
      then have "conc_inv r0 (s\<lparr>mem := r', taken_in := taken_in s @ [(new_sample env ctx (z_payload smp) (mem s), ctx_priority ctx)]\<rparr>)"
        using assms(1) accept by (simp add: conc_invs)
      then show ?thesis
        using False accept(1) by (simp add: send_step_def Let_def) (intro conjI impI conc_inv_thread, simp_all)
    next
      case (reject r')
      have "same_setup r0 r'" using same_setup_trans [OF st reject(3)] .
      moreover define r'' where "r'' = spdlog (MpscFull (ctx_priority ctx) (dropped_count (critical_queue r'))) r'"
      have "same_core r' r''" "reactor_inv r''" using reject(2) by (simp_all add: r''_def core_steps frame_simps)
      ultimately have "conc_inv r0 (s\<lparr>mem := r'', turned_away := turned_away s + 1\<rparr>)"
        using assms(1) reject by (simp add: conc_invs same_core_def same_setup_def)
      then show ?thesis
        using False reject(1) unfolding r''_def by (simp add: send_step_def Let_def) (intro conc_inv_thread, simp_all)
    qed
  next
    case True
    obtain r' sl u where r': "cache_sample env ctx (z_payload smp) (mem s) = Inr r'" "reactor_inv r'" "same_setup (mem s) r'"
      "view (background_cache (mem s)) (ctx_handler_hash ctx) = Some sl"
      "view (background_cache r') = (view (background_cache (mem s)))(ctx_handler_hash ctx \<mapsto> put (ctx_handler_hash ctx) (z_payload smp) u sl)"
      "critical_queue r' = critical_queue (mem s)" "calls r' = calls (mem s)"
      by (rule cache_sample_effect [OF ri sub True])
    let ?s = "s\<lparr>mem := r', stored := (stored s)(ctx_handler_hash ctx := stored s (ctx_handler_hash ctx) + 1)\<rparr>"
    have "same_setup r0 r'" using same_setup_trans [OF st r'(3)] .
    moreover have "frame_budget r0 ?s"
      using assms(1) r'(4,5) by (auto simp: conc_invs algebra_simps)
    ultimately have "conc_inv r0 ?s"
      using assms(1) r' by (simp add: conc_inv_def base_inv_def queue_order_def call_order_def)
    then show ?thesis
      using True r'(1) by (simp add: send_step_def Let_def) (intro conc_inv_thread, simp_all)
  qed
qed

subsection \<open>Every step keeps the invariant\<close>

lemma loop_step_inv:
  assumes "conc_inv r0 s" "env_ok env"
  shows "conc_inv r0 (loop_step env s (loop s))"
proof (cases "loop s")
  case (LDrain n ord)
  then show ?thesis
    using assms drain_step_inv [OF assms(1)] windows_of_inv [OF assms(1)]
    by (cases ord) (simp_all add: conc_inv_core core_steps)
next
  case LTotals
  have "cache_inv (background_cache (mem s))" using assms(1) by (simp add: conc_invs reactor_inv_def frames_inv_def)
  then obtain r where r: "sync_background_drops env (mem s) = Inr r"
    using total_dropped_iterates assms(2) by (fastforce simp: sync_background_drops_def env_ok_def Let_def)
  then show ?thesis
    using LTotals windows_of_inv [OF assms(1)] assms(1) core_totals [OF r] by (simp add: conc_inv_core)
next
  case LWait
  then show ?thesis
    using windows_of_inv [OF assms(1)] assms(1)
    by (auto simp: wait_step_def core_steps split: prod.split intro!: conc_inv_core)
qed (use assms windows_of_inv [OF assms(1)] in
    \<open>simp_all add: pop_step_inv call_step_inv frame_step_inv conc_inv_core conc_inv_loop core_steps\<close>)

lemma thread_step_inv:
  assumes "conc_inv r0 s" "\<forall>ctx \<in> set (contexts r0). subscribed r0 ctx"
  shows "conc_inv r0 (thread_step env t s (pcs s t))"
proof (cases "pcs s t")
  case (Tracking ctx smp)
  then have "ctx \<in> set (contexts r0)" using assms(1) by (auto simp: conc_invs)
  then show ?thesis
    using Tracking assms(1) windows_of_inv [OF assms(1)]
    by (auto intro!: conc_inv_thread conc_inv_shared simp: core_steps)
next
  case (Sending ctx smp)
  then have "ctx \<in> set (contexts r0)" using assms(1) by (auto simp: conc_invs)
  then show ?thesis using Sending send_step_inv [OF assms(1) Sending] assms(2) by simp
next
  case (Waking fd)
  then show ?thesis
    using assms(1) windows_of_inv [OF assms(1)]
    by (auto intro!: conc_inv_thread conc_inv_shared simp: core_steps)
qed (use assms in simp)

lemma conc_step_inv:
  assumes "conc_step env s s'" "conc_inv r0 s" "env_ok env" "\<forall>ctx \<in> set (contexts r0). subscribed r0 ctx"
  shows "conc_inv r0 s'"
  using assms(1)
proof cases
  case loop_moves
  then show ?thesis using loop_step_inv [OF assms(2,3)] by simp
next
  case (callback_enters t ctx smp)
  moreover have "contexts (mem s) = contexts r0" using assms(2) by (simp add: conc_invs same_setup_def)
  ultimately show ?thesis using conc_inv_thread [OF assms(2)] by simp
next
  case (thread_moves t)
  then show ?thesis using thread_step_inv [OF assms(2,4)] by simp
next
  case (stop_enters t)
  then show ?thesis
    using assms(2) windows_of_inv [OF assms(2)]
    by (auto simp: stop_store_def core_steps intro!: conc_inv_thread conc_inv_shared)
next
  case (liveliness_changes smp)
  then show ?thesis
    using assms(2) windows_of_inv [OF assms(2)] by (auto simp: core_steps intro!: conc_inv_shared)
next
  case (stats_reset r)
  then show ?thesis using assms(2) core_reset by (auto intro!: conc_inv_shared)
qed

text \<open>A reactor with nothing queued and nothing held, as it is before its first run.\<close>

definition idle :: "'cb reactor \<Rightarrow> bool" where
  "idle r \<longleftrightarrow> queue_list (critical_queue r) = [] \<and> waiting (view (background_cache r)) = {}"

lemma run_start_idle:
  assumes "reactor_inv r"
  shows "critical_queue (run_start env r) = critical_queue r" "calls (run_start env r) = calls r"
    "wakeup_fd (run_start env r) = wakeup_fd r" "waiting (view (background_cache (run_start env r))) \<subseteq> waiting (view (background_cache r))"
proof -
  obtain tr cs l where rs: "run_start env r = r\<lparr>running := True, background_cache := pre_allocate_all (handlers r) (background_cache r),
        io_trace := tr, contexts := cs, logs := l\<rparr>"
    using run_start_shape by blast
  then show "critical_queue (run_start env r) = critical_queue r" "calls (run_start env r) = calls r" "wakeup_fd (run_start env r) = wakeup_fd r"
    by simp_all
  have c: "cache_inv (background_cache r)" using assms by (simp add: reactor_inv_def frames_inv_def)
  have "view (background_cache r) k = Some sl"
    if "view (background_cache (run_start env r)) k = Some sl" "has_data sl" for k sl
    using pre_allocate_all_spec [OF c, of "handlers r" k] that by (auto simp: rs slot_new_def)
  then show "waiting (view (background_cache (run_start env r))) \<subseteq> waiting (view (background_cache r))"
    by (auto simp: waiting_def)
qed

lemma conc_start_inv:
  assumes "reactor_inv r" "idle r"
  shows "conc_inv (run_start env r) (conc_start env r)"
proof -
  have "view (background_cache (run_start env r)) k = Some sl \<Longrightarrow> \<not> has_data sl" for k sl
    using run_start_idle(4) [OF assms(1), of env] assms(2) by (auto simp: idle_def waiting_def)
  then show ?thesis
    using run_start_spec [OF assms(1), of env] run_start_idle [OF assms(1), of env] assms(2)
    by (auto simp: conc_invs conc_start_def idle_def same_setup_def)
qed

lemma conc_reachable_inv:
  assumes "conc_reachable env r s" "reactor_inv r" "idle r" "env_ok env"
  shows "conc_inv (run_start env r) s"
  using assms(1)
proof induction
  case conc_begin
  show ?case by (rule conc_start_inv [OF assms(2,3)])
next
  case (conc_next s s')
  then show ?case using conc_step_inv assms(4) run_start_spec(3) [OF assms(2)] by blast
qed

end
