(* ===== verification/Cache_Concurrent.thy ===== *)
theory Cache_Concurrent
  imports Reactor_Threads
begin

text \<open>
  The map of the cache under its \<^verbatim>\<open>shared_mutex\<close>
  (\<^verbatim>\<open>include/robot_dataflow/latest_cache.hpp\<close>): any number of threads that allocate
  under the unique lock, or look up, drain and add up the drops under the shared lock, one
  slot at a time, while receive threads put through pointers they hold, under no lock of the
  map. A put or take on one slot is one step (\<^verbatim>\<open>Spin_Lock\<close>).
\<close>

subsection \<open>State and steps\<close>

text \<open>
  A thread inside one of the operations; \<open>True\<close> in \<open>CEmplace\<close> is \<^verbatim>\<open>get_slot\<close>,
  which returns the pointer, \<open>False\<close> is \<^verbatim>\<open>pre_allocate\<close>. The lists are the rest of
  the iteration.
\<close>

datatype cache_pc =
    COut
  | CEmplace u64 bool | CLeaveUnique
  | CFind u64 | CDrain "u64 list" | CTotal "u64 list" u64 | CLeaveShared

text \<open>
  \<open>pointers\<close> are the slot pointers handed out, with their hash, \<open>handed\<close> the samples the
  drains gave to their consumer; \<open>lost\<close> records how often a put replaced a frame.
\<close>

record cache_sys =
  cache :: latest_cache
  writer :: "nat option"
  readers :: "nat set"
  cpcs :: "nat \<Rightarrow> cache_pc"
  pointers :: "(u64 \<times> nat) set"
  handed :: "sample list"
  cache_fault :: "mem_error option"
  lost :: "u64 \<Rightarrow> nat"

definition cache_sys_init :: cache_sys where
  "cache_sys_init = \<lparr>cache = cache_new, writer = None, readers = {}, cpcs = (\<lambda>t. COut), pointers = {},
                     handed = [], cache_fault = None, lost = (\<lambda>k. 0)\<rparr>"

definition at_pc :: "nat \<Rightarrow> cache_pc \<Rightarrow> cache_sys \<Rightarrow> cache_sys" where
  "at_pc t pc s = s\<lparr>cpcs := (cpcs s)(t := pc)\<rparr>"

text \<open>What the thread reads of one slot while it adds up the drops.\<close>

definition read_drops :: "u64 \<Rightarrow> latest_cache \<Rightarrow> mem_error + u64" where
  "read_drops hash c =
     (case slots c hash of
        None \<Rightarrow> Inr 0
      | Some a \<Rightarrow> (case deref a c of Inl e \<Rightarrow> Inl e | Inr s \<Rightarrow> Inr (drop_count s)))"

inductive cache_step :: "(latest_cache \<Rightarrow> u64 list) \<Rightarrow> cache_sys \<Rightarrow> cache_sys \<Rightarrow> bool" for order where
  locks_unique: "cpcs s t = COut \<Longrightarrow> writer s = None \<Longrightarrow> readers s = {} \<Longrightarrow>
    cache_step order s (at_pc t (CEmplace h keep) (s\<lparr>writer := Some t\<rparr>))"
| emplaces: "cpcs s t = CEmplace h keep \<Longrightarrow> try_emplace h (cache s) = (a, c) \<Longrightarrow>
    cache_step order s (at_pc t CLeaveUnique
      (s\<lparr>cache := c, pointers := (if keep then insert (h, a) (pointers s) else pointers s)\<rparr>))"
| unlocks_unique: "cpcs s t = CLeaveUnique \<Longrightarrow> cache_step order s (at_pc t COut (s\<lparr>writer := None\<rparr>))"
| locks_shared: "cpcs s t = COut \<Longrightarrow> writer s = None \<Longrightarrow>
    pc = CFind h \<or> pc = CDrain (order (cache s)) \<or> pc = CTotal (order (cache s)) 0 \<Longrightarrow>
    cache_step order s (at_pc t pc (s\<lparr>readers := insert t (readers s)\<rparr>))"
| finds: "cpcs s t = CFind h \<Longrightarrow>
    cache_step order s (at_pc t CLeaveShared
      (s\<lparr>pointers := (case get_slot_fast h (cache s) of None \<Rightarrow> pointers s | Some a \<Rightarrow> insert (h, a) (pointers s))\<rparr>))"
| takes: "cpcs s t = CDrain (h # ord) \<Longrightarrow> take_slot h (cache s) = Inr (f, c) \<Longrightarrow>
    cache_step order s (at_pc t (CDrain ord)
      (s\<lparr>cache := c, handed := handed s @ (case f of None \<Rightarrow> [] | Some x \<Rightarrow> [x])\<rparr>))"
| takes_fault: "cpcs s t = CDrain (h # ord) \<Longrightarrow> take_slot h (cache s) = Inl e \<Longrightarrow>
    cache_step order s (s\<lparr>cache_fault := Some e\<rparr>)"
| drained: "cpcs s t = CDrain [] \<Longrightarrow> cache_step order s (at_pc t CLeaveShared s)"
| adds: "cpcs s t = CTotal (h # ord) n \<Longrightarrow> read_drops h (cache s) = Inr d \<Longrightarrow>
    cache_step order s (at_pc t (CTotal ord (n + d)) s)"
| adds_fault: "cpcs s t = CTotal (h # ord) n \<Longrightarrow> read_drops h (cache s) = Inl e \<Longrightarrow>
    cache_step order s (s\<lparr>cache_fault := Some e\<rparr>)"
| added: "cpcs s t = CTotal [] n \<Longrightarrow> cache_step order s (at_pc t CLeaveShared s)"
| unlocks_shared: "cpcs s t = CLeaveShared \<Longrightarrow>
    cache_step order s (at_pc t COut (s\<lparr>readers := readers s - {t}\<rparr>))"
| puts: "(k, a) \<in> pointers s \<Longrightarrow> put_via a k data now (cache s) = Inr c \<Longrightarrow>
    cache_step order s (s\<lparr>cache := c,
      lost := (if \<exists>sl. view (cache s) k = Some sl \<and> has_data sl then (lost s)(k := Suc (lost s k)) else lost s)\<rparr>)"
| puts_fault: "(k, a) \<in> pointers s \<Longrightarrow> put_via a k data now (cache s) = Inl e \<Longrightarrow>
    cache_step order s (s\<lparr>cache_fault := Some e\<rparr>)"

subsection \<open>The invariant\<close>

fun in_unique :: "cache_pc \<Rightarrow> bool" where
  "in_unique (CEmplace h keep) = True" | "in_unique CLeaveUnique = True" | "in_unique pc = False"

fun in_shared :: "cache_pc \<Rightarrow> bool" where
  "in_shared (CFind h) = True" | "in_shared (CDrain ord) = True" | "in_shared (CTotal ord n) = True"
| "in_shared CLeaveShared = True" | "in_shared pc = False"

definition rw_inv :: "cache_sys \<Rightarrow> bool" where
  "rw_inv s \<longleftrightarrow> (\<forall>t. in_unique (cpcs s t) \<longleftrightarrow> writer s = Some t) \<and> (\<forall>t. in_shared (cpcs s t) \<longleftrightarrow> t \<in> readers s) \<and>
     (writer s \<noteq> None \<longrightarrow> readers s = {})"

definition map_inv :: "cache_sys \<Rightarrow> bool" where
  "map_inv s \<longleftrightarrow>
     cache_inv (cache s) \<and> cache_fault s = None \<and> (\<forall>(k, a) \<in> pointers s. slots (cache s) k = Some a) \<and>
     (\<forall>k. view (cache s) k = None \<longrightarrow> lost s k = 0) \<and>
     (\<forall>k sl. view (cache s) k = Some sl \<longrightarrow> drop_count sl = of_nat (lost s k))"

lemma map_invD:
  assumes "map_inv s"
  shows "cache_inv (cache s)" "cache_fault s = None" "(k, a) \<in> pointers s \<Longrightarrow> slots (cache s) k = Some a"
    "view (cache s) k = None \<Longrightarrow> lost s k = 0" "view (cache s) k = Some sl \<Longrightarrow> drop_count sl = of_nat (lost s k)"
  using assms by (auto simp: map_inv_def)

lemma rw_step: "cache_step order s s' \<Longrightarrow> rw_inv s \<Longrightarrow> rw_inv s'"
  by (erule cache_step.cases) (auto simp: rw_inv_def at_pc_def, (metis in_unique.simps in_shared.simps)+)

text \<open>A change of one slot.\<close>

lemma map_inv_slot:
  assumes "map_inv s" "cache_inv c" "slots c = slots (cache s)" "view c = (view (cache s))(k \<mapsto> sl)"
    and "drop_count sl = of_nat (l k)" "\<And>k'. k' \<noteq> k \<Longrightarrow> l k' = lost s k'"
  shows "map_inv (s\<lparr>cache := c, lost := l\<rparr>)"
proof -
  have "l k' = 0" if "view c k' = None" for k'
    using that assms(4,6) map_invD(4) [OF assms(1)] by (cases "k' = k") auto
  moreover have "drop_count sl' = of_nat (l k')" if "view c k' = Some sl'" for k' sl'
    using that assms(4-6) map_invD(5) [OF assms(1)] by (cases "k' = k") auto
  ultimately show ?thesis using assms(2,3) map_invD(2,3) [OF assms(1)] by (auto simp: map_inv_def)
qed

lemma put_steps:
  assumes "map_inv s" "(k, a) \<in> pointers s"
  obtains c sl where "put_via a k data now (cache s) = Inr c" "cache_inv c" "slots c = slots (cache s)"
    "view (cache s) k = Some sl" "view c = (view (cache s))(k \<mapsto> put k data now sl)"
proof -
  note inv = map_invD(1) [OF assms(1)] and a = map_invD(3) [OF assms]
  obtain c where c: "put_via a k data now (cache s) = Inr c" "cache_inv c" "slots c = slots (cache s)"
    "view c = (view (cache s))(k \<mapsto> put k data now (the (view (cache s) k)))"
    using put_via_spec [OF inv, of k a] a by (metis get_slot_fast_def)
  show thesis using that [OF c(1-3) _ c(4)] deref_view [OF inv a] by blast
qed

lemma read_drops_view:
  assumes "map_inv s"
  shows "read_drops h (cache s) = Inr (of_nat (lost s h))"
proof (cases "slots (cache s) h")
  case None
  then show ?thesis using view_slots [OF map_invD(1) [OF assms]] map_invD(4) [OF assms, of h]
    by (simp add: read_drops_def)
next
  case (Some a)
  note d = deref_view [OF map_invD(1) [OF assms] Some]
  with Some map_invD(5) [OF assms] show ?thesis by (simp add: read_drops_def)
qed

lemma at_pc_fields [simp]:
  "cache (at_pc t pc s) = cache s" "cache_fault (at_pc t pc s) = cache_fault s" "pointers (at_pc t pc s) = pointers s"
  "lost (at_pc t pc s) = lost s" "readers (at_pc t pc s) = readers s" "writer (at_pc t pc s) = writer s"
  "cpcs (at_pc t pc s) = (cpcs s)(t := pc)"
  by (simp_all add: at_pc_def)

lemma map_inv_at [simp]: "map_inv (at_pc t pc s) = map_inv s"
  unfolding map_inv_def by simp

lemma map_inv_lock [simp]: "map_inv (s\<lparr>writer := w\<rparr>) = map_inv s" "map_inv (s\<lparr>readers := r\<rparr>) = map_inv s"
  "map_inv (s\<lparr>handed := fs\<rparr>) = map_inv s"
  unfolding map_inv_def by simp_all

lemma map_inv_emplace:
  assumes "map_inv s" "try_emplace h (cache s) = (a, c)" "ps \<subseteq> insert (h, a) (pointers s)"
  shows "map_inv (s\<lparr>cache := c, pointers := ps\<rparr>)"
proof (cases "slots (cache s) h")
  case None
  note e = try_emplace_new [OF map_invD(1) [OF assms(1)] None, unfolded assms(2) fst_conv snd_conv]
  have v: "view (cache s) h = None" using None view_slots [OF map_invD(1) [OF assms(1)]] by simp
  have "slots c k = Some b" if "(k, b) \<in> ps" for k b
    using that assms(3) None e(1,4) map_invD(3) [OF assms(1), of k b] by auto
  moreover have "lost s k = 0" if "view c k = None" for k
    using that e(3) map_invD(4) [OF assms(1), of k] by (auto split: if_splits)
  moreover have "drop_count sl = of_nat (lost s k)" if "view c k = Some sl" for k sl
    using that e(3) map_invD(4,5) [OF assms(1), of k] v by (auto simp: slot_new_def split: if_splits)
  ultimately show ?thesis using e(2) map_invD(2) [OF assms(1)] by (auto simp: map_inv_def)
next
  case (Some b)
  note e = try_emplace_old [OF map_invD(1) [OF assms(1)] Some, unfolded assms(2) fst_conv snd_conv]
  have "slots c k = Some b'" if "(k, b') \<in> ps" for k b'
    using that assms(3) Some e(1,4) map_invD(3) [OF assms(1), of k b'] by auto
  then show ?thesis using e(2,3) map_invD(2,4,5) [OF assms(1)] by (auto simp: map_inv_def)
qed

lemma map_step:
  assumes "cache_step order s s'" "map_inv s"
  shows "map_inv s'"
  using assms(1)
proof cases
  case (emplaces t h keep a c)
  show ?thesis unfolding emplaces(1) map_inv_at by (rule map_inv_emplace [OF assms(2) emplaces(3)]) auto
next
  case (finds t h)
  have "slots (cache s) k = Some a"
    if "(k, a) \<in> (case get_slot_fast h (cache s) of None \<Rightarrow> pointers s | Some a \<Rightarrow> insert (h, a) (pointers s))" for k a
    using that map_invD(3) [OF assms(2), of k a] by (auto simp: get_slot_fast_def split: option.splits)
  then show ?thesis unfolding finds(1) map_inv_at using map_invD [OF assms(2)] by (auto simp: map_inv_def)
next
  case (takes t h ord f c)
  from map_invD(1) [OF assms(2)] show ?thesis
  proof (cases rule: take_slot_cases [where h = h])
    case no_slot
    then show ?thesis using takes assms(2) by simp
  next
    case (slot sl c')
    have "drop_count (snd (take_sample sl)) = of_nat (lost s h)"
      using map_invD(5) [OF assms(2) slot(1)] by (simp add: take_sample_def)
    then have "map_inv (s\<lparr>cache := c', lost := lost s\<rparr>)" by (intro map_inv_slot [OF assms(2) slot(5,4,3)]) simp_all
    then show ?thesis using takes slot by simp
  qed
next
  case (takes_fault t h ord e)
  from map_invD(1) [OF assms(2)] show ?thesis
    by (cases rule: take_slot_cases [where h = h]) (use takes_fault in simp_all)
next
  case (adds_fault t h ord n e)
  then show ?thesis using read_drops_view [OF assms(2)] by simp
next
  case (puts k a data now c)
  obtain sl where sl: "cache_inv c" "slots c = slots (cache s)" "view (cache s) k = Some sl"
    "view c = (view (cache s))(k \<mapsto> put k data now sl)"
    using put_steps [OF assms(2) puts(2)] puts(3) by (metis sum.inject(2))
  show ?thesis unfolding puts(1)
    by (rule map_inv_slot [OF assms(2) sl(1,2,4)]) (use map_invD(5) [OF assms(2) sl(3)] sl(3) in auto)
next
  case (puts_fault k a data now e)
  then show ?thesis using put_steps [OF assms(2) puts_fault(2)] by (metis sum.distinct(1))
qed (use assms(2) in simp_all)

inductive cache_reachable :: "(latest_cache \<Rightarrow> u64 list) \<Rightarrow> cache_sys \<Rightarrow> bool" for order where
  cache_start: "cache_reachable order cache_sys_init"
| cache_next: "cache_reachable order s \<Longrightarrow> cache_step order s s' \<Longrightarrow> cache_reachable order s'"

lemma cache_reachable_inv: "cache_reachable order s \<Longrightarrow> rw_inv s \<and> map_inv s"
proof (induction rule: cache_reachable.induct)
  case cache_start
  show ?case by (simp add: rw_inv_def map_inv_def cache_sys_init_def)
next
  case (cache_next s s')
  then show ?case using rw_step map_step by blast
qed

text \<open>While a reader is inside, no step changes the map; only a put that overwrites counts.\<close>

lemma reader_step:
  assumes "cache_step order s s'" "rw_inv s" "map_inv s" "readers s \<noteq> {}"
  shows "slots (cache s') = slots (cache s)"
    "lost s' = lost s \<or> (\<exists>k. slots (cache s) k \<noteq> None \<and> lost s' = (lost s)(k := Suc (lost s k)) \<and> cpcs s' = cpcs s)"
proof -
  have "slots (cache s') = slots (cache s) \<and> (lost s' = lost s \<or>
      (\<exists>k. slots (cache s) k \<noteq> None \<and> lost s' = (lost s)(k := Suc (lost s k)) \<and> cpcs s' = cpcs s))"
    using assms(1)
  proof cases
    case (emplaces t h keep a c)
    then have "writer s = Some t" using assms(2) by (auto simp: rw_inv_def)
    then show ?thesis using assms(2,4) by (simp add: rw_inv_def)
  next
    case (takes t h ord f c)
    from map_invD(1) [OF assms(3)] show ?thesis
      by (cases rule: take_slot_cases [where h = h]) (use takes in simp_all)
  next
    case (puts k a data now c)
    have "slots c = slots (cache s)" using put_steps [OF assms(3) puts(2)] puts(3) by (metis sum.inject(2))
    then show ?thesis using puts map_invD(3) [OF assms(3) puts(2)] by auto
  qed simp_all
  then show "slots (cache s') = slots (cache s)"
    "lost s' = lost s \<or> (\<exists>k. slots (cache s) k \<noteq> None \<and> lost s' = (lost s)(k := Suc (lost s k)) \<and> cpcs s' = cpcs s)"
    by auto
qed

text \<open>
  C20. The map of the cache under its \<^verbatim>\<open>shared_mutex\<close>, for every interleaving of
  threads that allocate, look up, drain, add up and put: no access goes through a dead slot; a
  thread that allocates is alone; every slot pointer ever handed out still leads to the live
  slot of its hash; and while any reader is inside the map does not change, whatever the next
  step is.
\<close>

theorem cache_map_stable:
  assumes "cache_reachable order s"
  shows "cache_fault s = None \<and>
    (\<forall>t u. in_unique (cpcs s t) \<and> u \<noteq> t \<longrightarrow> \<not> in_unique (cpcs s u) \<and> \<not> in_shared (cpcs s u)) \<and>
    (\<forall>(k, a) \<in> pointers s. get_slot_fast k (cache s) = Some a \<and> (\<exists>sl. deref a (cache s) = Inr sl)) \<and>
    (\<forall>t s'. in_shared (cpcs s t) \<and> cache_step order s s' \<longrightarrow> slots (cache s') = slots (cache s))"
proof (intro conjI)
  note inv = conjunct1 [OF cache_reachable_inv [OF assms]] conjunct2 [OF cache_reachable_inv [OF assms]]
  show "cache_fault s = None" by (rule map_invD(2) [OF inv(2)])
  show "\<forall>t u. in_unique (cpcs s t) \<and> u \<noteq> t \<longrightarrow> \<not> in_unique (cpcs s u) \<and> \<not> in_shared (cpcs s u)"
    using inv(1) by (auto simp: rw_inv_def)
  show "\<forall>(k, a) \<in> pointers s. get_slot_fast k (cache s) = Some a \<and> (\<exists>sl. deref a (cache s) = Inr sl)"
    using map_invD(3) [OF inv(2)] deref_view [OF map_invD(1) [OF inv(2)]] unfolding get_slot_fast_def by blast
  show "\<forall>t s'. in_shared (cpcs s t) \<and> cache_step order s s' \<longrightarrow> slots (cache s') = slots (cache s)"
    using reader_step(1) [OF _ inv] inv(1) by (auto simp: rw_inv_def)
qed

subsection \<open>Adding up while frames arrive\<close>

text \<open>The drops a list of topics stands for, as a number that does not wrap.\<close>

abbreviation lost_in :: "u64 list \<Rightarrow> cache_sys \<Rightarrow> nat" where
  "lost_in ks s \<equiv> (\<Sum>k\<leftarrow>ks. lost s k)"

lemma lost_in_other: "k \<notin> set ks \<Longrightarrow> (\<Sum>k'\<leftarrow>ks. (l(k := n)) k') = (\<Sum>k'\<leftarrow>ks. l k')" for l :: "u64 \<Rightarrow> nat"
  by (rule arg_cong [where f = sum_list], rule map_cong) auto

lemma lost_in_update:
  "distinct ks \<Longrightarrow>
    (\<Sum>k'\<leftarrow>ks. (l(k := Suc (l k))) k') = (\<Sum>k'\<leftarrow>ks. l k') + (if k \<in> set ks then 1 else 0)" for l :: "u64 \<Rightarrow> nat"
proof (induction ks)
  case (Cons k' ks)
  then show ?case using lost_in_other [of k ks l] by (cases "k' = k") auto
qed simp

lemma total_of_lost:
  assumes "map_inv s" "iterates ord (cache s)"
  shows "get_total_dropped ord (cache s) 0 = Inr (of_nat (lost_in ord s))"
proof -
  have "(case view (cache s) h of None \<Rightarrow> 0 | Some sl \<Rightarrow> drop_count sl) = of_nat (lost s h)" for h
    using map_invD(4,5) [OF assms(1)] by (auto split: option.split)
  moreover have "(\<Sum>h\<leftarrow>ord. (of_nat (lost s h) :: u64)) = of_nat (lost_in ord s)" by (induction ord) auto
  ultimately show ?thesis by (simp add: total_dropped_spec [OF map_invD(1) [OF assms(1)]])
qed

text \<open>What has been added up lies between the drops at the start and the drops now.\<close>

definition adding :: "u64 list \<Rightarrow> nat \<Rightarrow> nat \<Rightarrow> cache_sys \<Rightarrow> bool" where
  "adding ks start t s \<longleftrightarrow> distinct ks \<and> set ks = dom (slots (cache s)) \<and>
     (\<exists>old ord m. ks = old @ ord \<and> cpcs s t = CTotal ord (of_nat m) \<and>
        start \<le> m + lost_in ord s \<and> m + lost_in ord s \<le> lost_in ks s)"

lemma adding_step:
  assumes "adding ks start t s" "cache_step order s s'" "rw_inv s" "map_inv s" "cpcs s' t = CTotal ord' n'"
  shows "adding ks start t s' \<and> lost_in ks s \<le> lost_in ks s' \<and> lost_in ks s' \<le> Suc (lost_in ks s)"
proof -
  obtain old ord m where st: "distinct ks" "set ks = dom (slots (cache s))" "ks = old @ ord"
    "cpcs s t = CTotal ord (of_nat m)" "start \<le> m + lost_in ord s" "m + lost_in ord s \<le> lost_in ks s"
    using assms(1) by (auto simp: adding_def)
  have "t \<in> readers s" using assms(3) st(4) by (metis rw_inv_def in_shared.simps(3))
  then have "readers s \<noteq> {}" by blast
  note still = reader_step [OF assms(2-4) this]
  from still(2) show ?thesis
  proof (elim disjE exE conjE)
    fix k
    assume k: "lost s' = (lost s)(k := Suc (lost s k))" "cpcs s' = cpcs s"
    have "distinct ord" "set ord \<subseteq> set ks" using st(1,3) by auto
    then have grow: "lost_in ks s' = lost_in ks s + (if k \<in> set ks then 1 else 0)"
      "lost_in ord s' = lost_in ord s + (if k \<in> set ord then 1 else 0)"
      "k \<in> set ord \<longrightarrow> k \<in> set ks"
      unfolding k using lost_in_update st(1) by (blast+)
    then have "start \<le> m + lost_in ord s' \<and> m + lost_in ord s' \<le> lost_in ks s'" using st(5,6) by auto
    then have "adding ks start t s'" unfolding adding_def still(1) k(2) using st(1-4) by blast
    then show ?thesis using grow(1) by simp
  next
    assume l: "lost s' = lost s"
    have "cpcs s' t = cpcs s t \<or> (\<exists>h rest. ord = h # rest \<and> cpcs s' t = CTotal rest (of_nat m + of_nat (lost s h)))"
      using assms(2)
    proof cases
      case (adds u h rest n d)
      then show ?thesis using st(4) read_drops_view [OF assms(4), of h] by (cases "u = t") auto
    qed (use st(4) assms(5) in \<open>auto split: if_splits\<close>)
    then show ?thesis
    proof (elim disjE exE conjE)
      assume "cpcs s' t = cpcs s t"
      then show ?thesis using assms(1) by (simp add: adding_def still(1) l)
    next
      fix h rest
      assume h: "ord = h # rest" "cpcs s' t = CTotal rest (of_nat m + of_nat (lost s h))"
      then have "ks = (old @ [h]) @ rest \<and> cpcs s' t = CTotal rest (of_nat (m + lost s h)) \<and>
          start \<le> (m + lost s h) + lost_in rest s \<and> (m + lost s h) + lost_in rest s \<le> lost_in ks s"
        using st(3,5,6) by simp
      then have "adding ks start t s'" unfolding adding_def still(1) l using st(1,2) by metis
      then show ?thesis by (simp add: l)
    qed
  qed
qed

text \<open>A counter that grows by at most one per step takes every value in between.\<close>

lemma passes_value:
  fixes f :: "nat \<Rightarrow> nat"
  assumes "\<And>i. i < n \<Longrightarrow> f (Suc i) \<le> Suc (f i)" "f 0 \<le> m" "m \<le> f n"
  shows "\<exists>i \<le> n. f i = m"
  using assms
proof (induction n)
  case (Suc n)
  then show ?case using Suc.prems(1) [of n] by (cases "m \<le> f n") (force simp: le_Suc_eq)+
qed simp

text \<open>
  C19. \<^verbatim>\<open>get_total_dropped\<close> is linearizable although it takes no snapshot: it reads the
  slots one after another while receive threads go on overwriting frames, yet what it returns
  is what the sequential function returns in one single state between its first and its last
  read. This is why the reactor's
  threads may treat the total as one step.
\<close>

theorem total_linearizable:
  assumes order: "\<And>c. cache_inv c \<Longrightarrow> iterates (order c) c"
    and start: "cache_reachable order (\<sigma> 0)" "cpcs (\<sigma> 0) t = CTotal (order (cache (\<sigma> 0))) 0"
    and run: "\<And>i. i < n \<Longrightarrow> cache_step order (\<sigma> i) (\<sigma> (Suc i))"
    and inside: "\<And>i. i \<le> n \<Longrightarrow> \<exists>ord m. cpcs (\<sigma> i) t = CTotal ord m"
    and last: "cpcs (\<sigma> n) t = CTotal [] v"
  shows "\<exists>i \<le> n. get_total_dropped (order (cache (\<sigma> i))) (cache (\<sigma> i)) 0 = Inr v"
proof -
  let ?ks = "order (cache (\<sigma> 0))"
  have reach: "cache_reachable order (\<sigma> i)" if "i \<le> n" for i
    using that by (induction i) (use start(1) run in \<open>auto intro: cache_next\<close>)
  note inv = conjunct1 [OF cache_reachable_inv [OF reach]] conjunct2 [OF cache_reachable_inv [OF reach]]
  have iter: "iterates (order (cache (\<sigma> i))) (cache (\<sigma> i))" if "i \<le> n" for i
    using order map_invD(1) [OF inv(2) [OF that]] by blast
  have adding: "adding ?ks (lost_in ?ks (\<sigma> 0)) t (\<sigma> i)" if "i \<le> n" for i
    using that
  proof (induction i)
    case 0
    show ?case using start(2) iter [of 0]
      by (auto simp: adding_def iterates_def intro!: exI [of _ "[]"] exI [of _ 0])
  next
    case (Suc i)
    obtain ord m where "cpcs (\<sigma> (Suc i)) t = CTotal ord m" using inside [OF Suc.prems] by blast
    with Suc show ?case using adding_step [OF Suc.IH run inv] by auto
  qed
  have "lost_in ?ks (\<sigma> (Suc i)) \<le> Suc (lost_in ?ks (\<sigma> i))" if i: "i < n" for i
  proof -
    obtain ord m where "cpcs (\<sigma> (Suc i)) t = CTotal ord m" using inside [OF Suc_leI [OF i]] by blast
    then show ?thesis using adding_step [OF adding run inv] i by auto
  qed
  moreover obtain m where m: "v = of_nat m" "lost_in ?ks (\<sigma> 0) \<le> m" "m \<le> lost_in ?ks (\<sigma> n)"
    using adding [of n] last by (auto simp: adding_def)
  ultimately obtain i where i: "i \<le> n" "lost_in ?ks (\<sigma> i) = m"
    using passes_value [of n "\<lambda>i. lost_in ?ks (\<sigma> i)" m] by blast
  have "set (order (cache (\<sigma> i))) = set ?ks" "distinct (order (cache (\<sigma> i)))" "distinct ?ks"
    using adding [OF i(1)] iter [OF i(1)] by (auto simp: adding_def iterates_def)
  then have "lost_in (order (cache (\<sigma> i))) (\<sigma> i) = lost_in ?ks (\<sigma> i)"
    by (simp add: sum_list_distinct_conv_sum_set)
  then show ?thesis using total_of_lost [OF inv(2) iter, of i] i m(1) by auto
qed

subsection \<open>A run\<close>

text \<open>
  Thread 0 allocates the slot of hash 5 and keeps its pointer; two frames are put, one is
  lost. Thread 1 starts to add up; before it reads the slot a third frame arrives.
\<close>

definition key_order :: "latest_cache \<Rightarrow> u64 list" where
  "key_order c = sorted_list_of_set (dom (slots c))"

definition one_slot :: "bool \<Rightarrow> nat \<Rightarrow> cache_sys" where
  "one_slot full n =
     cache_sys_init\<lparr>cache := \<lparr>slots = [5 \<mapsto> 0], slot_heap = [Some (if full then
         \<lparr>payload = [2], has_data = True, handler_hash = 5, drop_count = of_nat n, put_time = 0\<rparr> else slot_new)]\<rparr>,
       pointers := {(5, 0)}, lost := (\<lambda>k. 0)(5 := n)\<rparr>"

definition add_run :: "nat \<Rightarrow> cache_sys" where
  "add_run i =
     (if i = 0 then at_pc 1 (CTotal [5] 0) ((one_slot True 1)\<lparr>readers := {1}\<rparr>)
      else if i = 1 then at_pc 1 (CTotal [5] 0) ((one_slot True 2)\<lparr>readers := {1}\<rparr>)
      else at_pc 1 (CTotal [] 2) ((one_slot True 2)\<lparr>readers := {1}\<rparr>))"

lemma key_order_iterates: "cache_inv c \<Longrightarrow> iterates (key_order c) c"
  by (simp add: iterates_def key_order_def cache_inv_def)

lemmas run_states = one_slot_def cache_sys_init_def cache_new_def at_pc_def fun_eq_iff slot_new_def
  put_via_def deref_def store_slot_def put_def count_overwrite_def view_def

lemma puts_one_slot:
  assumes "n' = (if full then Suc n else 0)" "full \<or> n = 0"
  shows "cache_step order (at_pc t pc ((one_slot full n)\<lparr>readers := R\<rparr>)) (at_pc t pc ((one_slot True n')\<lparr>readers := R\<rparr>))"
  by (rule back_subst [of "cache_step order s" for s,
        OF cache_step.puts [where k = 5 and a = 0 and data = "[2]" and now = 0]])
     (use assms in \<open>auto simp: run_states\<close>)

lemma add_run_start: "cache_reachable key_order (add_run 0)"
proof -
  note step = back_subst [of "cache_reachable key_order", OF cache_next]
  have "cache_reachable key_order (at_pc 0 (CEmplace 5 True) (cache_sys_init\<lparr>writer := Some 0\<rparr>))"
    by (rule cache_next [OF cache_start locks_unique]) (simp_all add: cache_sys_init_def)
  then have "cache_reachable key_order (at_pc 0 CLeaveUnique ((one_slot False 0)\<lparr>writer := Some 0\<rparr>))"
    by (rule step [OF _ emplaces [where t = 0 and h = 5 and keep = True]])
       (auto simp: run_states try_emplace_def)
  then have "cache_reachable key_order (at_pc 1 COut ((one_slot False 0)\<lparr>readers := {}\<rparr>))"
    by (rule step [OF _ unlocks_unique [where t = 0]]) (auto simp: run_states)
  then have "cache_reachable key_order (at_pc 1 COut ((one_slot True 0)\<lparr>readers := {}\<rparr>))"
    by (rule cache_next [OF _ puts_one_slot]) simp_all
  then have "cache_reachable key_order (at_pc 1 COut ((one_slot True 1)\<lparr>readers := {}\<rparr>))"
    by (rule cache_next [OF _ puts_one_slot]) simp_all
  then show ?thesis
    by (rule step [OF _ locks_shared [where t = 1 and pc = "CTotal [5] 0"]])
       (auto simp: run_states add_run_def key_order_def)
qed

lemma add_run_steps: "i < 2 \<Longrightarrow> cache_step key_order (add_run i) (add_run (Suc i))"
proof (cases "i = 0")
  case True
  then show ?thesis by (simp add: add_run_def puts_one_slot)
next
  case False
  assume "i < 2"
  then have i: "i = 1" using False by simp
  have "cache_step key_order (at_pc 1 (CTotal [5] 0) ((one_slot True 2)\<lparr>readers := {1}\<rparr>))
      (at_pc 1 (CTotal [] 2) ((one_slot True 2)\<lparr>readers := {1}\<rparr>))"
    by (rule back_subst [of "cache_step key_order s" for s, OF adds [where t = 1]])
       (auto simp: run_states read_drops_def)
  then show ?thesis by (simp add: i add_run_def)
qed

theorem cache_map_stable_witness:
  "slots (cache (add_run 1)) = slots (cache (add_run 0)) \<and> get_slot_fast 5 (cache (add_run 0)) = Some 0"
proof
  note stable = cache_map_stable [OF add_run_start]
  have "in_shared (cpcs (add_run 0) 1)" by (simp add: add_run_def)
  then show "slots (cache (add_run 1)) = slots (cache (add_run 0))" using stable add_run_steps [of 0] by auto
  have "(5, 0) \<in> pointers (add_run 0)" by (simp add: add_run_def one_slot_def)
  then show "get_slot_fast 5 (cache (add_run 0)) = Some 0" using stable by auto
qed

theorem total_linearizable_witness:
  "\<exists>i \<le> 2. get_total_dropped (key_order (cache (add_run i))) (cache (add_run i)) 0 = Inr 2"
  by (rule total_linearizable [OF key_order_iterates add_run_start _ add_run_steps, where t = 1])
     (auto simp: add_run_def one_slot_def key_order_def)

end
