(* ===== verification/Session_Concurrent.thy ===== *)
theory Session_Concurrent
  imports Sessions "HOL-Library.List_Lexorder" "HOL-Library.Char_ord"
begin

text \<open>
  The session table under \<^verbatim>\<open>session_mutex_\<close> (\<^verbatim>\<open>src/reactor.cpp\<close>): receive
  threads read the clock, then lock, insert and assign; \<^verbatim>\<open>get_sessions\<close> locks, reads the
  clock and visits the entries one after another. The clock moves on between any two steps and
  never back.
\<close>

subsection \<open>State and steps\<close>

text \<open>
  Where a thread is: \<open>Timed\<close> to \<open>Stored\<close> are the session block of the receive callback, from
  its clock reading on; \<open>Locked\<close> and \<open>Listing\<close> are \<^verbatim>\<open>get_sessions\<close>, with the rest of the
  iteration and the list so far.
\<close>

datatype session_pc =
    SessionOut
  | Timed string int | Entered string int | Inserted string int | Stored string int
  | Locked | Listing int "string list" "SessionInfo list"

text \<open>A finished call, with the robot and the clock reading, or the reading and the result.\<close>

datatype session_call = Touched string int | Listed int "SessionInfo list"

record session_sys =
  steady_now :: int
  last_seen :: session_map
  holder :: "nat option"
  spcs :: "nat \<Rightarrow> session_pc"
  history :: "session_call list"

definition session_init :: "int \<Rightarrow> session_sys" where
  "session_init now = \<lparr>steady_now = now, last_seen = Map.empty, holder = None, spcs = (\<lambda>t. SessionOut), history = []\<rparr>"

definition goes :: "nat \<Rightarrow> session_pc \<Rightarrow> session_sys \<Rightarrow> session_sys" where
  "goes t pc s = s\<lparr>spcs := (spcs s)(t := pc)\<rparr>"

text \<open>
  \<^verbatim>\<open>(*ctx->session_last_seen)[robot_id] = now_ms\<close> inserts a zero for a new robot before it
  assigns.
\<close>

inductive receive_step :: "session_sys \<Rightarrow> session_sys \<Rightarrow> bool" where
  reads_time: "spcs s t = SessionOut \<Longrightarrow> robot_id_of key = Some rid \<Longrightarrow>
    receive_step s (goes t (Timed rid (steady_now s)) s)"
| locks_table: "spcs s t = Timed rid now \<Longrightarrow> holder s = None \<Longrightarrow>
    receive_step s (goes t (Entered rid now) (s\<lparr>holder := Some t\<rparr>))"
| inserts: "spcs s t = Entered rid now \<Longrightarrow>
    receive_step s (goes t (Inserted rid now)
      (s\<lparr>last_seen := (if last_seen s rid = None then (last_seen s)(rid \<mapsto> 0) else last_seen s)\<rparr>))"
| assigns: "spcs s t = Inserted rid now \<Longrightarrow>
    receive_step s (goes t (Stored rid now) (s\<lparr>last_seen := touch_session rid now (last_seen s)\<rparr>))"
| unlocks_touched: "spcs s t = Stored rid now \<Longrightarrow>
    receive_step s (goes t SessionOut (s\<lparr>holder := None, history := history s @ [Touched rid now]\<rparr>))"

inductive list_step :: "(session_map \<Rightarrow> string list) \<Rightarrow> session_sys \<Rightarrow> session_sys \<Rightarrow> bool" for order where
  locks_list: "spcs s t = SessionOut \<Longrightarrow> holder s = None \<Longrightarrow>
    list_step order s (goes t Locked (s\<lparr>holder := Some t\<rparr>))"
| starts_list: "spcs s t = Locked \<Longrightarrow>
    list_step order s (goes t (Listing (steady_now s) (order (last_seen s)) []) s)"
| lists_one: "spcs s t = Listing now (rid # ord) infos \<Longrightarrow>
    list_step order s (goes t (Listing now ord
      (infos @ (case last_seen s rid of None \<Rightarrow> [] | Some seen \<Rightarrow> [session_info now rid seen]))) s)"
| unlocks_listed: "spcs s t = Listing now [] infos \<Longrightarrow>
    list_step order s (goes t SessionOut (s\<lparr>holder := None, history := history s @ [Listed now infos]\<rparr>))"

inductive session_step :: "(session_map \<Rightarrow> string list) \<Rightarrow> session_sys \<Rightarrow> session_sys \<Rightarrow> bool" for order where
  clock_ticks: "steady_now s \<le> now \<Longrightarrow> session_step order s (s\<lparr>steady_now := now\<rparr>)"
| receives: "receive_step s s' \<Longrightarrow> session_step order s s'"
| lists: "list_step order s s' \<Longrightarrow> session_step order s s'"

inductive session_reachable :: "(session_map \<Rightarrow> string list) \<Rightarrow> int \<Rightarrow> session_sys \<Rightarrow> bool" for order t0 where
  session_start: "session_reachable order t0 (session_init t0)"
| session_next: "session_reachable order t0 s \<Longrightarrow> session_step order s s' \<Longrightarrow> session_reachable order t0 s'"

subsection \<open>The invariant\<close>

text \<open>The table the finished calls leave when each runs in one step.\<close>

fun replay_call :: "session_call \<Rightarrow> session_map \<Rightarrow> session_map" where
  "replay_call (Touched rid now) m = touch_session rid now m"
| "replay_call (Listed now infos) m = m"

abbreviation table_after :: "session_call list \<Rightarrow> session_map" where
  "table_after h \<equiv> fold replay_call h Map.empty"

fun call_time :: "session_call \<Rightarrow> int" where
  "call_time (Touched rid now) = now"
| "call_time (Listed now infos) = now"

fun inside :: "session_pc \<Rightarrow> bool" where
  "inside SessionOut = False" | "inside (Timed rid now) = False" | "inside pc = True"

text \<open>What a thread knows of the table and the clock where it is.\<close>

fun pc_ok :: "(session_map \<Rightarrow> string list) \<Rightarrow> session_sys \<Rightarrow> session_pc \<Rightarrow> bool" where
  "pc_ok order s SessionOut \<longleftrightarrow> True"
| "pc_ok order s (Timed rid now) \<longleftrightarrow> now \<le> steady_now s"
| "pc_ok order s (Entered rid now) \<longleftrightarrow> now \<le> steady_now s \<and> last_seen s = table_after (history s)"
| "pc_ok order s (Inserted rid now) \<longleftrightarrow> now \<le> steady_now s \<and>
     (\<forall>v. (last_seen s)(rid \<mapsto> v) = (table_after (history s))(rid \<mapsto> v))"
| "pc_ok order s (Stored rid now) \<longleftrightarrow> now \<le> steady_now s \<and>
     last_seen s = touch_session rid now (table_after (history s))"
| "pc_ok order s Locked \<longleftrightarrow> last_seen s = table_after (history s)"
| "pc_ok order s (Listing now ord infos) \<longleftrightarrow> now \<le> steady_now s \<and> last_seen s = table_after (history s) \<and>
     (\<forall>c \<in> set (history s). call_time c \<le> now) \<and>
     infos @ get_sessions ord now (last_seen s) = get_sessions (order (last_seen s)) now (last_seen s)"

text \<open>Every listing in the history is the sequential one of its moment.\<close>

definition listings_ok :: "(session_map \<Rightarrow> string list) \<Rightarrow> session_call list \<Rightarrow> bool" where
  "listings_ok order h \<longleftrightarrow> (\<forall>h1 now infos h2. h = h1 @ Listed now infos # h2 \<longrightarrow>
     infos = get_sessions (order (table_after h1)) now (table_after h1) \<and> (\<forall>c \<in> set h1. call_time c \<le> now))"

definition session_inv :: "(session_map \<Rightarrow> string list) \<Rightarrow> session_sys \<Rightarrow> bool" where
  "session_inv order s \<longleftrightarrow>
     (\<forall>t. inside (spcs s t) \<longleftrightarrow> holder s = Some t) \<and> (\<forall>t. pc_ok order s (spcs s t)) \<and>
     (holder s = None \<longrightarrow> last_seen s = table_after (history s)) \<and>
     (\<forall>c \<in> set (history s). call_time c \<le> steady_now s) \<and> listings_ok order (history s)"

lemma listings_ok_Nil [simp]: "listings_ok order []"
  by (simp add: listings_ok_def)

lemma listings_ok_snoc:
  assumes "listings_ok order h"
    and "\<And>now infos. c = Listed now infos \<Longrightarrow>
      infos = get_sessions (order (table_after h)) now (table_after h) \<and> (\<forall>c \<in> set h. call_time c \<le> now)"
  shows "listings_ok order (h @ [c])"
  unfolding listings_ok_def
proof (intro allI impI)
  fix h1 now infos h2
  assume h: "h @ [c] = h1 @ Listed now infos # h2"
  show "infos = get_sessions (order (table_after h1)) now (table_after h1) \<and> (\<forall>c \<in> set h1. call_time c \<le> now)"
  proof (cases h2 rule: rev_cases)
    case Nil
    then show ?thesis using h assms(2) by simp
  next
    case (snoc h3 c')
    then have "h = h1 @ Listed now infos # h3" using h by simp
    then show ?thesis using assms(1) unfolding listings_ok_def by blast
  qed
qed

lemma get_sessions_simps [simp]:
  "get_sessions [] now m = []"
  "get_sessions (rid # ord) now m =
     (case m rid of None \<Rightarrow> [] | Some seen \<Rightarrow> [session_info now rid seen]) @ get_sessions ord now m"
  by (simp_all add: get_sessions_def map_filter_simps split: option.split)

text \<open>A step of one thread that may be inside, while no other is.\<close>

lemma session_inv_thread:
  assumes inv: "session_inv order s" and free: "holder s = None \<or> holder s = Some t"
    and pcs: "spcs s' = (spcs s)(t := pc)" and now: "steady_now s' = steady_now s"
    and here: "pc_ok order s' pc" "if inside pc then holder s' = Some t else holder s' = None"
    and rest: "holder s' = None \<longrightarrow> last_seen s' = table_after (history s')"
      "\<forall>c \<in> set (history s'). call_time c \<le> steady_now s'" "listings_ok order (history s')"
  shows "session_inv order s'"
proof -
  have out: "\<not> inside (spcs s t')" if "t' \<noteq> t" for t' using inv free that by (auto simp: session_inv_def)
  have "pc_ok order s' (spcs s' t')" for t'
  proof (cases "t' = t")
    case False
    moreover have "pc_ok order s (spcs s t')" using inv by (simp add: session_inv_def)
    ultimately show ?thesis using out [OF False] pcs now by (cases "spcs s t'") simp_all
  qed (use pcs here in simp)
  moreover have "inside (spcs s' t') \<longleftrightarrow> holder s' = Some t'" for t'
    using pcs here(2) out by (cases "t' = t") (auto split: if_splits)
  ultimately show ?thesis using rest by (simp add: session_inv_def)
qed

lemma goes_fields [simp]:
  "spcs (goes t pc s) = (spcs s)(t := pc)" "steady_now (goes t pc s) = steady_now s"
  "last_seen (goes t pc s) = last_seen s" "holder (goes t pc s) = holder s" "history (goes t pc s) = history s"
  by (simp_all add: goes_def)

lemma session_threadD:
  "session_inv order s \<Longrightarrow> pc_ok order s (spcs s t)" "session_inv order s \<Longrightarrow> inside (spcs s t) \<longleftrightarrow> holder s = Some t"
  by (simp_all add: session_inv_def)

lemma session_invD:
  assumes "session_inv order s"
  shows "holder s = None \<Longrightarrow> last_seen s = table_after (history s)"
    "\<forall>c \<in> set (history s). call_time c \<le> steady_now s" "listings_ok order (history s)"
  using assms by (auto simp: session_inv_def)

lemma receive_inv:
  assumes "receive_step s s'" "session_inv order s"
  shows "session_inv order s'"
  using assms(1)
proof cases
  case (reads_time t key rid)
  have "pc_ok order s' (spcs s' t')" for t'
    using session_threadD(1) [OF assms(2), of t'] reads_time by (cases "t' = t"; cases "spcs s t'") auto
  then show ?thesis using reads_time assms(2) session_threadD(2) [OF assms(2), of t]
    by (auto simp: session_inv_def split: if_splits)
next
  case (locks_table t rid now)
  show ?thesis
    by (rule session_inv_thread [OF assms(2), where t = t])
       (use locks_table session_threadD [OF assms(2), of t] session_invD [OF assms(2)] in auto)
next
  case (inserts t rid now)
  show ?thesis
    by (rule session_inv_thread [OF assms(2), where t = t])
       (use inserts session_threadD [OF assms(2), of t] session_invD [OF assms(2)] in \<open>auto simp: fun_eq_iff\<close>)
next
  case (assigns t rid now)
  show ?thesis
    by (rule session_inv_thread [OF assms(2), where t = t])
       (use assigns session_threadD [OF assms(2), of t] session_invD [OF assms(2)] in \<open>auto simp: touch_session_def\<close>)
next
  case (unlocks_touched t rid now)
  show ?thesis
    by (rule session_inv_thread [OF assms(2), where t = t])
       (use unlocks_touched session_threadD [OF assms(2), of t] session_invD [OF assms(2)] in \<open>auto intro: listings_ok_snoc\<close>)
qed

lemma list_inv:
  assumes "list_step order s s'" "session_inv order s"
  shows "session_inv order s'"
  using assms(1)
proof cases
  case (locks_list t)
  show ?thesis
    by (rule session_inv_thread [OF assms(2), where t = t])
       (use locks_list session_threadD [OF assms(2), of t] session_invD [OF assms(2)] in auto)
next
  case (starts_list t)
  show ?thesis
    by (rule session_inv_thread [OF assms(2), where t = t])
       (use starts_list session_threadD [OF assms(2), of t] session_invD [OF assms(2)] in auto)
next
  case (lists_one t now rid ord infos)
  show ?thesis
    by (rule session_inv_thread [OF assms(2), where t = t])
       (use lists_one session_threadD [OF assms(2), of t] session_invD [OF assms(2)] in auto)
next
  case (unlocks_listed t now infos)
  show ?thesis
    by (rule session_inv_thread [OF assms(2), where t = t])
       (use unlocks_listed session_threadD [OF assms(2), of t] session_invD [OF assms(2)] in \<open>auto intro!: listings_ok_snoc\<close>)
qed

lemma session_inv_step:
  assumes "session_step order s s'" "session_inv order s"
  shows "session_inv order s'"
  using assms(1)
proof cases
  case (clock_ticks now)
  have "pc_ok order s' (spcs s t)" for t
    using session_threadD(1) [OF assms(2), of t] clock_ticks by (cases "spcs s t") auto
  then show ?thesis using clock_ticks assms(2) by (force simp: session_inv_def)
qed (use receive_inv list_inv assms(2) in blast)+

lemma session_inv_reachable: "session_reachable order t0 s \<Longrightarrow> session_inv order s"
proof (induction rule: session_reachable.induct)
  case session_start
  show ?case by (simp add: session_inv_def session_init_def)
next
  case (session_next s s')
  then show ?case by (blast intro: session_inv_step)
qed

text \<open>No reading is from before the start.\<close>

fun pc_times :: "session_pc \<Rightarrow> int set" where
  "pc_times (Timed rid now) = {now}" | "pc_times (Entered rid now) = {now}" | "pc_times (Inserted rid now) = {now}"
| "pc_times (Stored rid now) = {now}" | "pc_times (Listing now ord infos) = {now}" | "pc_times pc = {}"

lemma readings_after_start:
  "session_reachable order t0 s \<Longrightarrow>
    t0 \<le> steady_now s \<and> (\<forall>t. \<forall>x \<in> pc_times (spcs s t). t0 \<le> x) \<and> (\<forall>c \<in> set (history s). t0 \<le> call_time c)"
proof (induction rule: session_reachable.induct)
  case session_start
  show ?case by (simp add: session_init_def)
next
  case (session_next s s')
  note ih = session_next.IH [THEN conjunct1] session_next.IH [THEN conjunct2, THEN conjunct2]
    session_next.IH [THEN conjunct2, THEN conjunct1, rule_format]
  have "pc_times (spcs s' t) \<subseteq> insert (steady_now s) (pc_times (spcs s t))" for t
    using session_next(2) by (cases; (elim receive_step.cases list_step.cases)?) auto
  then have "t0 \<le> x" if "x \<in> pc_times (spcs s' t)" for x t using that ih(1,3) by blast
  moreover have "c \<in> set (history s) \<or> (\<exists>t. call_time c \<in> pc_times (spcs s t))" if "c \<in> set (history s')" for c
    using session_next(2) that
    by (cases; (elim receive_step.cases list_step.cases)?) (auto, (metis pc_times.simps(4,5) singletonI)+)
  then have "t0 \<le> call_time c" if "c \<in> set (history s')" for c using that ih(2,3) by blast
  moreover have "t0 \<le> steady_now s'"
    using session_next(2) ih(1) by (cases; (elim receive_step.cases list_step.cases)?) auto
  ultimately show ?case by blast
qed

subsection \<open>What the table and a listing hold\<close>

lemma touch_apply: "touch_session rid now m r = (if r = rid then Some (of_int (to_ms now)) else m r)"
  by (simp add: touch_session_def)

lemma dom_touch: "dom (touch_session rid now m) = insert rid (dom m)"
  by (auto simp: touch_apply dom_def)

lemma table_after_snoc:
  "table_after (h @ [Touched rid now]) = touch_session rid now (table_after h)"
  "table_after (h @ [Listed now infos]) = table_after h"
  by simp_all

lemma table_after_touched:
  "table_after h rid = Some v \<Longrightarrow> \<exists>t. Touched rid t \<in> set h \<and> v = of_int (to_ms t)"
proof (induction h rule: rev_induct)
  case (snoc c h)
  then show ?case
    by (cases c) (auto simp only: table_after_snoc touch_apply set_append set_simps split: if_splits)
qed simp

lemma dom_table_after: "dom (table_after h) = {rid. \<exists>t. Touched rid t \<in> set h}"
proof (induction h rule: rev_induct)
  case (snoc c h)
  then show ?case by (cases c) (simp_all only: table_after_snoc dom_touch, auto)
qed simp

lemma finite_table_after: "finite (dom (table_after h))"
proof (induction h rule: rev_induct)
  case (snoc c h)
  then show ?case by (cases c) (simp_all only: table_after_snoc dom_touch finite_insert)
qed simp

lemma get_sessions_map:
  assumes "set ord \<subseteq> dom m"
  shows "get_sessions ord now m = map (\<lambda>rid. session_info now rid (the (m rid))) ord"
  using assms by (induction ord) auto

definition visits_all :: "(session_map \<Rightarrow> string list) \<Rightarrow> bool" where
  "visits_all order \<longleftrightarrow> (\<forall>m. finite (dom m) \<longrightarrow> distinct (order m) \<and> set (order m) = dom m)"

subsection \<open>Properties\<close>

text \<open>
  C22. The session table is linearizable: under every interleaving of receive callbacks with
  threads that list the sessions, a finished list is the one \<^verbatim>\<open>get_sessions\<close> computes in
  one step after the calls that finished before it. It names every robot touched before exactly
  once and no other, an age counts from a sample of that robot, and the age never wraps, because
  the list reads the clock inside the lock.
\<close>

theorem sessions_linearizable:
  assumes "visits_all order" "session_reachable order t0 s" "0 \<le> t0" "steady_now s < 2 ^ 63"
    and "history s = h1 @ Listed now infos # h2"
  shows "infos = get_sessions (order (table_after h1)) now (table_after h1) \<and>
    distinct (map robot_id infos) \<and> robot_id ` set infos = {rid. \<exists>t. Touched rid t \<in> set h1} \<and>
    (\<forall>info \<in> set infos. \<exists>t \<le> now. Touched (robot_id info) t \<in> set h1 \<and>
       uint (last_seen_ms info) = to_ms now - to_ms t \<and> (online info \<longleftrightarrow> to_ms now - to_ms t < 5000))"
proof -
  let ?m = "table_after h1"
  have ord: "distinct (order ?m)" "set (order ?m) = dom ?m"
    using assms(1) finite_table_after by (simp_all add: visits_all_def)
  note inv = session_inv_reachable [OF assms(2)]
  have seq: "infos = get_sessions (order ?m) now ?m" and past: "\<forall>c \<in> set h1. call_time c \<le> now"
    using session_invD(3) [OF inv] assms(5) unfolding listings_ok_def by blast+
  have infos: "infos = map (\<lambda>rid. session_info now rid (the (?m rid))) (order ?m)"
    unfolding seq using ord(2) by (intro get_sessions_map) simp
  have names: "map robot_id infos = order ?m" unfolding infos by (simp add: comp_def session_info_def Let_def)
  have now: "now < 2 ^ 63" using session_invD(2) [OF inv] assms(4,5) by force
  have age: "\<exists>t \<le> now. Touched (robot_id info) t \<in> set h1 \<and>
       uint (last_seen_ms info) = to_ms now - to_ms t \<and> (online info \<longleftrightarrow> to_ms now - to_ms t < 5000)"
    if info: "info \<in> set infos" for info
  proof -
    obtain rid where rid: "rid \<in> dom ?m" "info = session_info now rid (the (?m rid))"
      using info ord(2) unfolding infos set_map by blast
    then obtain t where t: "Touched rid t \<in> set h1" "?m rid = Some (of_int (to_ms t))"
      using table_after_touched by blast
    have "t \<le> now" using bspec [OF past t(1)] by simp
    moreover have "t0 \<le> t"
      using bspec [OF conjunct2 [OF conjunct2 [OF readings_after_start [OF assms(2)]]], of "Touched rid t"] t(1) assms(5)
      by simp
    ultimately have "0 \<le> to_ms t" "to_ms t \<le> to_ms now" "to_ms now < 2 ^ 63"
      using to_ms_mono [of t now] now assms(3) by (simp_all add: to_ms_def)
    note u64_diff_small [OF this]
    then show ?thesis using t rid(2) \<open>t \<le> now\<close> 
      by (intro exI [of _ t]) (simp add: session_info_def Let_def)
  qed
  have "robot_id ` set infos = {rid. \<exists>t. Touched rid t \<in> set h1}"
    using names ord(2) dom_table_after by (metis list.set_map)
  then show ?thesis using seq names ord(1) age by auto
qed

subsection \<open>Two callbacks that overtake each other\<close>

lemma session_then:
  assumes "session_reachable order t0 s" "session_step order s s'" "s' = s2"
  shows "session_reachable order t0 s2"
  using session_next assms by blast

lemma single_element: "distinct xs \<Longrightarrow> set xs = {x} \<Longrightarrow> xs = [x]"
  by (cases xs rule: remdups_adj.cases) auto

lemmas same_session = session_sys.equality

text \<open>The rest of a callback that nobody interrupts, and a whole list.\<close>

lemma touch_path:
  assumes "session_reachable order t0 s" "spcs s t = Timed rid now" "holder s = None"
  shows "session_reachable order t0 (goes t SessionOut
    (s\<lparr>last_seen := touch_session rid now (last_seen s), history := history s @ [Touched rid now]\<rparr>))"
proof -
  have "session_reachable order t0 (goes t (Entered rid now) (s\<lparr>holder := Some t\<rparr>))"
    using session_next [OF assms(1) receives [OF locks_table]] assms(2,3) by blast
  then have "session_reachable order t0 (goes t (Inserted rid now) (s\<lparr>holder := Some t,
      last_seen := (if last_seen s rid = None then (last_seen s)(rid \<mapsto> 0) else last_seen s)\<rparr>))"
    by (rule session_then [OF _ receives [OF inserts [where t = t]]]) (auto intro!: same_session)
  then have "session_reachable order t0 (goes t (Stored rid now) (s\<lparr>holder := Some t,
      last_seen := touch_session rid now (last_seen s)\<rparr>))"
    by (rule session_then [OF _ receives [OF assigns [where t = t]]]) (auto intro!: same_session simp: touch_session_def)
  then show ?thesis
    by (rule session_then [OF _ receives [OF unlocks_touched [where t = t]]]) (auto intro!: same_session simp: assms(3))
qed

lemma list_path:
  assumes "session_reachable order t0 s" "spcs s t = SessionOut" "holder s = None" "order (last_seen s) = [rid]"
    and "last_seen s rid = Some seen"
  shows "session_reachable order t0 (goes t SessionOut
    (s\<lparr>history := history s @ [Listed (steady_now s) [session_info (steady_now s) rid seen]]\<rparr>))"
proof -
  have "session_reachable order t0 (goes t Locked (s\<lparr>holder := Some t\<rparr>))"
    using session_next [OF assms(1) lists [OF locks_list]] assms(2,3) by blast
  then have "session_reachable order t0 (goes t (Listing (steady_now s) [rid] []) (s\<lparr>holder := Some t\<rparr>))"
    by (rule session_then [OF _ lists [OF starts_list [where t = t]]]) (auto intro!: same_session simp: assms(4))
  then have "session_reachable order t0
      (goes t (Listing (steady_now s) [] [session_info (steady_now s) rid seen]) (s\<lparr>holder := Some t\<rparr>))"
    by (rule session_then [OF _ lists [OF lists_one [where t = t]]]) (auto intro!: same_session simp: assms(5))
  then show ?thesis
    by (rule session_then [OF _ lists [OF unlocks_listed [where t = t]]]) (auto intro!: same_session simp: assms(3))
qed

text \<open>
  C23. The recorded time can go back, because the callback reads the clock before it locks: of
  two samples of one robot the older reading may be stored last. A robot whose newest sample was
  recorded at \<open>t2\<close> is then listed at \<open>t2\<close> with the age of the older one, and as offline when
  that is five seconds old.
\<close>

theorem session_time_goes_back:
  assumes "visits_all order" "robot_id_of key = Some rid" "0 \<le> t1" "t1 \<le> t2" "t2 < 2 ^ 63"
    and "5000 \<le> to_ms t2 - to_ms t1"
  shows "\<exists>s. session_reachable order t1 s \<and> steady_now s = t2 \<and>
    history s = [Touched rid t2, Touched rid t1,
      Listed t2 [\<lparr>robot_id = rid, online = False, last_seen_ms = of_int (to_ms t2 - to_ms t1)\<rparr>]]"
proof -
  define old new where "old = (\<lambda>m :: session_map. touch_session rid t1 m)" and "new = touch_session rid t2 Map.empty"
  define pcs where "pcs = (\<lambda>t :: nat. SessionOut)(0 := Timed rid t1)"
  have "session_reachable order t1 ((session_init t1)\<lparr>spcs := pcs\<rparr>)"
    by (rule session_then [OF session_start receives [OF reads_time [where t = 0, OF _ assms(2)]]])
       (auto intro!: same_session simp: session_init_def pcs_def)
  then have "session_reachable order t1 ((session_init t1)\<lparr>steady_now := t2, spcs := pcs\<rparr>)"
    by (rule session_then [OF _ clock_ticks [where now = t2]])
       (use assms(4) in \<open>auto intro!: same_session simp: session_init_def\<close>)
  then have "session_reachable order t1 ((session_init t1)\<lparr>steady_now := t2, spcs := pcs(1 := Timed rid t2)\<rparr>)"
    by (rule session_then [OF _ receives [OF reads_time [where t = 1, OF _ assms(2)]]])
       (auto intro!: same_session simp: session_init_def pcs_def)
  note touch_path [OF this, of 1 rid t2]
  then have "session_reachable order t1
      (\<lparr>steady_now = t2, last_seen = new, holder = None, spcs = pcs(1 := SessionOut), history = [Touched rid t2]\<rparr>)"
    by (simp add: session_init_def goes_def new_def)
  note touch_path [OF this, of 0 rid t1]
  then have "session_reachable order t1
      (\<lparr>steady_now = t2, last_seen = old new, holder = None, spcs = pcs(1 := SessionOut, 0 := SessionOut),
        history = [Touched rid t2, Touched rid t1]\<rparr>)"
    by (simp add: goes_def old_def pcs_def)
  moreover have "dom (old new) = {rid}" "old new rid = Some (of_int (to_ms t1))"
    by (simp_all add: old_def new_def dom_touch touch_apply)
  moreover have "order (old new) = [rid]"
    using assms(1) \<open>dom (old new) = {rid}\<close> by (simp add: visits_all_def single_element)
  ultimately have "session_reachable order t1 (goes 2 SessionOut
      (\<lparr>steady_now = t2, last_seen = old new, holder = None, spcs = pcs(1 := SessionOut, 0 := SessionOut),
        history = [Touched rid t2, Touched rid t1, Listed t2 [session_info t2 rid (of_int (to_ms t1))]]\<rparr>))"
    using list_path [of order t1 "\<lparr>steady_now = t2, last_seen = old new, holder = None,
        spcs = pcs(1 := SessionOut, 0 := SessionOut), history = [Touched rid t2, Touched rid t1]\<rparr>" 2 rid
        "of_int (to_ms t1)"] by (simp add: pcs_def)
  moreover have "session_info t2 rid (of_int (to_ms t1)) =
      \<lparr>robot_id = rid, online = False, last_seen_ms = of_int (to_ms t2 - to_ms t1)\<rparr>"
  proof -
    have "0 \<le> to_ms t1" "to_ms t1 \<le> to_ms t2" "to_ms t2 < 2 ^ 63"
      using assms(3-5) to_ms_mono [OF assms(4)] by (simp_all add: to_ms_def)
    from u64_diff_small(1) [OF this] show ?thesis using assms(6) by (simp add: session_info_def Let_def)
  qed
  ultimately show ?thesis by (intro exI) auto
qed

subsection \<open>Concrete runs\<close>

definition robot_order :: "session_map \<Rightarrow> string list" where
  "robot_order m = sorted_list_of_set (dom m)"

lemma robot_order_visits: "visits_all robot_order"
  by (simp add: visits_all_def robot_order_def)

lemma robot_key: "robot_id_of ''robot/r1/imu'' = Some ''robot/r1''"
  by code_simp

lemma listed_run:
  "\<exists>s. session_reachable robot_order 1000000 s \<and> steady_now s = 3000000 \<and>
     history s = [Touched ''robot/r1'' 1000000] @ Listed 3000000 [session_info 3000000 ''robot/r1'' 1] # []"
proof -
  define pcs where "pcs = (\<lambda>t :: nat. SessionOut)(0 := Timed ''robot/r1'' 1000000)"
  have "session_reachable robot_order 1000000 ((session_init 1000000)\<lparr>spcs := pcs\<rparr>)"
    by (rule session_then [OF session_start receives [OF reads_time [where t = 0, OF _ robot_key]]])
       (auto intro!: same_session simp: session_init_def pcs_def)
  then have "session_reachable robot_order 1000000 ((session_init 1000000)\<lparr>steady_now := 3000000, spcs := pcs\<rparr>)"
    by (rule session_then [OF _ clock_ticks [where now = 3000000]])
       (auto intro!: same_session simp: session_init_def)
  note touch_path [OF this, of 0 "''robot/r1''" 1000000]
  then have "session_reachable robot_order 1000000
      (\<lparr>steady_now = 3000000, last_seen = [''robot/r1'' \<mapsto> 1], holder = None, spcs = pcs(0 := SessionOut),
        history = [Touched ''robot/r1'' 1000000]\<rparr>)"
    by (simp add: session_init_def goes_def pcs_def touch_session_def to_ms_def)
  note list_path [OF this, of 0 "''robot/r1''" 1]
  then show ?thesis by (intro exI, intro conjI) (auto simp: robot_order_def)
qed

theorem sessions_linearizable_witness:
  "online (session_info 3000000 ''robot/r1'' 1)"
proof -
  obtain s where s: "session_reachable robot_order 1000000 s" "steady_now s = 3000000"
    "history s = [Touched ''robot/r1'' 1000000] @ Listed 3000000 [session_info 3000000 ''robot/r1'' 1] # []"
    using listed_run by blast
  from sessions_linearizable [OF robot_order_visits s(1) _ _ s(3)] s(2)
  show ?thesis by (auto simp: to_ms_def)
qed

theorem session_time_goes_back_witness:
  "\<exists>s. session_reachable robot_order 1000000000 s \<and> steady_now s = 7000000000 \<and>
     history s = [Touched ''robot/r1'' 7000000000, Touched ''robot/r1'' 1000000000,
       Listed 7000000000 [\<lparr>robot_id = ''robot/r1'', online = False, last_seen_ms = 6000\<rparr>]]"
  using session_time_goes_back [OF robot_order_visits robot_key, of 1000000000 7000000000] by (simp add: to_ms_def)

end
