(* ===== verification/Stats_Concurrent.thy ===== *)
theory Stats_Concurrent
  imports Stats Spin_Lock
begin

text \<open>
  The latency windows under \<^verbatim>\<open>latency_mutex_\<close> (\<^verbatim>\<open>src/reactor.cpp\<close>): the loop
  records, the UI summarises a channel or clears all three, each in several accesses. A mutex
  admits one thread at a time as the spin lock of a slot does, so the protocol of
  \<^verbatim>\<open>Spin_Lock\<close> is interpreted on these sections.
\<close>

subsection \<open>The sections\<close>

type_synonym latency_windows = "TopicPriority \<Rightarrow> double list"

datatype latency_op = Record TopicPriority double | Summarise TopicPriority | ClearAll

text \<open>The locals of a summary: \<^verbatim>\<open>sorted\<close>, the average and the two percentiles.\<close>

type_synonym summary = "double list \<times> double \<times> double \<times> double"

definition no_summary :: summary where "no_summary = ([], 0, 0, 0)"

definition at_quantile :: "double list \<Rightarrow> double \<Rightarrow> double" where
  "at_quantile xs q = xs ! min (quantile_index (length xs) q) (length xs - 1)"

type_synonym latency_action = "latency_windows \<times> summary \<Rightarrow> latency_windows \<times> summary"

definition record_section :: "TopicPriority \<Rightarrow> double \<Rightarrow> latency_action list" where
  "record_section prio x =
     [\<lambda>(w, l). (w(prio := w prio @ [x]), l),
      \<lambda>(w, l). (if length (w prio) > LATENCY_WINDOW_SIZE then w(prio := tl (w prio)) else w, l)]"

definition stats_section :: "TopicPriority \<Rightarrow> latency_action list" where
  "stats_section prio =
     [\<lambda>(w, (xs, avg, p95, p99)). (w, (if w prio \<noteq> [] then w prio else xs, avg, p95, p99)),
      \<lambda>(w, (xs, avg, p95, p99)). (w, (sort xs, avg, p95, p99)),
      \<lambda>(w, (xs, avg, p95, p99)).
        (w, (xs, if xs = [] then avg else fdiv (accumulate xs) (of_integer (int (length xs))), p95, p99)),
      \<lambda>(w, (xs, avg, p95, p99)). (w, (xs, avg, if xs = [] then p95 else at_quantile xs lit_0_95, p99)),
      \<lambda>(w, (xs, avg, p95, p99)). (w, (xs, avg, p95, if xs = [] then p99 else at_quantile xs lit_0_99))]"

definition clear_section :: "latency_action list" where
  "clear_section =
     [\<lambda>(w, l). (w(CRITICAL := []), l), \<lambda>(w, l). (w(NORMAL := []), l), \<lambda>(w, l). (w(BACKGROUND := []), l)]"

fun latency_section :: "latency_op \<Rightarrow> latency_action list" where
  "latency_section (Record prio x) = record_section prio x"
| "latency_section (Summarise prio) = stats_section prio"
| "latency_section ClearAll = clear_section"

text \<open>The same operations in one step each, as the sequential model has them.\<close>

definition summary_of :: "double list \<Rightarrow> summary" where
  "summary_of lats =
     (let st = channel_stats 0 0 lats in (sort lats, avg_latency_us st, p95_latency_us st, p99_latency_us st))"

fun latency_effect :: "latency_op \<Rightarrow> latency_windows \<times> summary \<Rightarrow> latency_windows \<times> summary" where
  "latency_effect (Record prio x) (w, l) = (w(prio := window_push (w prio) x), l)"
| "latency_effect (Summarise prio) (w, l) = (w, summary_of (w prio))"
| "latency_effect ClearAll (w, l) = (\<lambda>prio. [], l)"

lemma all_cleared: "w(CRITICAL := [], NORMAL := [], BACKGROUND := []) = (\<lambda>prio. [])"
proof
  fix prio
  show "(w(CRITICAL := [], NORMAL := [], BACKGROUND := [])) prio = []" by (cases prio) simp_all
qed

lemma sort_Nil_iff [simp]: "sort xs = [] \<longleftrightarrow> xs = []"
  by (metis length_0_conv length_sort)

lemma latencies_only:
  "avg_latency_us (channel_stats proc drops lats) = avg_latency_us (channel_stats 0 0 lats)"
  "p95_latency_us (channel_stats proc drops lats) = p95_latency_us (channel_stats 0 0 lats)"
  "p99_latency_us (channel_stats proc drops lats) = p99_latency_us (channel_stats 0 0 lats)"
  by (simp_all add: channel_stats_def Let_def)

interpretation latency_lock: lock_protected latency_section latency_effect no_summary
proof
  fix op and w :: latency_windows
  show "run_actions (latency_section op) (w, no_summary) = latency_effect op (w, no_summary)"
  proof (cases op)
    case (Record prio x)
    then show ?thesis by (simp add: record_section_def window_push_def Let_def)
  next
    case (Summarise prio)
    then show ?thesis
      by (simp add: stats_section_def no_summary_def summary_of_def channel_stats_def at_quantile_def Let_def)
  next
    case ClearAll
    then show ?thesis by (simp add: clear_section_def all_cleared)
  qed
qed

subsection \<open>What a summary is of\<close>

text \<open>The latencies of a channel since the last clear.\<close>

definition recorded :: "TopicPriority \<Rightarrow> latency_op list \<Rightarrow> double list" where
  "recorded prio ops = foldl (\<lambda>l op. case op of Record p x \<Rightarrow> if p = prio then l @ [x] else l
     | Summarise p \<Rightarrow> l | ClearAll \<Rightarrow> []) [] ops"

definition newest :: "nat \<Rightarrow> 'a list \<Rightarrow> 'a list" where
  "newest n l = drop (length l - n) l"

lemma window_push_newest:
  "window_push (newest LATENCY_WINDOW_SIZE l) x = newest LATENCY_WINDOW_SIZE (l @ [x])"
  using fold_window_push [of "[]" l] fold_window_push [of "[]" "l @ [x]"] by (simp add: newest_def)

lemma replay_windows:
  "fst (replay latency_effect no_summary ops (\<lambda>prio. [])) prio = newest LATENCY_WINDOW_SIZE (recorded prio ops)"
proof (induction ops rule: rev_induct)
  case (snoc op ops)
  obtain w ls where w: "replay latency_effect no_summary ops (\<lambda>prio. []) = (w, ls)" by force
  with snoc have "w prio = newest LATENCY_WINDOW_SIZE (recorded prio ops)" by simp
  then show ?case
    by (cases op) (auto simp: replay_append w Let_def recorded_def window_push_newest newest_def [of _ "[]"])
qed (simp add: recorded_def newest_def)

subsection \<open>Property\<close>

text \<open>
  C24. Under every interleaving of the loop that records latencies with threads that read the
  statistics or reset them, a finished summary is that of the newest 1000 latencies its channel
  recorded since the last reset, in the order in which the calls held the mutex: a reader never
  sees the window between \<^verbatim>\<open>push_back\<close> and \<^verbatim>\<open>pop_front\<close>, nor a reset that has
  cleared only some channels.
\<close>

theorem stats_under_mutex:
  assumes "spin_reachable latency_section no_summary (\<lambda>prio. []) c"
    and "done_ops c = ds @ (Summarise prio, (xs, avg, p95, p99)) # ds'"
  shows "(let st = channel_stats proc drops (newest LATENCY_WINDOW_SIZE (recorded prio (map fst ds))) in
     avg = avg_latency_us st \<and> p95 = p95_latency_us st \<and> p99 = p99_latency_us st) \<and> length xs \<le> LATENCY_WINDOW_SIZE"
proof -
  obtain w ls where w: "replay latency_effect no_summary (map fst ds) (\<lambda>prio. []) = (w, ls)" by force
  then have "w prio = newest LATENCY_WINDOW_SIZE (recorded prio (map fst ds))"
    using replay_windows [of "map fst ds" prio] by simp
  moreover have "(xs, avg, p95, p99) = summary_of (w prio)"
    using latency_lock.finished_result [OF assms] w by simp
  ultimately show ?thesis by (simp add: summary_of_def newest_def Let_def latencies_only [of proc drops])
qed

theorem stats_under_mutex_witness:
  "\<exists>c l. spin_reachable latency_section no_summary (\<lambda>prio. []) c \<and>
     done_ops c = [(Record NORMAL 5, no_summary), (Summarise NORMAL, l)] \<and> fst (snd (snd l)) = 5"
proof -
  obtain c where c: "spin_reachable latency_section no_summary (\<lambda>prio. []) c" "threads c 0 = TIdle" "\<not> spin_lock c"
    "done_ops c = [(Record NORMAL 5, no_summary)]"
    using latency_lock.run_alone [OF spin_start, where t = 0 and op = "Record NORMAL 5"] by (auto simp: spin_init_def)
  obtain w l where l: "latency_effect (Summarise NORMAL) (shared c, no_summary) = (w, l)" by (metis surj_pair)
  obtain xs avg p95 p99 where l4: "l = (xs, avg, p95, p99)" by (cases l)
  obtain d where d: "spin_reachable latency_section no_summary (\<lambda>prio. []) d"
    "done_ops d = [(Record NORMAL 5, no_summary)] @ (Summarise NORMAL, (xs, avg, p95, p99)) # []"
    using latency_lock.run_alone [OF c(1-3) l] c(4) l4 by auto
  have "p95 = 5"
    using stats_under_mutex [OF d, where proc = 0 and drops = 0]
    by (simp add: recorded_def newest_def LATENCY_WINDOW_SIZE_def channel_stats_def Let_def)
  with d l4 show ?thesis by auto
qed

end
