(* ===== verification/Lock_Order.thy ===== *)
theory Lock_Order
  imports FK_Prelude
begin

text \<open>
  The locks of all components together: which function takes which lock while it holds which
  other. A call is the list of its acquisitions and releases, in the order of the code; any
  number of threads make calls. The locale shows that calls which acquire in increasing rank
  never block each other for good; its interpretation gives that for the kernel's functions.
\<close>

subsection \<open>Calls that take locks\<close>

datatype 'l lock_act = Acquire 'l | AcquireShared 'l | Release 'l

text \<open>A scoped lock around what the scope does.\<close>

definition guarded :: "'l \<Rightarrow> 'l lock_act list \<Rightarrow> 'l lock_act list" where
  "guarded l acts = Acquire l # acts @ [Release l]"

definition guarded_shared :: "'l \<Rightarrow> 'l lock_act list \<Rightarrow> 'l lock_act list" where
  "guarded_shared l acts = AcquireShared l # acts @ [Release l]"

record 'l lock_sys =
  todo :: "nat \<Rightarrow> 'l lock_act list"
  owner_of :: "'l \<Rightarrow> nat option"
  sharers :: "'l \<Rightarrow> nat set"

definition all_free :: "'l lock_sys" where
  "all_free = \<lparr>todo = (\<lambda>t. []), owner_of = (\<lambda>l. None), sharers = (\<lambda>l. {})\<rparr>"

text \<open>
  One step of thread \<open>t\<close>. A shared mutex may or may not let readers pass a waiting writer;
  \<open>writers_first\<close> says which.
\<close>

inductive lock_work :: "bool \<Rightarrow> nat \<Rightarrow> 'l lock_sys \<Rightarrow> 'l lock_sys \<Rightarrow> bool" for writers_first t where
  acquires: "todo s t = Acquire l # acts \<Longrightarrow> owner_of s l = None \<Longrightarrow> sharers s l = {} \<Longrightarrow>
    lock_work writers_first t s (s\<lparr>todo := (todo s)(t := acts), owner_of := (owner_of s)(l \<mapsto> t)\<rparr>)"
| acquires_shared: "todo s t = AcquireShared l # acts \<Longrightarrow> owner_of s l = None \<Longrightarrow>
    writers_first \<longrightarrow> (\<forall>u acts'. todo s u \<noteq> Acquire l # acts') \<Longrightarrow>
    lock_work writers_first t s (s\<lparr>todo := (todo s)(t := acts), sharers := (sharers s)(l := insert t (sharers s l))\<rparr>)"
| releases: "todo s t = Release l # acts \<Longrightarrow>
    lock_work writers_first t s (s\<lparr>todo := (todo s)(t := acts),
      owner_of := (if owner_of s l = Some t then (owner_of s)(l := None) else owner_of s),
      sharers := (sharers s)(l := sharers s l - {t})\<rparr>)"

inductive lock_reachable :: "('c \<Rightarrow> 'l lock_act list) \<Rightarrow> bool \<Rightarrow> 'l lock_sys \<Rightarrow> bool" for acts_of writers_first where
  locks_start: "lock_reachable acts_of writers_first all_free"
| locks_work: "lock_reachable acts_of writers_first s \<Longrightarrow> lock_work writers_first t s s' \<Longrightarrow>
    lock_reachable acts_of writers_first s'"
| locks_call: "lock_reachable acts_of writers_first s \<Longrightarrow> todo s t = [] \<Longrightarrow>
    lock_reachable acts_of writers_first (s\<lparr>todo := (todo s)(t := acts_of c)\<rparr>)"

subsection \<open>Increasing ranks\<close>

text \<open>\<open>hs\<close> are the locks held, the last one acquired first.\<close>

fun ranked :: "('l \<Rightarrow> nat) \<Rightarrow> 'l list \<Rightarrow> 'l lock_act list \<Rightarrow> bool" where
  "ranked rank hs [] \<longleftrightarrow> hs = []"
| "ranked rank hs (Acquire l # acts) \<longleftrightarrow> (\<forall>h \<in> set hs. rank h < rank l) \<and> ranked rank (l # hs) acts"
| "ranked rank hs (AcquireShared l # acts) \<longleftrightarrow> (\<forall>h \<in> set hs. rank h < rank l) \<and> ranked rank (l # hs) acts"
| "ranked rank hs (Release l # acts) \<longleftrightarrow> (case hs of [] \<Rightarrow> False | h # hs' \<Rightarrow> h = l \<and> ranked rank hs' acts)"

text \<open>A piece of a call that takes locks of rank \<open>n\<close> or more and gives all of them back.\<close>

definition scoped :: "('l \<Rightarrow> nat) \<Rightarrow> nat \<Rightarrow> 'l lock_act list \<Rightarrow> bool" where
  "scoped rank n acts \<longleftrightarrow> (\<forall>hs rest. (\<forall>h \<in> set hs. rank h < n) \<longrightarrow> ranked rank hs (acts @ rest) = ranked rank hs rest)"

lemma scoped_Nil [simp]: "scoped rank n []"
  by (simp add: scoped_def)

lemma scoped_append [intro]: "scoped rank n as \<Longrightarrow> scoped rank n bs \<Longrightarrow> scoped rank n (as @ bs)"
  by (simp add: scoped_def)

lemma scoped_concat [intro]: "(\<And>as. as \<in> set ass \<Longrightarrow> scoped rank n as) \<Longrightarrow> scoped rank n (concat ass)"
  by (induction ass) auto

lemma scoped_mono: "scoped rank n as \<Longrightarrow> m \<le> n \<Longrightarrow> scoped rank m as"
  unfolding scoped_def by (meson order_less_le_trans)

lemma scoped_guarded:
  assumes "scoped rank (Suc (rank l)) acts" "n \<le> rank l"
  shows "scoped rank n (guarded l acts)" "scoped rank n (guarded_shared l acts)"
proof -
  have inner: "ranked rank (l # hs) (acts @ Release l # rest) = ranked rank hs rest" if "\<forall>h \<in> set hs. rank h < n" for hs rest
  proof -
    have "\<forall>h \<in> set (l # hs). rank h < Suc (rank l)" using that assms(2) by auto
    with assms(1) have "ranked rank (l # hs) (acts @ Release l # rest) = ranked rank (l # hs) (Release l # rest)"
      unfolding scoped_def by blast
    then show ?thesis by simp
  qed
  have "\<forall>h \<in> set hs. rank h < rank l" if "\<forall>h \<in> set hs. rank h < n" for hs using that assms(2) by auto
  with inner show "scoped rank n (guarded l acts)" "scoped rank n (guarded_shared l acts)"
    by (auto simp: scoped_def guarded_def guarded_shared_def)
qed

lemma scoped_ranked: "scoped rank 0 acts \<Longrightarrow> ranked rank [] acts"
  unfolding scoped_def by (drule spec [of _ "[]"], drule spec [of _ "[]"]) simp

subsection \<open>No deadlock\<close>

definition holding :: "'l lock_sys \<Rightarrow> nat \<Rightarrow> 'l set" where
  "holding s t = {l. owner_of s l = Some t \<or> t \<in> sharers s l}"

text \<open>How much is left to do.\<close>

definition busy :: "'l lock_sys \<Rightarrow> nat set" where
  "busy s = {t. todo s t \<noteq> []}"

definition work_left :: "'l lock_sys \<Rightarrow> nat" where
  "work_left s = (\<Sum>t \<in> busy s. length (todo s t))"

locale lock_hierarchy =
  fixes rank :: "'l \<Rightarrow> nat" and top_rank :: nat and acts_of :: "'c \<Rightarrow> 'l lock_act list"
  assumes rank_bound: "rank l \<le> top_rank"
    and calls_ranked: "ranked rank [] (acts_of c)"
begin

definition hierarchy_inv :: "'l lock_sys \<Rightarrow> bool" where
  "hierarchy_inv s \<longleftrightarrow> finite (busy s) \<and>
     (\<forall>t. \<exists>hs. distinct hs \<and> set hs = holding s t \<and> ranked rank hs (todo s t))"

lemma hierarchyE:
  assumes "hierarchy_inv s"
  obtains hs where "distinct hs" "set hs = holding s t" "ranked rank hs (todo s t)"
  using assms unfolding hierarchy_inv_def by blast

lemma hierarchy_thread:
  assumes inv: "hierarchy_inv s" and todo: "todo s' = (todo s)(t := acts)"
    and others: "\<And>u. u \<noteq> t \<Longrightarrow> holding s' u = holding s u"
    and here: "\<And>hs. distinct hs \<Longrightarrow> set hs = holding s t \<Longrightarrow> ranked rank hs (todo s t) \<Longrightarrow>
      \<exists>hs'. distinct hs' \<and> set hs' = holding s' t \<and> ranked rank hs' acts"
  shows "hierarchy_inv s'"
  unfolding hierarchy_inv_def
proof (intro conjI allI)
  have "busy s' \<subseteq> insert t (busy s)" using todo by (auto simp: busy_def split: if_splits)
  then show "finite (busy s')" using inv by (meson finite_insert finite_subset hierarchy_inv_def)
  fix u
  obtain hs where "distinct hs" "set hs = holding s u" "ranked rank hs (todo s u)" using inv by (rule hierarchyE)
  then show "\<exists>hs. distinct hs \<and> set hs = holding s' u \<and> ranked rank hs (todo s' u)"
    using here others todo by (cases "u = t") auto
qed

lemma hierarchy_work:
  assumes "lock_work writers_first t s s'" "hierarchy_inv s"
  shows "hierarchy_inv s'"
  using assms(1)
proof cases
  case (acquires l acts)
  have hold: "holding s' t = insert l (holding s t)" "\<And>u. u \<noteq> t \<Longrightarrow> holding s' u = holding s u"
    using acquires by (auto simp: holding_def split: if_splits)
  show ?thesis
  proof (rule hierarchy_thread [OF assms(2) _ hold(2)])
    show "todo s' = (todo s)(t := acts)" using acquires by simp
    fix hs
    assume "distinct hs" "set hs = holding s t" "ranked rank hs (todo s t)"
    then show "\<exists>hs'. distinct hs' \<and> set hs' = holding s' t \<and> ranked rank hs' acts"
      using acquires hold(1) by (intro exI [of _ "l # hs"]) auto
  qed
next
  case (acquires_shared l acts)
  have hold: "holding s' t = insert l (holding s t)" "\<And>u. u \<noteq> t \<Longrightarrow> holding s' u = holding s u"
    using acquires_shared by (auto simp: holding_def split: if_splits)
  show ?thesis
  proof (rule hierarchy_thread [OF assms(2) _ hold(2)])
    show "todo s' = (todo s)(t := acts)" using acquires_shared by simp
    fix hs
    assume "distinct hs" "set hs = holding s t" "ranked rank hs (todo s t)"
    then show "\<exists>hs'. distinct hs' \<and> set hs' = holding s' t \<and> ranked rank hs' acts"
      using acquires_shared hold(1) by (intro exI [of _ "l # hs"]) auto
  qed
next
  case (releases l acts)
  have hold: "holding s' t = holding s t - {l}" "\<And>u. u \<noteq> t \<Longrightarrow> holding s' u = holding s u"
    using releases by (auto simp: holding_def split: if_splits)
  show ?thesis
  proof (rule hierarchy_thread [OF assms(2) _ hold(2)])
    show "todo s' = (todo s)(t := acts)" using releases by simp
    fix hs
    assume "distinct hs" "set hs = holding s t" "ranked rank hs (todo s t)"
    then show "\<exists>hs'. distinct hs' \<and> set hs' = holding s' t \<and> ranked rank hs' acts"
      using releases hold(1) by (intro exI [of _ "tl hs"]) (auto split: list.splits)
  qed
qed

lemma hierarchy_reachable: "lock_reachable acts_of writers_first s \<Longrightarrow> hierarchy_inv s"
proof (induction rule: lock_reachable.induct)
  case locks_start
  show ?case by (auto simp: hierarchy_inv_def all_free_def busy_def holding_def intro!: exI [of _ "[]"])
next
  case (locks_work s t s')
  then show ?case using hierarchy_work by blast
next
  case (locks_call s t c)
  have "hs = []" if "ranked rank hs (todo s t)" for hs using that locks_call(2) by simp
  then show ?case using calls_ranked locks_call(2)
    by (intro hierarchy_thread [OF locks_call.IH, where t = t and acts = "acts_of c"]) (auto simp: holding_def)
qed

text \<open>A lock that is held belongs to a thread that still has to release it.\<close>

lemma holder_waits_higher:
  assumes "hierarchy_inv s" "l \<in> holding s v" "\<nexists>s'. lock_work writers_first v s s'"
  shows "\<exists>l' acts. todo s v = Acquire l' # acts \<and> rank l < rank l' \<or> todo s v = AcquireShared l' # acts \<and> rank l < rank l'"
proof -
  obtain hs where hs: "set hs = holding s v" "ranked rank hs (todo s v)" using assms(1) by (rule hierarchyE)
  then obtain a acts where a: "todo s v = a # acts" using assms(2) by (cases "todo s v") auto
  show ?thesis
  proof (cases a)
    case (Release l')
    then have "todo s v = Release l' # acts" using a by simp
    from lock_work.releases [OF this, of writers_first] show ?thesis using assms(3) by blast
  qed (use a hs assms(2) in auto)
qed

lemma wait_has_holder:
  assumes "todo s t = a # acts" "a = Acquire l \<or> a = AcquireShared l" "\<And>u. \<nexists>s'. lock_work writers_first u s s'"
  shows "\<exists>v. l \<in> holding s v"
proof -
  have acq: "\<exists>v. l \<in> holding s v" if u: "todo s u = Acquire l # acts'" for u acts'
    using lock_work.acquires [OF u] assms(3) [of u] by (fastforce simp: holding_def)
  show ?thesis
  proof (rule ccontr)
    assume no: "\<nexists>v. l \<in> holding s v"
    then have "\<forall>u acts'. todo s u \<noteq> Acquire l # acts'" "owner_of s l = None"
      using acq by (blast, cases "owner_of s l") (auto simp: holding_def)
    moreover from this assms(1,2) have "todo s t = AcquireShared l # acts" by auto
    ultimately show False using lock_work.acquires_shared [of s t l acts writers_first] assms(3) by blast
  qed
qed

lemma no_deadlock:
  assumes "hierarchy_inv s" "busy s \<noteq> {}"
  shows "\<exists>t s'. lock_work writers_first t s s'"
proof (rule ccontr)
  assume "\<nexists>t s'. lock_work writers_first t s s'"
  then have stuck: "\<nexists>s'. lock_work writers_first u s s'" for u by blast
  define waits where "waits = (\<lambda>n. \<exists>t l acts. rank l = n \<and> (todo s t = Acquire l # acts \<or> todo s t = AcquireShared l # acts))"
  obtain t a acts where t: "todo s t = a # acts" using assms(2) by (auto simp: busy_def neq_Nil_conv)
  have "waits (rank l)" if "a = Acquire l \<or> a = AcquireShared l" for l using t that by (auto simp: waits_def)
  moreover have "a \<noteq> Release l" for l using lock_work.releases [of s t] t stuck by blast
  ultimately have "\<exists>n. waits n" by (cases a) blast+
  moreover have "waits n \<Longrightarrow> n \<le> top_rank" for n using rank_bound by (auto simp: waits_def)
  ultimately obtain n where n: "waits n" "\<And>m. waits m \<Longrightarrow> m \<le> n" using Greatest_le_nat GreatestI_nat by metis
  then obtain u l acts' where u: "rank l = n" "todo s u = Acquire l # acts' \<or> todo s u = AcquireShared l # acts'"
    by (auto simp: waits_def)
  then obtain v where "l \<in> holding s v" using wait_has_holder stuck by metis
  then obtain l' acts'' where "todo s v = Acquire l' # acts'' \<or> todo s v = AcquireShared l' # acts''" "rank l < rank l'"
    using holder_waits_higher [OF assms(1) _ stuck] by metis
  then have "waits (rank l')" by (auto simp: waits_def)
  with n(2) u(1) \<open>rank l < rank l'\<close> show False by fastforce
qed

text \<open>Each step leaves less to do.\<close>

lemma work_decreases:
  assumes "lock_work writers_first t s s'" "hierarchy_inv s"
  shows "work_left s' < work_left s"
proof -
  obtain a acts where a: "todo s t = a # acts" "todo s' = (todo s)(t := acts)" using assms(1) by cases auto
  have fin: "finite (busy s)" using assms(2) by (simp add: hierarchy_inv_def)
  have "work_left s' = (\<Sum>u \<in> busy s. length (todo s' u))" unfolding work_left_def
    using fin a by (intro sum.mono_neutral_left) (auto simp: busy_def split: if_splits)
  also have "\<dots> < (\<Sum>u \<in> busy s. length (todo s u))"
    using fin a by (intro sum_strict_mono_ex1) (auto simp: busy_def intro!: bexI [of _ t])
  finally show ?thesis by (simp add: work_left_def)
qed

lemma idle_free:
  assumes "hierarchy_inv s" "busy s = {}"
  shows "todo s = (\<lambda>t. []) \<and> owner_of s = (\<lambda>l. None) \<and> sharers s = (\<lambda>l. {})"
proof -
  have idle: "todo s t = []" for t using assms(2) by (auto simp: busy_def)
  have "holding s t = {}" for t
  proof -
    obtain hs where "set hs = holding s t" "ranked rank hs (todo s t)" using assms(1) by (rule hierarchyE)
    then show ?thesis by (simp add: idle)
  qed
  then have "owner_of s l \<noteq> Some t" "t \<notin> sharers s l" for l t by (auto simp: holding_def)
  moreover from this(1) have "owner_of s l = None" for l by (cases "owner_of s l") auto
  ultimately show ?thesis using idle by (auto simp: fun_eq_iff)
qed

text \<open>A run without new calls: it only stops when nobody can move.\<close>

lemma calls_finish:
  assumes "hierarchy_inv (\<sigma> 0)"
    and "\<And>i. (\<exists>t. lock_work writers_first t (\<sigma> i) (\<sigma> (Suc i))) \<or> (\<nexists>t s'. lock_work writers_first t (\<sigma> i) s') \<and> \<sigma> (Suc i) = \<sigma> i"
  shows "busy (\<sigma> (work_left (\<sigma> 0))) = {}"
proof -
  have inv: "hierarchy_inv (\<sigma> i)" for i
    by (induction i) (use assms hierarchy_work in \<open>metis+\<close>)
  have "busy (\<sigma> i) = {} \<or> work_left (\<sigma> i) + i \<le> work_left (\<sigma> 0)" for i
  proof (induction i)
    case (Suc i)
    show ?case
    proof (cases "busy (\<sigma> i) = {}")
      case True
      then have "\<nexists>t s'. lock_work writers_first t (\<sigma> i) s'" by (auto simp: busy_def elim: lock_work.cases)
      then show ?thesis using assms(2) True by metis
    next
      case False
      then obtain t where "lock_work writers_first t (\<sigma> i) (\<sigma> (Suc i))"
        using assms(2) no_deadlock [OF inv] by blast
      with work_decreases [OF this inv] Suc False show ?thesis by simp
    qed
  qed simp
  from this [of "work_left (\<sigma> 0)"] show ?thesis
    using inv [of "work_left (\<sigma> 0)"] by (auto simp: work_left_def hierarchy_inv_def busy_def)
qed

end

end
