(* ===== verification/Kernel_Locks.thy ===== *)
theory Kernel_Locks
  imports Lock_Order
begin

text \<open>
  The locks of the program and what each function does with them: the mutex of the displayed
  data, the shared mutex of the cache's map, the two mutexes of the reactor, the spin locks of
  the ring's producers and of each slot. What a function does besides is left out; what decides
  which locks it takes is an argument.
\<close>

subsection \<open>Locks\<close>

datatype kernel_lock = DataMutex | MapMutex | LatencyMutex | SessionMutex | ProducersLock | SlotLock u64

text \<open>The order in which the code nests them: the last four never contain another.\<close>

fun lock_rank :: "kernel_lock \<Rightarrow> nat" where
  "lock_rank DataMutex = 0"
| "lock_rank MapMutex = 1"
| "lock_rank LatencyMutex = 2"
| "lock_rank SessionMutex = 2"
| "lock_rank ProducersLock = 2"
| "lock_rank (SlotLock hash) = 2"

type_synonym lock_acts = "kernel_lock lock_act list"

subsection \<open>Ring and cache\<close>

definition push_locks :: lock_acts where
  "push_locks = guarded ProducersLock []"

definition put_locks :: "u64 \<Rightarrow> lock_acts" where
  "put_locks hash = guarded (SlotLock hash) []"

definition take_locks :: "u64 \<Rightarrow> lock_acts" where
  "take_locks hash = guarded (SlotLock hash) []"

definition emplace_locks :: lock_acts where
  "emplace_locks = guarded MapMutex []"

definition get_slot_fast_locks :: lock_acts where
  "get_slot_fast_locks = guarded_shared MapMutex []"

text \<open>\<^verbatim>\<open>drain\<close>: every slot visited, with what the consumer locks when it gets its frame.\<close>

definition drain_locks :: "(u64 \<times> lock_acts) list \<Rightarrow> lock_acts" where
  "drain_locks visits = guarded_shared MapMutex (concat (map (\<lambda>(hash, consumer). take_locks hash @ consumer) visits))"

definition total_dropped_locks :: lock_acts where
  "total_dropped_locks = guarded_shared MapMutex []"

definition print_drop_locks :: lock_acts where
  "print_drop_locks = guarded_shared MapMutex []"

subsection \<open>Reactor\<close>

definition record_latency_locks :: lock_acts where
  "record_latency_locks = guarded LatencyMutex []"

text \<open>The receive callback: whether it books a session, and where the sample goes.\<close>

datatype delivery = ToQueue | ToSlot u64 | NoSlot

definition data_callback_locks :: "bool \<Rightarrow> delivery \<Rightarrow> lock_acts" where
  "data_callback_locks tracked d =
     (if tracked then guarded SessionMutex [] else []) @
     (case d of ToQueue \<Rightarrow> push_locks | ToSlot hash \<Rightarrow> get_slot_fast_locks @ put_locks hash | NoSlot \<Rightarrow> get_slot_fast_locks)"

text \<open>
  One pass: for each sample popped whether its handler is known, for each slot its hash and
  whether it holds a frame of a known handler.
\<close>

definition handle_events_locks :: "bool list \<Rightarrow> (u64 \<times> bool) list \<Rightarrow> lock_acts" where
  "handle_events_locks popped visits =
     concat (map (\<lambda>known. if known then record_latency_locks else []) popped) @
     drain_locks (map (\<lambda>(hash, handled). (hash, if handled then record_latency_locks else [])) visits) @
     total_dropped_locks"

definition run_start_locks :: "bool list \<Rightarrow> lock_acts" where
  "run_start_locks backgrounds = concat (map (\<lambda>background. if background then emplace_locks else []) backgrounds)"

definition channel_stats_locks :: lock_acts where
  "channel_stats_locks = guarded LatencyMutex []"

definition get_sessions_locks :: lock_acts where
  "get_sessions_locks = guarded SessionMutex []"

definition reset_stats_locks :: lock_acts where
  "reset_stats_locks = total_dropped_locks @ guarded LatencyMutex []"

definition print_stats_locks :: lock_acts where
  "print_stats_locks = print_drop_locks"

subsection \<open>Terminal UI\<close>

definition refresh_data_locks :: lock_acts where
  "refresh_data_locks = guarded DataMutex
     (channel_stats_locks @ channel_stats_locks @ channel_stats_locks @ get_sessions_locks)"

definition render_locks :: lock_acts where
  "render_locks = guarded DataMutex []"

subsection \<open>All calls\<close>

datatype kernel_call =
    DataCallback bool delivery | HandleEvents "bool list" "(u64 \<times> bool) list" | RunStart "bool list"
  | GetSlot | ChannelStats | GetSessions | ResetStats | PrintStats | RefreshData | RenderPanel

fun kernel_acts :: "kernel_call \<Rightarrow> lock_acts" where
  "kernel_acts (DataCallback tracked d) = data_callback_locks tracked d"
| "kernel_acts (HandleEvents popped visits) = handle_events_locks popped visits"
| "kernel_acts (RunStart backgrounds) = run_start_locks backgrounds"
| "kernel_acts GetSlot = emplace_locks"
| "kernel_acts ChannelStats = channel_stats_locks"
| "kernel_acts GetSessions = get_sessions_locks"
| "kernel_acts ResetStats = reset_stats_locks"
| "kernel_acts PrintStats = print_stats_locks"
| "kernel_acts RefreshData = refresh_data_locks"
| "kernel_acts RenderPanel = render_locks"

lemma leaf_scoped:
  assumes "n \<le> 2"
  shows "scoped lock_rank n push_locks" "scoped lock_rank n (put_locks hash)" "scoped lock_rank n (take_locks hash)"
    "scoped lock_rank n record_latency_locks" "scoped lock_rank n channel_stats_locks" "scoped lock_rank n get_sessions_locks"
    "scoped lock_rank n (guarded SessionMutex [])" "scoped lock_rank n (guarded LatencyMutex [])"
  unfolding push_locks_def put_locks_def take_locks_def record_latency_locks_def channel_stats_locks_def get_sessions_locks_def
  by (rule scoped_guarded; use assms in simp)+

lemma map_scoped:
  assumes "n \<le> 1"
  shows "scoped lock_rank n emplace_locks" "scoped lock_rank n get_slot_fast_locks"
    "scoped lock_rank n total_dropped_locks" "scoped lock_rank n print_drop_locks"
  unfolding emplace_locks_def get_slot_fast_locks_def total_dropped_locks_def print_drop_locks_def
  by (rule scoped_guarded; use assms in simp)+

lemma drain_scoped:
  assumes "n \<le> 1" "\<And>hash acts. (hash, acts) \<in> set visits \<Longrightarrow> scoped lock_rank 2 acts"
  shows "scoped lock_rank n (drain_locks visits)"
  unfolding drain_locks_def
proof (rule scoped_guarded)
  have "scoped lock_rank 2 (take_locks hash @ acts)" if "(hash, acts) \<in> set visits" for hash acts
    using leaf_scoped(3) [of 2 hash] assms(2) [OF that] by auto
  then show "scoped lock_rank (Suc (lock_rank MapMutex)) (concat (map (\<lambda>(hash, consumer). take_locks hash @ consumer) visits))"
    by (intro scoped_concat) (auto simp: numeral_2_eq_2)
qed (use assms(1) in simp)

lemma kernel_scoped: "scoped lock_rank 0 (kernel_acts c)"
proof (cases c)
  case (DataCallback tracked d)
  then show ?thesis using leaf_scoped [of 0] map_scoped [of 0]
    by (cases d) (auto simp: data_callback_locks_def)
next
  case (HandleEvents popped visits)
  have "scoped lock_rank 0 (concat (map (\<lambda>known. if known then record_latency_locks else []) popped))"
    by (rule scoped_concat) (auto simp: leaf_scoped)
  moreover have "scoped lock_rank 0
      (drain_locks (map (\<lambda>(hash, handled). (hash, if handled then record_latency_locks else [])) visits))"
    by (rule drain_scoped) (auto simp: leaf_scoped)
  ultimately show ?thesis using HandleEvents map_scoped(3) [of 0]
    by (simp add: handle_events_locks_def scoped_append)
next
  case (RunStart backgrounds)
  have "scoped lock_rank 0 (concat (map (\<lambda>background. if background then emplace_locks else []) backgrounds))"
    by (rule scoped_concat) (auto simp: map_scoped)
  then show ?thesis using RunStart by (simp add: run_start_locks_def)
next
  case RefreshData
  have "scoped lock_rank 1 (channel_stats_locks @ channel_stats_locks @ channel_stats_locks @ get_sessions_locks)"
    using leaf_scoped [of 1] by auto
  then show ?thesis using RefreshData by (simp add: refresh_data_locks_def scoped_guarded)
qed (use leaf_scoped [of 0] map_scoped [of 0] in
      \<open>auto simp: reset_stats_locks_def print_stats_locks_def render_locks_def scoped_guarded\<close>)

interpretation kernel_locks: lock_hierarchy lock_rank 2 kernel_acts
proof
  show "lock_rank l \<le> 2" for l by (cases l) simp_all
  show "ranked lock_rank [] (kernel_acts c)" for c by (rule scoped_ranked [OF kernel_scoped])
qed

subsection \<open>Property\<close>

text \<open>
  C6. The program's locks cannot deadlock, whichever threads make which calls at the same time
  and whether or not the shared mutex lets readers pass a waiting writer: while any call is
  unfinished some thread can take its next lock or release one; without new calls every run has
  finished all calls after as many steps as there are acquisitions and releases left; and then
  every lock is free.
\<close>

theorem kernel_deadlock_free:
  assumes "lock_reachable kernel_acts writers_first s"
  shows "(busy s \<noteq> {} \<longrightarrow> (\<exists>t s'. lock_work writers_first t s s')) \<and>
    (\<forall>\<sigma>. \<sigma> 0 = s \<and> (\<forall>i. (\<exists>t. lock_work writers_first t (\<sigma> i) (\<sigma> (Suc i))) \<or>
                (\<nexists>t s'. lock_work writers_first t (\<sigma> i) s') \<and> \<sigma> (Suc i) = \<sigma> i) \<longrightarrow> busy (\<sigma> (work_left s)) = {}) \<and>
    (busy s = {} \<longrightarrow> owner_of s = (\<lambda>l. None) \<and> sharers s = (\<lambda>l. {}))"
proof (intro conjI impI allI)
  note inv = kernel_locks.hierarchy_reachable [OF assms]
  show "\<exists>t s'. lock_work writers_first t s s'" if "busy s \<noteq> {}" by (rule kernel_locks.no_deadlock [OF inv that])
  show "busy (\<sigma> (work_left s)) = {}" if "\<sigma> 0 = s \<and> (\<forall>i. (\<exists>t. lock_work writers_first t (\<sigma> i) (\<sigma> (Suc i))) \<or>
      (\<nexists>t s'. lock_work writers_first t (\<sigma> i) s') \<and> \<sigma> (Suc i) = \<sigma> i)" for \<sigma>
    using kernel_locks.calls_finish [of \<sigma> writers_first] inv that by auto
qed (use kernel_locks.idle_free [OF kernel_locks.hierarchy_reachable [OF assms]] in auto)

text \<open>A reset that waits for the map while an allocation holds it: the allocation can go on.\<close>

definition jam :: "kernel_lock lock_sys" where
  "jam = all_free\<lparr>todo := (\<lambda>t. [])(0 := [Release MapMutex], 1 := reset_stats_locks), owner_of := (\<lambda>l. None)(MapMutex \<mapsto> 0)\<rparr>"

theorem kernel_deadlock_free_witness:
  "(\<nexists>s'. lock_work True 1 jam s') \<and> (\<exists>t s'. lock_work True t jam s')"
proof
  show "\<nexists>s'. lock_work True 1 jam s'"
    by (auto simp: jam_def reset_stats_locks_def total_dropped_locks_def guarded_shared_def elim!: lock_work.cases)
  have "lock_reachable kernel_acts True (all_free\<lparr>todo := (\<lambda>t. [])(0 := kernel_acts GetSlot)\<rparr>)"
    using locks_call [OF locks_start, of 0 kernel_acts True GetSlot] by (simp add: all_free_def)
  note locks_work [OF this acquires [of _ 0 MapMutex "[Release MapMutex]" True]]
  then have "lock_reachable kernel_acts True (all_free\<lparr>todo := (\<lambda>t. [])(0 := [Release MapMutex]), owner_of := (\<lambda>l. None)(MapMutex \<mapsto> 0)\<rparr>)"
    by (simp add: emplace_locks_def guarded_def all_free_def)
  note locks_call [OF this, of 1 ResetStats]
  then have "lock_reachable kernel_acts True jam" by (simp add: jam_def all_free_def)
  moreover have "busy jam \<noteq> {}" by (auto simp: busy_def jam_def intro!: exI [of _ 0])
  ultimately show "\<exists>t s'. lock_work True t jam s'" using kernel_deadlock_free by blast
qed

end
