(* ===== verification/Reactor_Spec.thy ===== *)
theory Reactor_Spec
  imports Reactor_Accounting
begin

text \<open>
  What the reactor promises, without rings, slots, hashes of handlers, counters or clocks:
  one bounded list of pending calls, the freshest payload of each BACKGROUND topic, and the
  calls made so far. The reactor of \<^verbatim>\<open>src/reactor.cpp\<close> implements it.
\<close>

subsection \<open>The abstract dataflow\<close>

record 'cb flow =
  pending :: "('cb \<times> bytes) list"
  freshest :: "u64 \<rightharpoonup> bytes"
  made :: "('cb \<times> bytes) list"

datatype flow_input = OfferQueued u64 bytes | OfferLatest u64 bytes | Turn | Quiet

text \<open>
  A turn makes the pending calls in order and then one call for each topic that has a
  payload, in some order; 511 calls can be pending.
\<close>

inductive flow_step :: "(u64 \<Rightarrow> 'cb) \<Rightarrow> flow_input \<Rightarrow> 'cb flow \<Rightarrow> 'cb flow \<Rightarrow> bool" for route where
  enqueue: "length (pending a) < 511 \<Longrightarrow>
    flow_step route (OfferQueued k d) a (a\<lparr>pending := pending a @ [(route k, d)]\<rparr>)"
| refuse: "length (pending a) = 511 \<Longrightarrow> flow_step route (OfferQueued k d) a a"
| replace: "flow_step route (OfferLatest k d) a (a\<lparr>freshest := (freshest a)(k \<mapsto> d)\<rparr>)"
| turn: "distinct ord \<Longrightarrow> set ord = dom (freshest a) \<Longrightarrow>
    flow_step route Turn a (a\<lparr>pending := [], freshest := Map.empty,
      made := made a @ pending a @ map (\<lambda>k. (route k, the (freshest a k))) ord\<rparr>)"
| quiet: "flow_step route Quiet a a"

inductive flow_run :: "(u64 \<Rightarrow> 'cb) \<Rightarrow> flow_input list \<Rightarrow> 'cb flow \<Rightarrow> 'cb flow \<Rightarrow> bool" for route where
  flow_nil: "flow_run route [] a a"
| flow_cons: "flow_step route i a b \<Longrightarrow> flow_run route is b c \<Longrightarrow> flow_run route (i # is) a c"

inductive_simps flow_run_simps [simp]: "flow_run route [] a b" "flow_run route (i # is) a b"

subsection \<open>The abstraction\<close>

definition flow_of :: "'cb reactor \<Rightarrow> 'cb flow" where
  "flow_of r =
     \<lparr>pending = map (queued_call r) (queue_list (critical_queue r)),
      freshest = (\<lambda>k. case view (background_cache r) k of
                        Some s \<Rightarrow> if has_data s then Some (payload s) else None
                      | None \<Rightarrow> None),
      made = calls r\<rparr>"

definition routes :: "'cb reactor \<Rightarrow> u64 \<Rightarrow> 'cb" where
  "routes r k = callback (target r k)"

fun flow_input_of :: "env \<Rightarrow> event \<Rightarrow> flow_input" where
  "flow_input_of env (Receive ctx smp) =
     (if \<not> admissible env smp then Quiet
      else if ctx_priority ctx = BACKGROUND then OfferLatest (ctx_handler_hash ctx) (z_payload smp)
      else OfferQueued (ctx_handler_hash ctx) (z_payload smp))"
| "flow_input_of env Pass = Turn"
| "flow_input_of env ev = Quiet"

lemma dom_freshest: "dom (freshest (flow_of r)) = waiting (view (background_cache r))"
  by (auto simp: flow_of_def waiting_def dom_def split: option.splits)

lemma flow_of_cong:
  assumes "critical_queue r' = critical_queue r" "background_cache r' = background_cache r" "calls r' = calls r"
    and "handlers r' = handlers r" "handler_index r' = handler_index r"
  shows "flow_of r' = flow_of r" "routes r' = routes r"
  using assms by (simp_all add: flow_of_def routes_def queued_call_def target_def fun_eq_iff cong: map_cong option.case_cong)

lemma held_frames_flow:
  assumes "frames_inv r"
  shows "map (frame_call r) (frames_of ord (view (background_cache r))) =
         map (\<lambda>k. (routes r k, the (freshest (flow_of r) k))) (filter (\<lambda>k. k \<in> waiting (view (background_cache r))) ord)"
proof (induction ord)
  case (Cons k ord)
  show ?case
  proof (cases "k \<in> waiting (view (background_cache r))")
    case True
    then obtain s where s: "view (background_cache r) k = Some s" "has_data s" by (auto simp: waiting_def)
    then have "handler_hash s = k" using assms by (simp add: frames_inv_def)
    with s Cons True show ?thesis by (simp add: held_frame_def frame_call_def routes_def flow_of_def)
  next
    case False
    then have "Option.bind (view (background_cache r) k) held_frame = None"
      by (auto simp: waiting_def held_frame_def split: bind_splits)
    with Cons False show ?thesis by simp
  qed
qed simp

subsection \<open>The simulation\<close>

lemma flow_callback:
  assumes "reactor_inv r" "subscribed r ctx"
  shows "\<exists>r'. zenoh_data_callback env ctx smp r = Inr r' \<and> routes r' = routes r \<and>
     flow_step (routes r) (flow_input_of env (Receive ctx smp)) (flow_of r) (flow_of r')"
proof (cases "admissible env smp")
  case False
  then show ?thesis using callback_discard [OF False, of ctx r] by (simp add: flow_step.quiet)
next
  case adm: True
  have ctx: "ctx_ok r ctx" using assms(2) by (simp add: subscribed_def)
  show ?thesis
  proof (cases "ctx_priority ctx = BACKGROUND")
    case False
    from assms(1) ctx adm this show ?thesis
    proof (cases rule: callback_queue)
      case (accept n m q t tr)
      define r' where "r' = r\<lparr>clock_reads := n, session_last_seen := m, critical_queue := q, io_trace := tr\<rparr>"
      have "flow_of r' = (flow_of r)\<lparr>pending := pending (flow_of r) @ [(routes r (ctx_handler_hash ctx), z_payload smp)]\<rparr>" "routes r' = routes r"
        using accept(4) by (auto simp: r'_def flow_of_def routes_def queued_call_def target_def fun_eq_iff)
      moreover have "length (pending (flow_of r)) < 511" using accept(3) by (simp add: flow_of_def del: length_queue_list)
      ultimately show ?thesis
        using accept(1) adm False flow_step.enqueue [of "flow_of r" "routes r"] by (auto simp: r'_def [symmetric])
    next
      case (reject n m q l)
      define r' where "r' = r\<lparr>clock_reads := n, session_last_seen := m, critical_queue := q, logs := l\<rparr>"
      have "flow_of r' = flow_of r" "routes r' = routes r"
        using reject(4) by (auto simp: r'_def flow_of_def routes_def queued_call_def target_def fun_eq_iff)
      moreover have "length (pending (flow_of r)) = 511" using reject(3) by (simp add: flow_of_def del: length_queue_list)
      ultimately show ?thesis
        using reject(1) adm False flow_step.refuse [of "flow_of r" "routes r"] by (auto simp: r'_def [symmetric])
    qed
  next
    case bg: True
    from assms(1) ctx adm this show ?thesis
    proof (cases rule: callback_background)
      case (no_slot n m)
      then show ?thesis using assms(2) bg by (simp add: subscribed_def)
    next
      case (stored n m c s t)
      define r' where "r' = r\<lparr>clock_reads := n, session_last_seen := m, background_cache := c\<rparr>"
      have "flow_of r' = (flow_of r)\<lparr>freshest := (freshest (flow_of r))(ctx_handler_hash ctx \<mapsto> z_payload smp)\<rparr>" "routes r' = routes r"
        using stored(4) by (auto simp: r'_def flow_of_def routes_def queued_call_def target_def fun_eq_iff)
      then show ?thesis
        using stored(1) adm bg flow_step.replace [of "routes r" _ _ "flow_of r"] by (auto simp: r'_def [symmetric])
    qed
  qed
qed

lemma flow_pass:
  assumes "reactor_inv r" "env_ok env"
  shows "\<exists>r'. handle_events env r = Some (Inr r') \<and> routes r' = routes r \<and>
     flow_step (routes r) Turn (flow_of r) (flow_of r')"
proof -
  define ord where "ord = filter (\<lambda>k. k \<in> waiting (view (background_cache r))) (slot_order env (background_cache r))"
  have fi: "frames_inv r" using assms(1) by (simp add: reactor_inv_def)
  then have c: "cache_inv (background_cache r)" by (simp add: frames_inv_def)
  then have it: "iterates (slot_order env (background_cache r)) (background_cache r)" using assms(2) by (simp add: env_ok_def)
  have "waiting (view (background_cache r)) \<subseteq> dom (view (background_cache r))" by (auto simp: waiting_def)
  also have "\<dots> = dom (slots (background_cache r))" by (simp add: dom_def view_slots [OF c])
  finally have "waiting (view (background_cache r)) \<subseteq> dom (slots (background_cache r))" .
  then have ord: "distinct ord" "set ord = dom (freshest (flow_of r))"
    using it by (auto simp: ord_def iterates_def dom_freshest)
  obtain r' where r': "handle_events env r = Some (Inr r')"
    "calls r' = calls r @ map (queued_call r) (queue_list (critical_queue r)) @ map (frame_call r) (held_frames env r)"
    "queue_list (critical_queue r') = []" "\<And>h. view (background_cache r') h = map_option emptied (view (background_cache r) h)"
    "handlers r' = handlers r" "handler_index r' = handler_index r"
    by (rule handle_events_spec [OF assms]) (rule that)
  have "flow_of r' = (flow_of r)\<lparr>pending := [], freshest := Map.empty,
      made := made (flow_of r) @ pending (flow_of r) @ map (\<lambda>k. (routes r k, the (freshest (flow_of r) k))) ord\<rparr>"
    using held_frames_flow [OF fi, of "slot_order env (background_cache r)"]
    by (simp add: flow_of_def r' held_frames_def ord_def fun_eq_iff split: option.split)
  moreover have "routes r' = routes r" using r'(5,6) by (simp add: routes_def target_def fun_eq_iff)
  ultimately show ?thesis using r'(1) flow_step.turn [OF ord] by auto
qed

lemma flow_other:
  assumes "reactor_inv r" "env_ok env" "ev = Reset \<or> ev = Stop \<or> (\<exists>smp. ev = Liveliness smp)"
  shows "\<exists>r'. apply_event env ev r = Some (Inr r') \<and> routes r' = routes r \<and> flow_of r' = flow_of r"
proof -
  have "flow_of (cleared r) = flow_of r \<and> routes (cleared r) = routes r"
    using flow_of_cong [of "cleared r" r] by (simp add: cleared_def)
  moreover have "flow_of (stop r) = flow_of r \<and> routes (stop r) = routes r"
    using flow_of_cong [of "stop r" r] by (simp add: stop_def Let_def io_def)
  moreover have "flow_of (zenoh_liveliness_callback env smp r) = flow_of r \<and> routes (zenoh_liveliness_callback env smp r) = routes r" for smp
    using flow_of_cong [of "zenoh_liveliness_callback env smp r" r]
    by (simp add: zenoh_liveliness_callback_def read_clock_def io_def spdlog_def)
  ultimately show ?thesis using assms reset_spec [OF assms(1,2)] by auto
qed

lemma run_events_inv:
  assumes "reactor_inv r" "env_ok env" "events_ok r [ev]" "apply_event env ev r = Some (Inr r')"
  shows "reactor_inv r' \<and> subscribed r' = subscribed r"
proof (cases "ev = Reset")
  case True
  have "subscribed (cleared r) = subscribed r" by (simp add: cleared_def subscribed_def ctx_ok_def fun_eq_iff)
  with True show ?thesis using reset_spec [OF assms(1,2)] assms(4) by simp
next
  case False
  from balance_step [OF assms(1-3) this] show ?thesis using assms(4) by auto
qed

lemma flow_event:
  assumes "reactor_inv r" "env_ok env" "events_ok r [ev]"
  shows "\<exists>r'. apply_event env ev r = Some (Inr r') \<and> routes r' = routes r \<and>
     flow_step (routes r) (flow_input_of env ev) (flow_of r) (flow_of r')"
proof (cases ev)
  case (Receive ctx smp)
  then show ?thesis using flow_callback [OF assms(1), of ctx env smp] assms(3) by (auto simp: events_ok_def)
next
  case Pass
  then show ?thesis using flow_pass [OF assms(1,2)] by auto
qed (use flow_other [OF assms(1,2), of ev] in \<open>auto simp: flow_step.quiet\<close>)

text \<open>
  C3. Over any run of interleaved receive callbacks, loop passes, liveliness changes, resets
  and stops the reactor implements the abstract dataflow: every event is one of its steps,
  so the handlers' calls, in their order, the calls still pending and the freshest payloads
  are those the specification allows.
\<close>

theorem reactor_refines_flow:
  assumes "reactor_inv r" "env_ok env" "events_ok r evs"
  shows "\<exists>r'. run_events env evs r = Some (Inr r') \<and>
     flow_run (routes r) (map (flow_input_of env) evs) (flow_of r) (flow_of r')"
  using assms
proof (induction evs arbitrary: r)
  case (Cons ev evs)
  have ok: "events_ok r [ev]" using Cons.prems(3) by (auto simp: events_ok_def)
  from flow_event [OF Cons.prems(1,2) this] obtain r1 where
    r1: "apply_event env ev r = Some (Inr r1)" "routes r1 = routes r"
      "flow_step (routes r) (flow_input_of env ev) (flow_of r) (flow_of r1)" by blast
  then have "reactor_inv r1" "subscribed r1 = subscribed r"
    using run_events_inv [OF Cons.prems(1,2) ok r1(1)] by auto
  moreover from this have "events_ok r1 evs" using Cons.prems(3) by (auto simp: events_ok_def)
  ultimately obtain r2 where "run_events env evs r1 = Some (Inr r2)"
    "flow_run (routes r) (map (flow_input_of env) evs) (flow_of r1) (flow_of r2)"
    using Cons.IH [of r1] Cons.prems(2) r1(2) by auto
  with r1(1,3) show ?case by auto
qed simp

theorem reactor_refines_flow_witness:
  "\<exists>r'. run_events sample_env [Receive \<lparr>ctx_handler_hash = fnv1a_hash ''a'', ctx_priority = CRITICAL, ctx_wakeup_fd = 5\<rparr>
         \<lparr>z_keyexpr = ''robot/1/estop'', z_payload = [1, 2], z_delete = False\<rparr>, Pass] two_topics = Some (Inr r') \<and>
     flow_run (routes two_topics) [OfferQueued (fnv1a_hash ''a'') [1, 2], Turn] (flow_of two_topics) (flow_of r')"
  using reactor_refines_flow [OF two_topics_inv sample_env_ok, of "[Receive _ _, Pass]"] two_topics_ctx
  by (force simp: events_ok_def subscribed_def admissible_def sample_env_def)

end
