(* ===== verification/Fair_Runs.thy ===== *)
theory Fair_Runs
  imports FK_Prelude
begin

text \<open>
  Infinite runs of interleaved threads and what they reach when the scheduler is fair. A
  run may stutter; weak fairness asks of each agent that again and again it is either
  unable to move or moves. The locale states the one rule the liveness theorems use: a rank
  that no step raises and that the helpful agent of the moment lowers.
\<close>

definition run_of :: "('s \<Rightarrow> 's \<Rightarrow> bool) \<Rightarrow> (nat \<Rightarrow> 's) \<Rightarrow> bool" where
  "run_of step \<sigma> \<longleftrightarrow> (\<forall>n. step (\<sigma> n) (\<sigma> (Suc n)) \<or> \<sigma> (Suc n) = \<sigma> n)"

definition weakly_fair :: "('a \<Rightarrow> 's \<Rightarrow> 's \<Rightarrow> bool) \<Rightarrow> (nat \<Rightarrow> 's) \<Rightarrow> bool" where
  "weakly_fair act \<sigma> \<longleftrightarrow> (\<forall>a n. \<exists>m \<ge> n. (\<nexists>s'. act a (\<sigma> m) s') \<or> act a (\<sigma> m) (\<sigma> (Suc m)))"

text \<open>A suffix of a run whose steps all satisfy \<open>R\<close> is a run of the restricted steps.\<close>

lemma run_of_suffix:
  assumes "run_of step \<sigma>" "\<And>m. N \<le> m \<Longrightarrow> R (\<sigma> m) (\<sigma> (Suc m))"
  shows "run_of (\<lambda>s s'. step s s' \<and> R s s') (\<lambda>n. \<sigma> (N + n))"
  using assms by (auto simp: run_of_def)

lemma weakly_fair_suffix:
  assumes "weakly_fair act \<sigma>"
  shows "weakly_fair act (\<lambda>n. \<sigma> (N + n))"
  unfolding weakly_fair_def
proof (intro allI)
  fix a n
  obtain m where "m \<ge> N + n" "(\<nexists>s'. act a (\<sigma> m) s') \<or> act a (\<sigma> m) (\<sigma> (Suc m))"
    using assms unfolding weakly_fair_def by meson
  then show "\<exists>m \<ge> n. (\<nexists>s'. act a (\<sigma> (N + m)) s') \<or> act a (\<sigma> (N + m)) (\<sigma> (N + Suc m))"
    by (intro exI [of _ "m - N"]) (simp add: Suc_diff_le)
qed

text \<open>What every step keeps holds from then on.\<close>

lemma run_keeps:
  assumes "run_of step \<sigma>" "P (\<sigma> n)" "\<And>s s'. P s \<Longrightarrow> step s s' \<Longrightarrow> P s'" "n \<le> m"
  shows "P (\<sigma> m)"
  using assms(4) by (induction rule: dec_induct) (use assms(1-3) in \<open>auto simp: run_of_def, metis\<close>)

lemma run_extends:
  assumes "run_of step \<sigma>" "\<And>s s'. step s s' \<Longrightarrow> \<exists>xs. f s' = f s @ xs" "n \<le> m"
  shows "\<exists>xs. f (\<sigma> m) = f (\<sigma> n) @ xs"
  by (rule run_keeps [OF assms(1) _ _ assms(3), where P = "\<lambda>s. \<exists>xs. f s = f (\<sigma> n) @ xs"])
     (use assms(2) in \<open>auto, metis append.assoc\<close>)

text \<open>A fair run can be preceded by any path that leads to its first state.\<close>

lemma run_of_Cons:
  assumes "step s (\<sigma> 0)" "run_of step \<sigma>"
  shows "run_of step (case_nat s \<sigma>)"
  unfolding run_of_def
proof
  fix n
  show "step (case_nat s \<sigma> n) (case_nat s \<sigma> (Suc n)) \<or> case_nat s \<sigma> (Suc n) = case_nat s \<sigma> n"
    using assms by (cases n) (auto simp: run_of_def)
qed

lemma weakly_fair_Cons:
  assumes "weakly_fair act \<sigma>"
  shows "weakly_fair act (case_nat s \<sigma>)"
  unfolding weakly_fair_def
proof (intro allI)
  fix a n
  obtain m where "m \<ge> n" "(\<nexists>s'. act a (\<sigma> m) s') \<or> act a (\<sigma> m) (\<sigma> (Suc m))"
    using assms unfolding weakly_fair_def by meson
  then show "\<exists>m \<ge> n. (\<nexists>s'. act a (case_nat s \<sigma> m) s') \<or> act a (case_nat s \<sigma> m) (case_nat s \<sigma> (Suc m))"
    by (intro exI [of _ "Suc m"]) simp
qed

lemma run_from_path:
  assumes "step\<^sup>*\<^sup>* s (\<sigma> 0)" "run_of step \<sigma>" "weakly_fair act \<sigma>"
  shows "\<exists>\<rho> k. run_of step \<rho> \<and> weakly_fair act \<rho> \<and> \<rho> 0 = s \<and> (\<forall>n. \<rho> (k + n) = \<sigma> n)"
  using assms(1)
proof (induction rule: converse_rtranclp_induct)
  case base
  show ?case using assms(2,3) by (intro exI [of _ \<sigma>] exI [of _ 0]) simp
next
  case (step s s')
  then obtain \<rho> k where r: "run_of step \<rho>" "weakly_fair act \<rho>" "\<rho> 0 = s'" "\<forall>n. \<rho> (k + n) = \<sigma> n" by blast
  have "run_of step (case_nat s \<rho>)" by (rule run_of_Cons [OF _ r(1)]) (use step.hyps(1) r(3) in simp)
  then show ?case using weakly_fair_Cons [OF r(2)] r(4) by (intro exI [of _ "case_nat s \<rho>"] exI [of _ "Suc k"]) simp
qed

text \<open>Fair runs exist: give the agents turns, and let each move in its turn if it can.\<close>

lemma fair_run_exists:
  fixes act :: "'a \<Rightarrow> 's \<Rightarrow> 's \<Rightarrow> bool" and turn :: "nat \<Rightarrow> 'a"
  assumes "\<And>a s s'. act a s s' \<Longrightarrow> step s s'" "\<And>a n. \<exists>m \<ge> n. turn m = a"
  shows "\<exists>\<sigma>. run_of step \<sigma> \<and> weakly_fair act \<sigma> \<and> \<sigma> 0 = s"
proof -
  define \<sigma> where "\<sigma> = rec_nat s (\<lambda>n x. if \<exists>y. act (turn n) x y then SOME y. act (turn n) x y else x)"
  have next_state: "act (turn n) (\<sigma> n) (\<sigma> (Suc n)) \<or> (\<nexists>y. act (turn n) (\<sigma> n) y) \<and> \<sigma> (Suc n) = \<sigma> n" for n
    unfolding \<sigma>_def by (simp add: someI_ex)
  have "run_of step \<sigma>" using next_state assms(1) unfolding run_of_def by blast
  moreover have "weakly_fair act \<sigma>" using next_state assms(2) unfolding weakly_fair_def by metis
  moreover have "\<sigma> 0 = s" by (simp add: \<sigma>_def)
  ultimately show ?thesis by blast
qed

subsection \<open>Progress by rank\<close>

locale ranked_progress =
  fixes step :: "'s \<Rightarrow> 's \<Rightarrow> bool"
    and act :: "'a \<Rightarrow> 's \<Rightarrow> 's \<Rightarrow> bool"
    and busy goal :: "'s \<Rightarrow> bool"
    and rank :: "'s \<Rightarrow> nat"
    and helper :: "'s \<Rightarrow> 'a"
  assumes step_keeps: "busy s \<Longrightarrow> \<not> goal s \<Longrightarrow> step s s' \<Longrightarrow>
      goal s' \<or> busy s' \<and> (rank s' < rank s \<or> rank s' = rank s \<and> helper s' = helper s)"
    and helper_moves: "busy s \<Longrightarrow> \<not> goal s \<Longrightarrow> \<exists>s'. act (helper s) s s'"
    and helper_lowers: "busy s \<Longrightarrow> \<not> goal s \<Longrightarrow> act (helper s) s s' \<Longrightarrow> step s s' \<or> s' = s \<Longrightarrow> goal s' \<or> rank s' < rank s"
begin

text \<open>Until something is reached the rank stays, and with it the helper.\<close>

lemma waits:
  assumes "run_of step \<sigma>" "busy (\<sigma> n)" "n \<le> m"
  shows "(\<exists>k. n \<le> k \<and> k \<le> m \<and> (goal (\<sigma> k) \<or> busy (\<sigma> k) \<and> rank (\<sigma> k) < rank (\<sigma> n))) \<or>
     busy (\<sigma> m) \<and> \<not> goal (\<sigma> m) \<and> rank (\<sigma> m) = rank (\<sigma> n) \<and> helper (\<sigma> m) = helper (\<sigma> n)"
  using assms(3)
proof (induction rule: dec_induct)
  case base
  then show ?case using assms(2) by blast
next
  case (step m)
  show ?case
  proof (cases "\<exists>k. n \<le> k \<and> k \<le> m \<and> (goal (\<sigma> k) \<or> busy (\<sigma> k) \<and> rank (\<sigma> k) < rank (\<sigma> n))")
    case True
    then show ?thesis using le_SucI by blast
  next
    case False
    with step.IH have s: "busy (\<sigma> m)" "\<not> goal (\<sigma> m)" "rank (\<sigma> m) = rank (\<sigma> n)" "helper (\<sigma> m) = helper (\<sigma> n)" by auto
    have "goal (\<sigma> (Suc m)) \<or> busy (\<sigma> (Suc m)) \<and> (rank (\<sigma> (Suc m)) < rank (\<sigma> m) \<or>
        rank (\<sigma> (Suc m)) = rank (\<sigma> m) \<and> helper (\<sigma> (Suc m)) = helper (\<sigma> m))"
      using assms(1) step_keeps [OF s(1,2)] s unfolding run_of_def by metis
    then show ?thesis using s(3,4) step.hyps(1) by (metis le_SucI order_refl)
  qed
qed

lemma lowers:
  assumes "run_of step \<sigma>" "weakly_fair act \<sigma>" "busy (\<sigma> n)"
  shows "\<exists>k \<ge> n. goal (\<sigma> k) \<or> busy (\<sigma> k) \<and> rank (\<sigma> k) < rank (\<sigma> n)"
proof (rule ccontr)
  assume no: "\<not> ?thesis"
  obtain m where m: "m \<ge> n" "(\<nexists>s'. act (helper (\<sigma> n)) (\<sigma> m) s') \<or> act (helper (\<sigma> n)) (\<sigma> m) (\<sigma> (Suc m))"
    using assms(2) unfolding weakly_fair_def by meson
  have s: "busy (\<sigma> m)" "\<not> goal (\<sigma> m)" "rank (\<sigma> m) = rank (\<sigma> n)" "helper (\<sigma> m) = helper (\<sigma> n)"
    using waits [OF assms(1,3) m(1)] no by blast+
  then have "act (helper (\<sigma> m)) (\<sigma> m) (\<sigma> (Suc m))" using m(2) helper_moves by metis
  then have "goal (\<sigma> (Suc m)) \<or> rank (\<sigma> (Suc m)) < rank (\<sigma> m)" by (rule helper_lowers [OF s(1,2)]) (use assms(1) in \<open>auto simp: run_of_def\<close>)
  moreover have "goal (\<sigma> (Suc m)) \<or> busy (\<sigma> (Suc m))"
    using assms(1) step_keeps [OF s(1,2)] s unfolding run_of_def by metis
  ultimately show False using no s(3) m(1) by (metis le_SucI)
qed

lemma reaches:
  assumes "run_of step \<sigma>" "weakly_fair act \<sigma>" "busy (\<sigma> n)"
  shows "\<exists>m \<ge> n. goal (\<sigma> m)"
  using assms(3)
proof (induction "rank (\<sigma> n)" arbitrary: n rule: less_induct)
  case less
  obtain k where k: "k \<ge> n" "goal (\<sigma> k) \<or> busy (\<sigma> k) \<and> rank (\<sigma> k) < rank (\<sigma> n)"
    using lowers [OF assms(1,2) less.prems] by blast
  then show ?case using less.hyps [of k] by (meson order_trans)
qed

end

end
