(* ===== verification/Reactor_Concurrent.thy ===== *)
theory Reactor_Concurrent
  imports Reactor_Threads
begin

text \<open>
  What holds between any two steps of the reactor's threads: the order of the calls, the
  accounting of every frame, the agreement of an undisturbed pass with the sequential
  model, and that no wake-up is lost.
\<close>

subsection \<open>Wake-ups\<close>

text \<open>
  The loop is past the test of the flag and before the wait; the same after it found the
  queue empty; a CRITICAL sample waits in the queue; the eventfd is written, or somebody is
  about to write it.
\<close>

fun busy :: "loop_pc \<Rightarrow> bool" where
  "busy LCheck = False" | "busy LSync = True" | "busy (LPop c n) = True" | "busy (LCall c n cs) = True"
| "busy (LDrain n ord) = True" | "busy (LFrame n ord f) = True" | "busy LTotals = True" | "busy LWait = True"
| "busy LRead = False" | "busy LSeen = False" | "busy LArm = False" | "busy LDone = False"

fun after_queue :: "loop_pc \<Rightarrow> bool" where
  "after_queue (LDrain n ord) = True" | "after_queue (LFrame n ord f) = True"
| "after_queue LTotals = True" | "after_queue LWait = True" | "after_queue pc = False"

definition urgent :: "'cb conc \<Rightarrow> bool" where
  "urgent s \<longleftrightarrow> (\<exists>x \<in> set (drop (length (lefts (handled s))) (taken_in s)). snd x = CRITICAL)"

definition about_to_write :: "'cb conc \<Rightarrow> bool" where
  "about_to_write s \<longleftrightarrow> (\<exists>t fd. pcs s t = Waking fd)"

definition signalled :: "'cb conc \<Rightarrow> bool" where
  "signalled s \<longleftrightarrow> eventfd_pending (io_trace (mem s)) \<or> about_to_write s"

definition wake_inv :: "'cb conc \<Rightarrow> bool" where
  "wake_inv s \<longleftrightarrow>
     (after_queue (loop s) \<and> urgent s \<longrightarrow> signalled s) \<and> (busy (loop s) \<and> \<not> running (mem s) \<longrightarrow> signalled s)"

text \<open>The trace and the flag after an operation of the loop.\<close>

lemma dispatch_queued_trace:
  "dispatch_queued env cs (Inr (r, c, n)) = Inr (r', c', n') \<Longrightarrow> io_trace r' = io_trace r \<and> running r' = running r"
  by (auto simp: dispatch_queued.simps read_clock_def Let_def record_latency_def invoke_def
      split: option.splits if_splits TopicPriority.splits)

lemma dispatch_background_trace:
  "dispatch_background env h d t (Inr (r, n)) = Inr (r', n') \<Longrightarrow> io_trace r' = io_trace r \<and> running r' = running r"
  by (auto simp: dispatch_background.simps read_clock_def Let_def record_latency_def invoke_def
      split: option.splits if_splits)

lemma trace_kept:
  "io_trace (sync_queue_drops r) = io_trace r" "running (sync_queue_drops r) = running r"
  "io_trace (finish_queue c n r) = io_trace r" "running (finish_queue c n r) = running r"
  "io_trace (count_background m r) = io_trace r" "running (count_background m r) = running r"
  "io_trace (track_session env smp r) = io_trace r" "running (track_session env smp r) = running r"
  by (simp_all add: sync_queue_drops_def charge_drops_def finish_queue_def count_background_def track_session_def read_clock_def spdlog_def Let_def
      split: option.split)

text \<open>A step that writes no \<open>EventfdRead\<close> and moves the loop on.\<close>

lemma wake_inv_step:
  assumes "wake_inv s" "eventfd_pending (io_trace (mem s)) \<Longrightarrow> eventfd_pending (io_trace (mem s'))" "running (mem s') = running (mem s)"
    and "about_to_write s \<Longrightarrow> about_to_write s' \<or> eventfd_pending (io_trace (mem s'))"
    and "after_queue (loop s') \<and> urgent s' \<Longrightarrow> after_queue (loop s) \<and> urgent s"
    and "busy (loop s') \<Longrightarrow> busy (loop s) \<or> running (mem s)"
  shows "wake_inv s'"
  using assms by (auto simp: wake_inv_def signalled_def)

lemma urgent_cong: "handled s' = handled s \<Longrightarrow> taken_in s' = taken_in s \<Longrightarrow> urgent s' = urgent s"
  by (simp add: urgent_def)

lemma pop_step_wake:
  assumes "wake_inv s" "conc_inv r0 s" "loop s = LPop c n"
  shows "wake_inv (pop_step env c n s)"
proof -
  have qi: "queue_inv (mem s)" using assms(2) by (simp add: conc_invs reactor_inv_def)
  then show ?thesis
  proof (cases rule: mpsc_pop_cases)
    case empty
    define s' where "s' = pop_step env c n s"
    have s': "s' = s\<lparr>mem := finish_queue c n (mem s), loop := LDrain 0 (slot_order env (background_cache (mem s)))\<rparr>"
      using empty by (simp add: s'_def pop_step_def Let_def)
    have "map fst (taken_in s) = lefts (handled s)" using assms(2,3) empty by (simp add: conc_invs)
    then have "length (taken_in s) = length (lefts (handled s))" by (metis length_map)
    then have "\<not> urgent s'" by (simp add: urgent_def s')
    then have "wake_inv s'"
      by (intro wake_inv_step [OF assms(1)]) (simp_all add: s' trace_kept about_to_write_def assms(3))
    then show ?thesis by (simp add: s'_def)
  next
    case (item cs q)
    then show ?thesis
      by (intro wake_inv_step [OF assms(1)]) (simp_all add: pop_step_def about_to_write_def assms(3))
  qed
qed

lemma other_calls: "eventfd_step WaitCqe b = b" "eventfd_step (PublisherPut d) b = b"
  by (simp_all add: eventfd_step_def)

lemma drain_step_fields:
  "handled (drain_step n hash ord s) = handled s" "taken_in (drain_step n hash ord s) = taken_in s"
  "pcs (drain_step n hash ord s) = pcs s" "io_trace (mem (drain_step n hash ord s)) = io_trace (mem s)"
  "running (mem (drain_step n hash ord s)) = running (mem s)"
  by (simp_all add: drain_step_def Let_def split: sum.split option.split)

lemma loop_step_wake:
  assumes "wake_inv s" "conc_inv r0 s"
  shows "wake_inv (loop_step env s (loop s))"
proof (cases "loop s")
  case (LPop c n)
  then show ?thesis using pop_step_wake [OF assms] by simp
next
  case (LCall c n cs)
  show ?thesis
  proof (cases "dispatch_queued env cs (Inr (mem s, c, n))")
    case (Inr x)
    then obtain r c' n' where "dispatch_queued env cs (Inr (mem s, c, n)) = Inr (r, c', n')" by (cases x) auto
    with dispatch_queued_trace [OF this] LCall show ?thesis
      by (intro wake_inv_step [OF assms(1)]) (simp_all add: call_step_def about_to_write_def)
  qed (use LCall in \<open>intro wake_inv_step [OF assms(1)], simp_all add: call_step_def about_to_write_def\<close>)
next
  case (LFrame n ord f)
  obtain h d t where f: "f = (h, d, t)" by (cases f)
  show ?thesis
  proof (cases "dispatch_background env h d t (Inr (mem s, n))")
    case (Inr x)
    then obtain r n' where "dispatch_background env h d t (Inr (mem s, n)) = Inr (r, n')" by (cases x) auto
    with dispatch_background_trace [OF this] LFrame f show ?thesis
      by (intro wake_inv_step [OF assms(1)]) (simp_all add: frame_step_def about_to_write_def urgent_def)
  qed (use LFrame f in \<open>intro wake_inv_step [OF assms(1)], simp_all add: frame_step_def about_to_write_def urgent_def\<close>)
next
  case (LDrain n ord)
  then show ?thesis
    by (cases ord; intro wake_inv_step [OF assms(1)])
       (simp_all add: drain_step_fields about_to_write_def urgent_def trace_kept)
next
  case LTotals
  show ?thesis
  proof (cases "sync_background_drops env (mem s)")
    case (Inr r)
    with core_totals(3,4) [OF Inr] LTotals show ?thesis
      by (intro wake_inv_step [OF assms(1)]) (simp_all add: about_to_write_def urgent_def)
  qed (use LTotals in \<open>intro wake_inv_step [OF assms(1)], simp_all add: about_to_write_def urgent_def\<close>)
next
  case LWait
  then show ?thesis
    by (cases "wait_result env (io_trace (mem s))"; intro wake_inv_step [OF assms(1)])
       (simp_all add: wait_step_def io_def about_to_write_def other_calls urgent_def)
qed (use assms(1) in \<open>auto simp: wake_inv_def signalled_def about_to_write_def trace_kept split: if_splits\<close>)

lemma set_thread_fields [simp]:
  "mem (set_thread t pc s) = mem s" "loop (set_thread t pc s) = loop s" "handled (set_thread t pc s) = handled s"
  "taken_in (set_thread t pc s) = taken_in s" "pcs (set_thread t pc s) = (pcs s)(t := pc)"
  "urgent (set_thread t pc s) = urgent s"
  by (simp_all add: set_thread_def urgent_def)

text \<open>A step of a thread that is not about to write, or that has just written.\<close>

lemma about_to_write_other:
  assumes "about_to_write s" "\<And>t'. t' \<noteq> t \<Longrightarrow> pcs s' t' = pcs s t'" "\<forall>fd. pcs s t \<noteq> Waking fd"
  shows "about_to_write s'"
  using assms unfolding about_to_write_def by metis

lemma urgent_snoc:
  assumes "p \<noteq> CRITICAL" "(a, CRITICAL) \<in> set (drop k [(b, p)])"
  shows False
  using assms set_drop_subset [of k "[(b, p)]"] by auto

lemma send_step_wake:
  assumes "wake_inv s" "conc_inv r0 s" "pcs s t = Sending ctx smp" "subscribed r0 ctx"
  shows "wake_inv (send_step env t ctx smp s)"
proof -
  have ri: "reactor_inv (mem s)" and st: "same_setup r0 (mem s)" using assms(2) by (simp_all add: conc_invs)
  have sub: "subscribed (mem s) ctx" using assms(4) st by (simp add: subscribed_def ctx_ok_def same_setup_def)
  then have idx: "handler_index (mem s) (ctx_handler_hash ctx) \<noteq> None"
    using ri ctx_ok_index [of "mem s" ctx] by (simp add: reactor_inv_def subscribed_def)
  have other: "about_to_write s'" if "about_to_write s" "pcs s' = (pcs s)(t := pc)" for s' :: "'a conc" and pc
    using about_to_write_other [OF that(1), of t s'] that(2) assms(3) by simp
  show ?thesis
  proof (cases "ctx_priority ctx = BACKGROUND")
    case False
    from ri idx show ?thesis
    proof (cases rule: push_sample_cases [where env = env and buf = "z_payload smp"])
      case (accept r')
      define s' where "s' = send_step env t ctx smp s"
      have s': "s' = set_thread t (if ctx_priority ctx = CRITICAL then Waking (ctx_wakeup_fd ctx) else Outside)
          (s\<lparr>mem := r', taken_in := taken_in s @ [(new_sample env ctx (z_payload smp) (mem s), ctx_priority ctx)]\<rparr>)"
        using False accept(1) by (simp add: s'_def send_step_def)
      have "wake_inv s'"
      proof (cases "ctx_priority ctx = CRITICAL")
        case True
        then have "signalled s'" by (auto simp: s' signalled_def about_to_write_def)
        then show ?thesis by (simp add: wake_inv_def)
      next
        case no: False
        have "urgent s" if "urgent s'"
          using that no by (auto simp: urgent_def s' dest: urgent_snoc [rotated])
        then show ?thesis
          using other [of s'] accept(8,9) no
          by (intro wake_inv_step [OF assms(1)]) (auto simp: s')
      qed
      then show ?thesis by (simp add: s'_def)
    next
      case (reject r')
      define s' where "s' = send_step env t ctx smp s"
      have s': "s' = set_thread t Outside (s\<lparr>mem := spdlog (MpscFull (ctx_priority ctx) (dropped_count (critical_queue r'))) r',
                       turned_away := turned_away s + 1\<rparr>)"
        using False reject(1) by (simp add: s'_def send_step_def)
      then have "wake_inv s'"
        using other [of s'] reject(9,10)
        by (intro wake_inv_step [OF assms(1)]) (auto simp: s' frame_simps urgent_def)
      then show ?thesis by (simp add: s'_def)
    qed
  next
    case True
    obtain r' where r': "cache_sample env ctx (z_payload smp) (mem s) = Inr r'" "io_trace r' = io_trace (mem s)" "running r' = running (mem s)"
      by (rule cache_sample_effect [OF ri sub True])
    define s' where "s' = send_step env t ctx smp s"
    have s': "s' = set_thread t Outside (s\<lparr>mem := r', stored := (stored s)(ctx_handler_hash ctx := stored s (ctx_handler_hash ctx) + 1)\<rparr>)"
      using True r'(1) by (simp add: s'_def send_step_def)
    then have "wake_inv s'"
      using other [of s'] r'(2,3) by (intro wake_inv_step [OF assms(1)]) (auto simp: s' urgent_def)
    then show ?thesis by (simp add: s'_def)
  qed
qed

lemma thread_step_wake:
  assumes "wake_inv s" "conc_inv r0 s" "\<forall>ctx \<in> set (contexts r0). subscribed r0 ctx"
  shows "wake_inv (thread_step env t s (pcs s t))"
proof (cases "pcs s t")
  case (Tracking ctx smp)
  then show ?thesis
    using about_to_write_other [of s t "thread_step env t s (pcs s t)"]
    by (intro wake_inv_step [OF assms(1)]) (auto simp: trace_kept urgent_def)
next
  case (Sending ctx smp)
  then have "ctx \<in> set (contexts r0)" using assms(2) by (auto simp: conc_invs)
  then show ?thesis using Sending send_step_wake [OF assms(1,2) Sending] assms(3) by simp
next
  case (Waking fd)
  then show ?thesis
    by (intro wake_inv_step [OF assms(1)]) (auto simp: frame_simps urgent_def)
qed (use assms in simp)

lemma conc_step_wake:
  assumes "conc_step env s s'" "wake_inv s" "conc_inv r0 s" "\<forall>ctx \<in> set (contexts r0). subscribed r0 ctx" "0 \<le> wakeup_fd r0"
  shows "wake_inv s'"
  using assms(1)
proof cases
  case loop_moves
  then show ?thesis using loop_step_wake [OF assms(2,3)] by simp
next
  case (callback_enters t ctx smp)
  then show ?thesis
    using about_to_write_other [of s t s'] by (intro wake_inv_step [OF assms(2)]) auto
next
  case (thread_moves t)
  then show ?thesis using thread_step_wake [OF assms(2,3,4)] by simp
next
  case (stop_enters t)
  have "wakeup_fd (mem s) = wakeup_fd r0" using assms(3) by (simp add: conc_invs same_setup_def)
  then have "signalled s'" using assms(5) stop_enters(1) by (auto simp: stop_store_def signalled_def about_to_write_def)
  then show ?thesis by (simp add: wake_inv_def)
next
  case (liveliness_changes smp)
  then show ?thesis
    by (intro wake_inv_step [OF assms(2)])
       (auto simp: zenoh_liveliness_callback_def read_clock_def io_def spdlog_def about_to_write_def urgent_def other_calls)
next
  case (stats_reset r)
  then show ?thesis
    using core_reset [OF stats_reset(2)] by (intro wake_inv_step [OF assms(2)]) (auto simp: about_to_write_def urgent_def)
qed

lemma conc_reachable_wake:
  assumes "conc_reachable env r s" "reactor_inv r" "idle r" "env_ok env" "0 \<le> wakeup_fd r"
  shows "wake_inv s"
  using assms(1)
proof induction
  case conc_begin
  show ?case by (simp add: wake_inv_def conc_start_def)
next
  case (conc_next s s')
  then show ?case
    using conc_step_wake [of env s s' "run_start env r"] conc_reachable_inv [OF conc_next(1) assms(2-4)]
      run_start_spec(3) [OF assms(2)] run_start_idle(3) [OF assms(2)] assms(5) by simp
qed

text \<open>With room in the submission queue the poll is armed whenever the loop is about to wait.\<close>

fun armed_here :: "loop_pc \<Rightarrow> bool" where
  "armed_here LArm = False"
| "armed_here LDone = False"
| "armed_here pc = True"

definition poll_inv :: "'cb conc \<Rightarrow> bool" where
  "poll_inv s \<longleftrightarrow> (armed_here (loop s) \<longrightarrow> poll_armed (io_trace (mem s)))"

lemma push_sample_trace: "push_sample env ctx buf r = Inr (b, r') \<Longrightarrow> io_trace r' = io_trace r"
  by (auto simp: push_sample_def read_clock_def Let_def split: sum.splits)

lemma cache_sample_trace: "cache_sample env ctx buf r = Inr r' \<Longrightarrow> io_trace r' = io_trace r"
  by (auto simp: cache_sample_def read_clock_def split: sum.splits option.splits)

lemma send_step_trace:
  "io_trace (mem (send_step env t ctx smp s)) = io_trace (mem s)" "loop (send_step env t ctx smp s) = loop s"
  by (auto simp: send_step_def Let_def frame_simps dest: push_sample_trace cache_sample_trace split: sum.split bool.split)

lemma thread_step_poll:
  "poll_armed (io_trace (mem (thread_step env t s (pcs s t)))) = poll_armed (io_trace (mem s))"
  "loop (thread_step env t s (pcs s t)) = loop s"
  by (cases "pcs s t"; simp add: send_step_trace trace_kept frame_simps)+

lemma loop_step_poll:
  assumes "poll_inv s" "sqe_available env = (\<lambda>tr. True)"
  shows "poll_inv (loop_step env s (loop s))"
proof (cases "loop s")
  case (LPop c n)
  then show ?thesis
    using assms(1) by (auto simp: poll_inv_def pop_step_def Let_def trace_kept split: sum.split option.split)
next
  case (LCall c n cs)
  then show ?thesis
    using assms(1) by (auto simp: poll_inv_def call_step_def dest: dispatch_queued_trace split: sum.split)
next
  case (LFrame n ord f)
  then show ?thesis
    using assms(1) by (auto simp: poll_inv_def frame_step_def dest: dispatch_background_trace split: sum.split prod.split)
next
  case (LDrain n ord)
  then show ?thesis
    using assms(1) by (cases ord) (auto simp: poll_inv_def drain_step_fields trace_kept)
next
  case LTotals
  then show ?thesis
    using assms(1) by (auto simp: poll_inv_def dest: core_totals(3) split: sum.split)
next
  case LWait
  then show ?thesis
    using assms(1) by (auto simp: poll_inv_def wait_step_def io_def split: prod.split)
next
  case LArm
  then show ?thesis
    using assms by (simp add: poll_inv_def arm_poll_eventfd_def Let_def)
qed (use assms(1) in \<open>auto simp: poll_inv_def trace_kept\<close>)

lemma conc_reachable_poll:
  assumes "conc_reachable env r s" "sqe_available env = (\<lambda>tr. True)"
  shows "poll_inv s"
  using assms(1)
proof induction
  case conc_begin
  show ?case using run_start_armed [OF assms(2)] by (simp add: poll_inv_def conc_start_def)
next
  case (conc_next s s')
  from conc_next(2) show ?case
  proof cases
    case loop_moves
    then show ?thesis using loop_step_poll [OF conc_next(3) assms(2)] by simp
  next
    case (thread_moves t)
    then show ?thesis using conc_next(3) thread_step_poll [of env t s] by (simp add: poll_inv_def)
  next
    case (stats_reset x)
    then show ?thesis using conc_next(3) core_reset by (fastforce simp: poll_inv_def)
  qed (use conc_next(3) in \<open>auto simp: poll_inv_def stop_store_def zenoh_liveliness_callback_def read_clock_def io_def spdlog_def\<close>)
qed

text \<open>No operation of the loop or of a callback writes the flag.\<close>

lemma loop_step_running: "running (mem (loop_step env s (loop s))) = running (mem s)"
proof (cases "loop s")
  case (LDrain n ord)
  then show ?thesis
    by (cases ord) (auto simp: drain_step_def Let_def trace_kept split: sum.split option.split)
next
  case LTotals
  then show ?thesis using core_totals(4) by (auto split: sum.split)
qed (auto simp: pop_step_def call_step_def frame_step_def wait_step_def arm_poll_eventfd_def Let_def trace_kept io_def spdlog_def
       simp del: dispatch_queued.simps dispatch_background.simps dest: dispatch_queued_trace dispatch_background_trace split: sum.split option.split prod.split)

lemma push_sample_running: "push_sample env ctx buf r = Inr (b, r') \<Longrightarrow> running r' = running r"
  by (auto simp: push_sample_def read_clock_def Let_def split: sum.splits)

lemma cache_sample_running: "cache_sample env ctx buf r = Inr r' \<Longrightarrow> running r' = running r"
  by (auto simp: cache_sample_def read_clock_def split: sum.splits option.splits)

lemma thread_step_running: "running (mem (thread_step env t s pc)) = running (mem s)"
  by (cases pc)
     (auto simp: send_step_def Let_def spdlog_def trace_kept io_def dest: push_sample_running cache_sample_running
        split: sum.split bool.split)

lemma stop_store_fields [simp]: "loop (stop_store t s) = loop s" "running (mem (stop_store t s)) = False"
  by (simp_all add: stop_store_def)

lemma thread_step_loop [simp]: "loop (thread_step env t s (pcs s t)) = loop s"
  by (rule thread_step_poll(2))

subsection \<open>The loop on its own\<close>

definition loop_only :: "env \<Rightarrow> 'cb conc \<Rightarrow> 'cb conc \<Rightarrow> bool" where
  "loop_only env s s' \<longleftrightarrow> loop s \<noteq> LDone \<and> s' = loop_step env s (loop s)"

lemma loop_only_conc: "loop_only env s s' \<Longrightarrow> conc_step env s s'"
  by (auto simp: loop_only_def intro: loop_moves)

lemma loop_path_step:
  "loop s \<noteq> LDone \<Longrightarrow> (loop_only env)\<^sup>*\<^sup>* (loop_step env s (loop s)) s' \<Longrightarrow> (loop_only env)\<^sup>*\<^sup>* s s'"
  by (rule converse_rtranclp_into_rtranclp [of "loop_only env" s]) (simp_all add: loop_only_def)

text \<open>A call does not look at the queue, a BACKGROUND call not at the cache.\<close>

lemma record_latency_frame:
  "record_latency prio lat (r\<lparr>critical_queue := q\<rparr>) = (record_latency prio lat r)\<lparr>critical_queue := q\<rparr>"
  "record_latency prio lat (r\<lparr>background_cache := c\<rparr>) = (record_latency prio lat r)\<lparr>background_cache := c\<rparr>"
  by (cases prio; rule reactor.equality; simp add: record_latency_def)+

lemma invoke_frame:
  "invoke h d (r\<lparr>critical_queue := q\<rparr>) = (invoke h d r)\<lparr>critical_queue := q\<rparr>"
  "invoke h d (r\<lparr>background_cache := c\<rparr>) = (invoke h d r)\<lparr>background_cache := c\<rparr>"
  by (rule reactor.equality; simp add: invoke_def)+

lemma read_clock_frame:
  "read_clock env (r\<lparr>critical_queue := q\<rparr>) = (fst (read_clock env r), (snd (read_clock env r))\<lparr>critical_queue := q\<rparr>)"
  "read_clock env (r\<lparr>background_cache := c\<rparr>) = (fst (read_clock env r), (snd (read_clock env r))\<lparr>background_cache := c\<rparr>)"
  by (simp_all add: read_clock_def)

lemmas frame_ops = record_latency_frame invoke_frame read_clock_frame

lemma dispatch_queued_frame:
  assumes "dispatch_queued env cs (Inr (r, c, n)) = Inr (r', c', n')"
  shows "dispatch_queued env cs (Inr (r\<lparr>critical_queue := q\<rparr>, c, n)) = Inr (r'\<lparr>critical_queue := q\<rparr>, c', n')"
  using assms
  by (cases "handler_index r (cs_handler_hash cs)") (auto simp: dispatch_queued.simps frame_ops Let_def split_beta split: if_splits)

lemma dispatch_background_frame:
  assumes "dispatch_background env h d t (Inr (r, n)) = Inr (r', n')"
  shows "dispatch_background env h d t (Inr (r\<lparr>background_cache := c\<rparr>, n)) = Inr (r'\<lparr>background_cache := c\<rparr>, n')"
  using assms
  by (cases "handler_index r h") (auto simp: dispatch_background.simps frame_ops Let_def split_beta split: if_splits)

lemma call_step_ok:
  assumes "conc_inv r0 s" "loop s = LCall c n cs"
  obtains r' c' n' where "dispatch_queued env cs (Inr (mem s, c, n)) = Inr (r', c', n')"
proof -
  have ri: "reactor_inv (mem s)" using assms(1) by (simp add: conc_invs)
  then have "handlers_inv (mem s)" "windows_inv (mem s)" by (simp_all add: reactor_inv_def)
  moreover have "handler_index (mem s) (cs_handler_hash cs) \<noteq> None"
    using assms by (simp add: conc_invs same_setup_def)
  ultimately show thesis by (rule dispatch_queued_step) (rule that)
qed

lemma frame_step_ok:
  assumes "conc_inv r0 s" "loop s = LFrame n ord (h, d, t)"
  obtains r' n' where "dispatch_background env h d t (Inr (mem s, n)) = Inr (r', n')"
proof -
  have ri: "reactor_inv (mem s)" using assms(1) by (simp add: conc_invs)
  then have "handlers_inv (mem s)" "windows_inv (mem s)" by (simp_all add: reactor_inv_def)
  moreover have "handler_index (mem s) h \<noteq> None"
    using assms by (simp add: conc_invs same_setup_def)
  ultimately show thesis by (rule dispatch_background_step) (rule that)
qed

text \<open>
  The loop over the queue, undisturbed, is the recursion of the sequential model. There
  the queue is a value apart from the rest of the reactor \<open>r\<close>.
\<close>

lemma queue_loop_path:
  assumes "conc_inv r0 s" "loop s = LPop c n" "mem s = r\<lparr>critical_queue := q\<rparr>" "env_ok env"
  shows "\<exists>s' q' r' c' n'. (loop_only env)\<^sup>*\<^sup>* s s' \<and>
     drain_loop pop (dispatch_queued env) q (Inr (r, c, n)) = Some (Inr (q', Inr (r', c', n'))) \<and>
     mem s' = finish_queue c' n' (r'\<lparr>critical_queue := q'\<rparr>) \<and> queue_list q' = [] \<and>
     loop s' = LDrain 0 (slot_order env (background_cache (mem s'))) \<and> conc_inv r0 s' \<and>
     pcs s' = pcs s \<and> taken_in s' = taken_in s"
  using assms
proof (induction "length (queue_list q)" arbitrary: s r q c n rule: less_induct)
  case less
  have q: "critical_queue (mem s) = q" using less.prems(3) by simp
  have "queue_inv (mem s)" using less.prems(1) by (simp add: conc_invs reactor_inv_def)
  then show ?case
  proof (cases rule: mpsc_pop_cases)
    case empty
    define s' where "s' = pop_step env c n s"
    have s': "s' = s\<lparr>mem := finish_queue c n (mem s), loop := LDrain 0 (slot_order env (background_cache (mem s)))\<rparr>"
      using empty by (simp add: s'_def pop_step_def Let_def)
    have "(loop_only env)\<^sup>*\<^sup>* s s'"
      by (rule loop_path_step [rotated]) (use less.prems(2) in \<open>simp_all add: s'_def\<close>)
    moreover have "conc_inv r0 s'" using pop_step_inv [OF less.prems(1,2)] by (simp add: s'_def)
    moreover have "drain_loop pop (dispatch_queued env) q (Inr (r, c, n)) = Some (Inr (q, Inr (r, c, n)))"
      using empty(1) unfolding q by (subst drain_loop.simps) simp
    moreover have "background_cache (finish_queue c n (mem s)) = background_cache (mem s)"
      using core_finish(1) [of "mem s" c n] by (simp add: same_core_def)
    ultimately show ?thesis using empty(2) less.prems(3) s' by (intro exI [of _ s']) auto
  next
    case (item cs q1)
    define s1 where "s1 = pop_step env c n s"
    have s1: "s1 = s\<lparr>mem := r\<lparr>critical_queue := q1\<rparr>, loop := LCall c n cs\<rparr>"
      using item(1) less.prems(3) by (simp add: s1_def pop_step_def Let_def)
    have inv1: "conc_inv r0 s1" using pop_step_inv [OF less.prems(1,2)] by (simp add: s1_def)
    have "loop s1 = LCall c n cs" by (simp add: s1)
    from call_step_ok [OF inv1 this, of env] obtain r2 c2 n2 where
      d: "dispatch_queued env cs (Inr (mem s1, c, n)) = Inr (r2, c2, n2)" .
    define s2 where "s2 = call_step env c n cs s1"
    obtain r3 where d3: "dispatch_queued env cs (Inr (r, c, n)) = Inr (r3, c2, n2)" "r2 = r3\<lparr>critical_queue := q1\<rparr>"
    proof -
      have "dispatch_queued env cs (Inr ((mem s1)\<lparr>critical_queue := critical_queue r\<rparr>, c, n)) = Inr (r2\<lparr>critical_queue := critical_queue r\<rparr>, c2, n2)"
        by (rule dispatch_queued_frame [OF d])
      moreover have "(mem s1)\<lparr>critical_queue := critical_queue r\<rparr> = r" by (simp add: s1)
      ultimately have a: "dispatch_queued env cs (Inr (r, c, n)) = Inr (r2\<lparr>critical_queue := critical_queue r\<rparr>, c2, n2)" by simp
      have "dispatch_queued env cs (Inr (r\<lparr>critical_queue := q1\<rparr>, c, n)) = Inr (r2\<lparr>critical_queue := critical_queue r, critical_queue := q1\<rparr>, c2, n2)"
        by (rule dispatch_queued_frame [OF a])
      then have "r2 = r2\<lparr>critical_queue := critical_queue r, critical_queue := q1\<rparr>" using d by (simp add: s1)
      with a that [of "r2\<lparr>critical_queue := critical_queue r\<rparr>"] show thesis by blast
    qed
    have s2: "s2 = s1\<lparr>mem := r3\<lparr>critical_queue := q1\<rparr>, loop := LPop c2 n2, handled := handled s1 @ [Inl cs]\<rparr>"
      using d d3(2) by (simp add: s2_def call_step_def)
    have inv2: "conc_inv r0 s2" using call_step_inv [OF inv1, of c n cs env] by (simp add: s2_def s1)
    have "length (queue_list q1) < length (queue_list q)" using item(2) unfolding q by (simp del: length_queue_list)
    from less.hyps [OF this inv2 _ _ less.prems(4), of c2 n2 r3] obtain s' q' r' c' n' where
      ih: "(loop_only env)\<^sup>*\<^sup>* s2 s'"
        "drain_loop pop (dispatch_queued env) q1 (Inr (r3, c2, n2)) = Some (Inr (q', Inr (r', c', n')))"
        "mem s' = finish_queue c' n' (r'\<lparr>critical_queue := q'\<rparr>)" "queue_list q' = []"
        "loop s' = LDrain 0 (slot_order env (background_cache (mem s')))" "conc_inv r0 s'"
        "pcs s' = pcs s2" "taken_in s' = taken_in s2"
      by (auto simp: s2)
    have p1: "(loop_only env)\<^sup>*\<^sup>* s1 s'"
      by (rule loop_path_step [rotated]) (use ih(1) in \<open>simp_all add: s1 s2_def\<close>)
    have "(loop_only env)\<^sup>*\<^sup>* s s'"
      by (rule loop_path_step [rotated]) (use less.prems(2) p1 in \<open>simp_all add: s1_def\<close>)
    moreover have "drain_loop pop (dispatch_queued env) q (Inr (r, c, n)) = Some (Inr (q', Inr (r', c', n')))"
      using item(1) ih(2) d3(1) unfolding q by (subst drain_loop.simps) simp
    ultimately show ?thesis using ih(3-8) by (intro exI [of _ s']) (auto simp: s1 s2)
  qed
qed

lemma drain_take_slot:
  "drain (h # ord) consumer c st =
     (case take_slot h c of
        Inl e \<Rightarrow> Inl e
      | Inr (None, c') \<Rightarrow> drain ord consumer c' st
      | Inr (Some (k, d, t), c') \<Rightarrow> drain ord consumer c' (consumer k d t st))"
  by (simp add: take_slot_def split: option.split sum.split prod.split)

lemma slot_loop_path:
  assumes "conc_inv r0 s" "loop s = LDrain n ord" "mem s = r\<lparr>background_cache := c\<rparr>" "env_ok env"
  shows "\<exists>s' c' r' n'. (loop_only env)\<^sup>*\<^sup>* s s' \<and>
     drain ord (dispatch_background env) c (Inr (r, n)) = Inr (c', Inr (r', n')) \<and>
     mem s' = count_background n' (r'\<lparr>background_cache := c'\<rparr>) \<and>
     loop s' = LTotals \<and> conc_inv r0 s' \<and> pcs s' = pcs s \<and> taken_in s' = taken_in s"
  using assms
proof (induction ord arbitrary: s r c n)
  case Nil
  define s' where "s' = loop_step env s (loop s)"
  have s': "s' = s\<lparr>mem := count_background n (r\<lparr>background_cache := c\<rparr>), loop := LTotals\<rparr>"
    using Nil.prems(2,3) by (simp add: s'_def)
  have "(loop_only env)\<^sup>*\<^sup>* s s'" by (rule loop_path_step [rotated]) (use Nil.prems(2) in \<open>simp_all add: s'_def\<close>)
  moreover have "conc_inv r0 s'" using loop_step_inv [OF Nil.prems(1,4)] by (simp add: s'_def)
  ultimately show ?case by (intro exI [of _ s'] exI [of _ c] exI [of _ r] exI [of _ n]) (simp add: s')
next
  case (Cons h ord)
  define s1 where "s1 = drain_step n h ord s"
  have first: "(loop_only env)\<^sup>*\<^sup>* s s'" if "(loop_only env)\<^sup>*\<^sup>* s1 s'" for s'
    by (rule loop_path_step [rotated]) (use Cons.prems(2) that in \<open>simp_all add: s1_def\<close>)
  have inv1: "conc_inv r0 s1" using drain_step_inv [OF Cons.prems(1,2)] by (simp add: s1_def)
  have bc: "background_cache (mem s) = c" using Cons.prems(3) by simp
  obtain x c1 where t: "take_slot h c = Inr (x, c1)"
  proof -
    have "cache_inv c" using Cons.prems(1) bc by (auto simp: conc_invs reactor_inv_def frames_inv_def)
    then show thesis by (cases rule: take_slot_cases [where h = h]) (auto intro: that)
  qed
  show ?case
  proof (cases x)
    case None
    have s1: "s1 = s\<lparr>mem := r\<lparr>background_cache := c1\<rparr>, loop := LDrain n ord\<rparr>"
      using t None Cons.prems(3) by (simp add: s1_def drain_step_def Let_def)
    from Cons.IH [OF inv1 _ _ Cons.prems(4), of n c1 r] obtain s' c' r' n' where
      "(loop_only env)\<^sup>*\<^sup>* s1 s'" "drain ord (dispatch_background env) c1 (Inr (r, n)) = Inr (c', Inr (r', n'))"
      "mem s' = count_background n' (r'\<lparr>background_cache := c'\<rparr>)" "loop s' = LTotals" "conc_inv r0 s'" "pcs s' = pcs s" "taken_in s' = taken_in s"
      by (auto simp: s1)
    then show ?thesis using first t None by (intro exI [of _ s']) (simp add: drain_take_slot del: drain.simps)
  next
    case (Some f)
    obtain k d u where f: "f = (k, d, u)" by (cases f)
    have s1: "s1 = s\<lparr>mem := r\<lparr>background_cache := c1\<rparr>, loop := LFrame n ord f\<rparr>"
      using t Some Cons.prems(3) by (simp add: s1_def drain_step_def Let_def)
    have "loop s1 = LFrame n ord (k, d, u)" by (simp add: s1 f)
    from frame_step_ok [OF inv1 this, of env] obtain r2 n2 where
      d2: "dispatch_background env k d u (Inr (mem s1, n)) = Inr (r2, n2)" .
    have "dispatch_background env k d u (Inr ((mem s1)\<lparr>background_cache := background_cache r\<rparr>, n)) = Inr (r2\<lparr>background_cache := background_cache r\<rparr>, n2)"
      by (rule dispatch_background_frame [OF d2])
    then have d3: "dispatch_background env k d u (Inr (r, n)) = Inr (r2\<lparr>background_cache := background_cache r\<rparr>, n2)" by (simp add: s1)
    define r3 where "r3 = r2\<lparr>background_cache := background_cache r\<rparr>"
    have "r2 = r3\<lparr>background_cache := c1\<rparr>"
      using dispatch_background_frame [OF d3, of c1] d2 by (simp add: s1 r3_def)
    define s2 where "s2 = frame_step env n ord f s1"
    have s2: "s2 = s1\<lparr>mem := r3\<lparr>background_cache := c1\<rparr>, loop := LDrain n2 ord, handled := handled s1 @ [Inr f]\<rparr>"
      using d2 \<open>r2 = _\<close> by (simp add: s2_def frame_step_def f)
    have inv2: "conc_inv r0 s2" using frame_step_inv [OF inv1, of n ord f env] by (simp add: s2_def s1)
    from Cons.IH [OF inv2 _ _ Cons.prems(4), of n2 c1 r3] obtain s' c' r' n' where
      ih: "(loop_only env)\<^sup>*\<^sup>* s2 s'" "drain ord (dispatch_background env) c1 (Inr (r3, n2)) = Inr (c', Inr (r', n'))"
      "mem s' = count_background n' (r'\<lparr>background_cache := c'\<rparr>)" "loop s' = LTotals" "conc_inv r0 s'" "pcs s' = pcs s" "taken_in s' = taken_in s"
      by (auto simp: s2 s1)
    have "(loop_only env)\<^sup>*\<^sup>* s1 s'"
      by (rule loop_path_step [rotated]) (use ih(1) in \<open>simp_all add: s1 s2_def\<close>)
    then show ?thesis
      using first t Some ih d3 by (intro exI [of _ s']) (simp add: drain_take_slot f r3_def del: drain.simps)
  qed
qed

lemma wait_path:
  fixes s :: "'cb conc"
  assumes "loop s = LWait"
  shows "\<exists>s'. (loop_only env)\<^sup>*\<^sup>* s s' \<and> mem s' = wait_events env (mem s) \<and> loop s' = LCheck \<and> pcs s' = pcs s \<and> taken_in s' = taken_in s \<and>
     handled s' = handled s"
proof -
  obtain ret ud where w: "wait_result env (io_trace (mem s)) = (ret, ud)" by fastforce
  define f :: "'cb conc \<Rightarrow> 'cb conc" where "f x = loop_step env x (loop x)" for x
  have path: "(loop_only env)\<^sup>*\<^sup>* x (f x)" if "loop x \<noteq> LDone" for x
    by (rule loop_path_step [OF that]) (simp add: f_def)
  consider "ret \<noteq> 0" | "ret = 0" "ud = 1" | "ret = 0" "ud \<noteq> 1" by blast
  then show ?thesis
  proof cases
    case 1
    then show ?thesis
      using path [of s] assms w by (intro exI [of _ "f s"]) (simp add: f_def wait_step_def wait_events_def Let_def)
  next
    case 2
    then have pc: "loop s \<noteq> LDone" "loop (f s) \<noteq> LDone" "loop (f (f s)) \<noteq> LDone" "loop (f (f (f s))) \<noteq> LDone"
      using assms w by (simp_all add: f_def wait_step_def)
    have "(loop_only env)\<^sup>*\<^sup>* s (f (f (f (f s))))"
      by (rule rtranclp_trans [OF path [OF pc(1)] rtranclp_trans [OF path [OF pc(2)] rtranclp_trans [OF path [OF pc(3)] path [OF pc(4)]]]])
    then show ?thesis
      using assms w 2 by (intro exI [of _ "f (f (f (f s)))"]) (simp add: f_def wait_step_def wait_events_def Let_def)
  next
    case 3
    then have pc: "loop s \<noteq> LDone" "loop (f s) \<noteq> LDone" "loop (f (f s)) \<noteq> LDone"
      using assms w by (simp_all add: f_def wait_step_def)
    have "(loop_only env)\<^sup>*\<^sup>* s (f (f (f s)))"
      by (rule rtranclp_trans [OF path [OF pc(1)] rtranclp_trans [OF path [OF pc(2)] path [OF pc(3)]]])
    then show ?thesis
      using assms w 3 by (intro exI [of _ "f (f (f s))"]) (simp add: f_def wait_step_def wait_events_def Let_def)
  qed
qed

lemma loop_path_inv:
  assumes "(loop_only env)\<^sup>*\<^sup>* s s'" "conc_inv r0 s" "env_ok env"
  shows "conc_inv r0 s'"
  using assms
proof (induction rule: rtranclp_induct)
  case (step x y)
  then show ?case using loop_step_inv [of r0 x env] by (simp add: loop_only_def)
qed

lemma loop_path_reachable: "(loop_only env)\<^sup>*\<^sup>* s s' \<Longrightarrow> conc_reachable env r s \<Longrightarrow> conc_reachable env r s'"
  by (induction rule: rtranclp_induct) (auto intro: conc_next dest: loop_only_conc)

text \<open>From the test of the flag to the wait.\<close>

lemma queue_path:
  assumes "conc_inv r0 s" "loop s = LSync" "env_ok env"
  obtains s' where "(loop_only env)\<^sup>*\<^sup>* s s'" "drain_queue env (sync_queue_drops (mem s)) = Some (Inr (mem s'))"
    "loop s' = LDrain 0 (slot_order env (background_cache (mem s')))" "conc_inv r0 s'" "pcs s' = pcs s" "taken_in s' = taken_in s"
    "lefts (handled s') = map fst (taken_in s)"
proof -
  define s1 where "s1 = loop_step env s (loop s)"
  have s1: "s1 = s\<lparr>mem := sync_queue_drops (mem s), loop := LPop 0 0\<rparr>" using assms(2) by (simp add: s1_def)
  have inv1: "conc_inv r0 s1" using loop_step_inv [OF assms(1,3)] by (simp add: s1_def)
  obtain s' q' r' c' n' where p: "(loop_only env)\<^sup>*\<^sup>* s1 s'"
     "drain_loop pop (dispatch_queued env) (critical_queue (sync_queue_drops (mem s))) (Inr (sync_queue_drops (mem s), 0, 0)) = Some (Inr (q', Inr (r', c', n')))"
     "mem s' = finish_queue c' n' (r'\<lparr>critical_queue := q'\<rparr>)" "queue_list q' = []"
     "loop s' = LDrain 0 (slot_order env (background_cache (mem s')))" "conc_inv r0 s'" "pcs s' = pcs s1" "taken_in s' = taken_in s1"
    using queue_loop_path [OF inv1, of 0 0 "critical_queue (sync_queue_drops (mem s))" "sync_queue_drops (mem s)" env] assms(3)
    by (auto simp: s1)
  have "(loop_only env)\<^sup>*\<^sup>* s s'" by (rule loop_path_step [rotated]) (use p(1) assms(2) in \<open>simp_all add: s1_def\<close>)
  moreover have "critical_queue (mem s') = q'" using core_finish(1) [of "r'\<lparr>critical_queue := q'\<rparr>" c' n'] p(3) by (simp add: same_core_def)
  then have "map fst (taken_in s') = lefts (handled s')" using p(4,5,6) by (simp add: conc_invs)
  ultimately show thesis using p by (intro that [of s']) (simp_all add: drain_queue_def s1)
qed

lemma background_path:
  assumes "conc_inv r0 s" "loop s = LDrain 0 (slot_order env (background_cache (mem s)))" "env_ok env"
  obtains s' where "(loop_only env)\<^sup>*\<^sup>* s s'" "drain_background env (mem s) = Inr (mem s')"
    "loop s' = LWait" "conc_inv r0 s'" "pcs s' = pcs s" "taken_in s' = taken_in s"
proof -
  obtain s1 c' r' n' where p: "(loop_only env)\<^sup>*\<^sup>* s s1"
     "drain (slot_order env (background_cache (mem s))) (dispatch_background env) (background_cache (mem s)) (Inr (mem s, 0)) = Inr (c', Inr (r', n'))"
     "mem s1 = count_background n' (r'\<lparr>background_cache := c'\<rparr>)" "loop s1 = LTotals" "conc_inv r0 s1" "pcs s1 = pcs s" "taken_in s1 = taken_in s"
    using slot_loop_path [OF assms(1,2), of "background_cache (mem s)" "mem s" env] assms(3) by auto
  define s2 where "s2 = loop_step env s1 (loop s1)"
  have inv2: "conc_inv r0 s2" using loop_step_inv [OF p(5) assms(3)] by (simp add: s2_def)
  obtain r2 where r2: "sync_background_drops env (mem s1) = Inr r2"
  proof (cases "sync_background_drops env (mem s1)")
    case (Inl e)
    then have "conc_fault s2 = Some e" using p(4) by (simp add: s2_def)
    then show ?thesis using inv2 by (simp add: conc_invs)
  qed (rule that)
  have s2: "s2 = s1\<lparr>mem := r2, loop := LWait\<rparr>" using p(4) r2 by (simp add: s2_def)
  have "(loop_only env)\<^sup>*\<^sup>* s1 s2" by (rule loop_path_step [rotated]) (use p(4) in \<open>simp_all add: s2_def\<close>)
  with p(1) have "(loop_only env)\<^sup>*\<^sup>* s s2" by (rule rtranclp_trans)
  moreover have "drain_background env (mem s) = Inr r2" using p(2,3) r2 by (simp add: drain_background_def)
  ultimately show thesis using inv2 p(6,7) by (intro that [of s2]) (simp_all add: s2)
qed

subsection \<open>Properties\<close>

text \<open>
  C2. Under every interleaving of the loop with receive callbacks, stops, liveliness changes
  and resets no step faults, the reactor's invariant holds between any two steps, the
  handlers' calls are those of the samples and frames handled, in that order, and the
  samples handled so far, the one in hand and those still queued are exactly the samples the
  queue took, in the order it took them; every other one is counted as dropped. At most one
  sample is in hand and at most 511 are queued.
\<close>

theorem concurrent_calls_in_order:
  assumes "reactor_inv r" "idle r" "env_ok env" "conc_reachable env r s"
  shows "conc_fault s = None \<and> reactor_inv (mem s) \<and>
     map fst (taken_in s) = lefts (handled s) @ in_hand (loop s) @ queue_list (critical_queue (mem s)) \<and>
     length (in_hand (loop s)) \<le> 1 \<and> length (queue_list (critical_queue (mem s))) \<le> 511 \<and>
     dropped (critical_queue (mem s)) = dropped (critical_queue r) + of_nat (turned_away s) \<and>
     calls (mem s) = calls r @ map (handled_call (mem s)) (handled s)"
proof -
  have inv: "conc_inv (run_start env r) s" by (rule conc_reachable_inv [OF assms(4,1,2,3)])
  then have st: "same_setup (run_start env r) (mem s)" by (simp add: conc_invs)
  have same: "handled_call (mem s) = handled_call (run_start env r)"
    by (intro ext) (simp only: handled_call_def setup_targets(2,3) [OF st])
  have one: "length (in_hand (loop s)) \<le> 1" by (cases "loop s") simp_all
  have "queue_inv (mem s)" using inv by (simp add: conc_invs reactor_inv_def)
  then have room: "length (queue_list (critical_queue (mem s))) \<le> 511"
    using mq.bounded [of "critical_queue (mem s)"] by (simp add: queue_inv_def ring_size_def)
  show ?thesis using inv run_start_idle [OF assms(1), of env] same one room by (simp add: conc_invs del: length_queue_list)
qed

lemma background_slots:
  assumes "reactor_inv r" "h \<in> set (handlers r)" "priority h = BACKGROUND"
  shows "get_slot_fast (path_hash h) (background_cache (run_start env r)) \<noteq> None"
proof -
  have "cache_inv (background_cache r)" using assms(1) by (simp add: reactor_inv_def frames_inv_def)
  from pre_allocate_all_spec [OF this, of "handlers r" "path_hash h"] run_start_shape [of env r] assms(2,3)
  show ?thesis by (auto simp: get_slot_fast_def)
qed

lemma two_topics_idle: "idle two_topics"
  by (simp add: idle_def two_topics_fields waiting_def)

text \<open>A state with the loop at its first wait and nobody else inside.\<close>

lemma reach_wait:
  assumes "reactor_inv r" "idle r" "env_ok env"
  obtains s where "conc_reachable env r s" "loop s = LWait" "pcs s = (\<lambda>t. Outside)" "wakeup_fd (mem s) = wakeup_fd r"
proof -
  let ?s0 = "conc_start env r" and ?r0 = "run_start env r"
  define s1 where "s1 = loop_step env ?s0 (loop ?s0)"
  have s1: "s1 = ?s0\<lparr>loop := LSync\<rparr>" using run_start_spec(2) [OF assms(1)] by (simp add: s1_def conc_start_def)
  have "conc_step env ?s0 s1" unfolding s1_def by (rule loop_moves) (simp add: conc_start_def)
  then have r1: "conc_reachable env r s1" by (rule conc_next [OF conc_begin])
  have inv1: "conc_inv ?r0 s1" by (rule conc_reachable_inv [OF r1 assms])
  have "loop s1 = LSync" by (simp add: s1)
  from queue_path [OF inv1 this assms(3)] obtain s2 where p2: "(loop_only env)\<^sup>*\<^sup>* s1 s2"
    "loop s2 = LDrain 0 (slot_order env (background_cache (mem s2)))" "conc_inv ?r0 s2" "pcs s2 = pcs s1" by blast
  from background_path [OF p2(3,2) assms(3)] obtain s3 where p3: "(loop_only env)\<^sup>*\<^sup>* s2 s3" "loop s3 = LWait"
    "conc_inv ?r0 s3" "pcs s3 = pcs s2" by blast
  have "conc_reachable env r s3" using loop_path_reachable [OF p3(1) loop_path_reachable [OF p2(1) r1]] .
  moreover have "pcs s3 = (\<lambda>t. Outside)" using p2(4) p3(4) by (simp add: s1 conc_start_def)
  moreover have "wakeup_fd (mem s3) = wakeup_fd r" using p3(3) run_start_idle(3) [OF assms(1), of env] by (simp add: conc_invs same_setup_def)
  ultimately show thesis using that p3(2) by blast
qed

text \<open>A CRITICAL sample has been received and waits in the queue.\<close>

theorem concurrent_calls_in_order_witness:
  "\<exists>s cs. conc_reachable waking_env two_topics s \<and> map fst (taken_in s) = [cs] \<and> handled s = [] \<and>
     lefts (handled s) @ in_hand (loop s) @ queue_list (critical_queue (mem s)) = [cs] \<and> calls (mem s) = []"
proof -
  let ?ctx = "\<lparr>ctx_handler_hash = fnv1a_hash ''a'', ctx_priority = CRITICAL, ctx_wakeup_fd = 5\<rparr>"
  let ?smp = "\<lparr>z_keyexpr = ''a'', z_payload = [1], z_delete = False\<rparr>"
  define s0 where "s0 = conc_start waking_env two_topics"
  define s1 where "s1 = set_thread 2 (Tracking ?ctx ?smp) s0"
  define s2 where "s2 = thread_step waking_env 2 s1 (pcs s1 2)"
  define s3 where "s3 = thread_step waking_env 2 s2 (pcs s2 2)"
  have "?ctx \<in> set (contexts (mem s0))"
    by (simp add: s0_def conc_start_def two_topics_def register_handler_def reactor_new_def Let_def run_start_def subscribe_def
        subscribe_liveliness_def arm_poll_eventfd_def pre_allocate_handlers_def io_def spdlog_def waking_env_def sample_env_def)
  then have "conc_step waking_env s0 s1"
    unfolding s1_def by (rule callback_enters [rotated]) (simp_all add: s0_def conc_start_def admissible_def waking_env_def sample_env_def)
  then have r1: "conc_reachable waking_env two_topics s1" unfolding s0_def by (rule conc_next [OF conc_begin])
  have p1: "pcs s1 2 = Tracking ?ctx ?smp" by (simp add: s1_def)
  have "conc_step waking_env s1 s2" unfolding s2_def by (rule thread_moves) (simp add: p1)
  then have r2: "conc_reachable waking_env two_topics s2" by (rule conc_next [OF r1])
  have p2: "pcs s2 2 = Sending ?ctx ?smp" "taken_in s2 = []" "handled s2 = []" "loop s2 = LCheck"
    by (simp_all add: s2_def p1 s1_def s0_def conc_start_def)
  have "conc_step waking_env s2 s3" unfolding s3_def by (rule thread_moves) (simp add: p2)
  then have r3: "conc_reachable waking_env two_topics s3" by (rule conc_next [OF r2])
  note c2 = concurrent_calls_in_order [OF two_topics_inv two_topics_idle waking_env_ok(1) r2]
  note c3 = concurrent_calls_in_order [OF two_topics_inv two_topics_idle waking_env_ok(1) r3]
  have empty: "queue_list (critical_queue (mem s2)) = []" using c2 p2 by simp
  have "conc_inv (run_start waking_env two_topics) s2"
    by (rule conc_reachable_inv [OF r2 two_topics_inv two_topics_idle waking_env_ok(1)])
  moreover have "handler_index (run_start waking_env two_topics) = handler_index two_topics"
    using run_start_shape [of waking_env two_topics] by auto
  ultimately have "handler_index (mem s2) = handler_index two_topics" by (simp add: conc_inv_def base_inv_def same_setup_def)
  moreover have "handler_index two_topics = (\<lambda>hash. first_index hash (handlers two_topics))"
    using two_topics_inv by (simp add: reactor_inv_def handlers_inv_def)
  ultimately have known: "handler_index (mem s2) (ctx_handler_hash ?ctx) \<noteq> None" by (simp add: two_topics_fields)
  have rinv: "reactor_inv (mem s2)" using c2 by simp
  from rinv known obtain cs where "taken_in s3 = [(cs, CRITICAL)]" "handled s3 = []" "loop s3 = LCheck"
    by (cases rule: push_sample_cases [where env = waking_env and buf = "[1]"])
       (use empty p2 in \<open>simp_all add: s3_def send_step_def Let_def\<close>)
  then show ?thesis using c3 r3 two_topics_fields(6) by (intro exI [of _ s3] exI [of _ cs]) simp
qed

text \<open>
  C9. Under every interleaving no BACKGROUND frame is unaccounted for: of the frames put for a
  topic since the loop started each was handed to its handler, is in the loop's hand, is
  held by the slot, or is counted as dropped by it (as 64-bit numbers).
\<close>

theorem concurrent_frame_budget:
  assumes "reactor_inv r" "idle r" "env_ok env" "conc_reachable env r s"
    and "view (background_cache (mem s)) k = Some sl" "view (background_cache (run_start env r)) k = Some sl0"
  shows "of_nat (stored s k) = of_nat (frames_for k (rights (handled s) @ frame_in_hand (loop s))) +
           (if has_data sl then 1 else 0) + (drop_count sl - drop_count sl0)"
  using conc_reachable_inv [OF assms(4,1,2,3)] assms(5,6) unfolding conc_inv_def frame_budget_def by fastforce

theorem concurrent_frame_budget_witness:
  "\<exists>sl. view (background_cache (mem (conc_start waking_env two_topics))) (fnv1a_hash ''b'') = Some sl \<and>
     stored (conc_start waking_env two_topics) (fnv1a_hash ''b'') = 0 \<and> \<not> has_data sl"
proof -
  have c: "cache_inv (background_cache (run_start waking_env two_topics))"
    using run_start_spec(1) [OF two_topics_inv, of waking_env] by (simp add: reactor_inv_def frames_inv_def)
  have "get_slot_fast (fnv1a_hash ''b'') (background_cache (run_start waking_env two_topics)) \<noteq> None"
    using background_slots [OF two_topics_inv, of "handlers two_topics ! 1" waking_env] by (simp add: two_topics_fields)
  then obtain sl where sl: "view (background_cache (run_start waking_env two_topics)) (fnv1a_hash ''b'') = Some sl"
    using view_slots [OF c, of "fnv1a_hash ''b''"] by (cases "view (background_cache (run_start waking_env two_topics)) (fnv1a_hash ''b'')") (auto simp: get_slot_fast_def)
  then show ?thesis
    using concurrent_frame_budget [OF two_topics_inv two_topics_idle waking_env_ok(1) conc_begin _ sl, of sl]
    by (simp add: conc_start_def split: if_splits)
qed

text \<open>
  C11. No wake-up is lost under any interleaving: whenever the loop is about to wait (or waits)
  while a CRITICAL sample is in the queue or a stop has been requested, and no thread is
  between its push or its store and its eventfd write, the wait returns at once with the
  eventfd's tag, and the loop, even if nobody else moves, handles every sample the queue
  had taken, or, after a stop, ends.
\<close>

theorem concurrent_no_lost_wakeup:
  assumes "reactor_inv r" "idle r" "0 \<le> wakeup_fd r" "env_ok env" "kernel_wakes env" "sqe_available env = (\<lambda>tr. True)"
    and "conc_reachable env r s" "loop s = LWait" "\<not> about_to_write s" "urgent s \<or> \<not> running (mem s)"
  shows "wait_result env (io_trace (mem s)) = (0, 1) \<and>
     (\<exists>s'. (loop_only env)\<^sup>*\<^sup>* s s' \<and> taken_in s' = taken_in s \<and>
        (if running (mem s) then lefts (handled s') = map fst (taken_in s) else loop s' = LDone))"
proof -
  have inv: "conc_inv (run_start env r) s" by (rule conc_reachable_inv [OF assms(7,1,2,4)])
  have "wake_inv s" by (rule conc_reachable_wake [OF assms(7,1,2,4,3)])
  then have "signalled s" using assms(8,10) by (auto simp: wake_inv_def)
  then have "eventfd_pending (io_trace (mem s))" using assms(9) by (simp add: signalled_def)
  moreover have "poll_armed (io_trace (mem s))"
    using conc_reachable_poll [OF assms(7,6)] assms(8) by (simp add: poll_inv_def)
  ultimately have w: "wait_result env (io_trace (mem s)) = (0, 1)" using assms(5) by (simp add: kernel_wakes_def)
  obtain s1 where s1: "(loop_only env)\<^sup>*\<^sup>* s s1" "mem s1 = wait_events env (mem s)" "loop s1 = LCheck" "taken_in s1 = taken_in s"
    using wait_path [OF assms(8)] by blast
  have run1: "running (mem s1) = running (mem s)"
    using wait_events_shape [of env "mem s"] by (auto simp: s1(2))
  define s2 where "s2 = loop_step env s1 (loop s1)"
  have s2: "s2 = s1\<lparr>loop := (if running (mem s) then LSync else LDone)\<rparr>" using s1(3) run1 by (simp add: s2_def)
  have "(loop_only env)\<^sup>*\<^sup>* s1 s2" by (rule loop_path_step [rotated]) (use s1(3) in \<open>simp_all add: s2_def\<close>)
  with s1(1) have p2: "(loop_only env)\<^sup>*\<^sup>* s s2" by (rule rtranclp_trans)
  show ?thesis
  proof (cases "running (mem s)")
    case True
    have inv2: "conc_inv (run_start env r) s2" by (rule loop_path_inv [OF p2 inv assms(4)])
    have "loop s2 = LSync" using True by (simp add: s2)
    from queue_path [OF inv2 this assms(4)] obtain s3 where
      "(loop_only env)\<^sup>*\<^sup>* s2 s3" "taken_in s3 = taken_in s2" "lefts (handled s3) = map fst (taken_in s2)" by blast
    then show ?thesis using w p2 s1(4) True by (intro conjI exI [of _ s3]) (auto simp: s2 intro: rtranclp_trans)
  next
    case False
    then show ?thesis using w p2 s1(4) by (intro conjI exI [of _ s2]) (simp_all add: s2)
  qed
qed

theorem concurrent_no_lost_wakeup_witness:
  "\<exists>s s'. conc_reachable waking_env two_topics s \<and> loop s = LWait \<and> \<not> running (mem s) \<and>
     (loop_only waking_env)\<^sup>*\<^sup>* s s' \<and> loop s' = LDone"
proof -
  obtain s where s: "conc_reachable waking_env two_topics s" "loop s = LWait" "pcs s = (\<lambda>t. Outside)" "wakeup_fd (mem s) = wakeup_fd two_topics"
    by (rule reach_wait [OF two_topics_inv two_topics_idle waking_env_ok(1)])
  define s1 where "s1 = stop_store 0 s"
  define s2 where "s2 = thread_step waking_env 0 s1 (pcs s1 0)"
  have fd: "0 \<le> wakeup_fd two_topics" by (simp add: two_topics_fields)
  have s1: "pcs s1 = (\<lambda>t. Outside)(0 := Waking 5)" "running (mem s1) = False" "loop s1 = LWait"
    using s by (simp_all add: s1_def stop_store_def two_topics_fields)
  have "conc_step waking_env s s1" unfolding s1_def by (rule stop_enters) (simp add: s(3))
  moreover have "conc_step waking_env s1 s2" unfolding s2_def by (rule thread_moves) (simp add: s1)
  ultimately have r2: "conc_reachable waking_env two_topics s2" using conc_next s(1) by metis
  have s2: "loop s2 = LWait" "\<not> running (mem s2)" "\<not> about_to_write s2"
    using s1 by (auto simp: s2_def about_to_write_def frame_simps)
  show ?thesis
    using concurrent_no_lost_wakeup [OF two_topics_inv two_topics_idle fd waking_env_ok(1,2,4) r2 s2(1,3)] s2(2) r2 s2(1) by auto
qed

end
