(* ===== verification/Reactor_Liveness.thy ===== *)
theory Reactor_Liveness
  imports Fair_Runs Reactor_Concurrent
begin

text \<open>
  What the reactor's threads reach when the scheduler is fair to the loop: every sample the
  queue took is handled, a stopped loop returns once the producers pause, and it need not
  return while they go on.
\<close>

subsection \<open>Steps of the loop and steps of the others\<close>

text \<open>The loop is the one agent the scheduler has to be fair to.\<close>

definition loop_agent :: "env \<Rightarrow> unit \<Rightarrow> 'cb conc \<Rightarrow> 'cb conc \<Rightarrow> bool" where
  "loop_agent env a s s' \<longleftrightarrow> loop_only env s s'"

lemma send_step_frame:
  "loop (send_step env t ctx smp s) = loop s" "handled (send_step env t ctx smp s) = handled s"
  "\<exists>xs. taken_in (send_step env t ctx smp s) = taken_in s @ xs"
  by (auto simp: send_step_def Let_def split: sum.split bool.split)

lemma thread_step_frame:
  "handled (thread_step env t s pc) = handled s" "\<exists>xs. taken_in (thread_step env t s pc) = taken_in s @ xs"
  by (cases pc; simp add: send_step_frame)+

lemma loop_step_taken: "taken_in (loop_step env s (loop s)) = taken_in s"
proof (cases "loop s")
  case (LDrain n ord)
  then show ?thesis by (cases ord) (auto simp: drain_step_def Let_def split: sum.split option.split)
qed (auto simp: pop_step_def call_step_def frame_step_def wait_step_def Let_def
       simp del: dispatch_queued.simps dispatch_background.simps split: sum.split option.split prod.split)

lemma loop_step_pcs: "pcs (loop_step env s (loop s)) = pcs s"
proof (cases "loop s")
  case (LDrain n ord)
  then show ?thesis by (cases ord) (auto simp: drain_step_def Let_def split: sum.split option.split)
qed (auto simp: pop_step_def call_step_def frame_step_def wait_step_def Let_def
       simp del: dispatch_queued.simps dispatch_background.simps split: sum.split option.split prod.split)

lemma loop_step_handled: "\<exists>xs. handled (loop_step env s (loop s)) = handled s @ xs"
proof (cases "loop s")
  case (LDrain n ord)
  then show ?thesis by (cases ord) (auto simp: drain_step_def Let_def split: sum.split option.split)
qed (auto simp: pop_step_def call_step_def frame_step_def wait_step_def Let_def
       simp del: dispatch_queued.simps dispatch_background.simps split: sum.split option.split prod.split)

text \<open>A step is one of the loop, or leaves the loop and what it handled alone.\<close>

lemma conc_step_split:
  assumes "conc_step env s s'"
  obtains (by_loop) "loop_only env s s'" | (by_other) "loop s' = loop s" "handled s' = handled s"
  using assms
proof cases
  case loop_moves
  then show ?thesis using by_loop by (simp add: loop_only_def)
next
  case (thread_moves t)
  then show ?thesis using by_other by (simp add: thread_step_frame)
qed (use by_other in \<open>simp_all add: stop_store_def\<close>)

lemma conc_step_taken: "conc_step env s s' \<Longrightarrow> \<exists>xs. taken_in s' = taken_in s @ xs"
  by (erule conc_step.cases) (simp_all add: loop_step_taken thread_step_frame stop_store_def)

lemma conc_step_handled: "conc_step env s s' \<Longrightarrow> \<exists>xs. handled s' = handled s @ xs"
  by (erule conc_step_split) (auto simp: loop_only_def loop_step_handled)

lemma run_start_same:
  "target (run_start env r) = target r" "handlers (run_start env r) = handlers r" "handled_call (run_start env r) = handled_call r"
proof -
  obtain tr cs l where "run_start env r = r\<lparr>running := True, background_cache := pre_allocate_all (handlers r) (background_cache r),
        io_trace := tr, contexts := cs, logs := l\<rparr>"
    using run_start_shape by blast
  then show "handlers (run_start env r) = handlers r" and t: "target (run_start env r) = target r"
    by (simp_all add: target_def fun_eq_iff)
  show "handled_call (run_start env r) = handled_call r"
    by (simp add: t handled_call_def queued_call_def frame_call_def fun_eq_iff split: sum.split)
qed

text \<open>The invariant along a run, with its base.\<close>

definition conc_ok :: "env \<Rightarrow> 'cb reactor \<Rightarrow> 'cb conc \<Rightarrow> bool" where
  "conc_ok env b s \<longleftrightarrow> env_ok env \<and> conc_inv b s \<and> (\<forall>ctx \<in> set (contexts b). subscribed b ctx)"

lemma conc_ok_step: "conc_ok env b s \<Longrightarrow> conc_step env s s' \<Longrightarrow> conc_ok env b s'"
  unfolding conc_ok_def using conc_step_inv by blast

lemma conc_ok_start: "reactor_inv r \<Longrightarrow> idle r \<Longrightarrow> env_ok env \<Longrightarrow> conc_ok env (run_start env r) (conc_start env r)"
  using conc_start_inv run_start_spec(3) unfolding conc_ok_def by blast

lemma conc_ok_run:
  assumes "run_of (conc_step env) \<sigma>" "\<sigma> 0 = conc_start env r" "reactor_inv r" "idle r" "env_ok env"
  shows "conc_ok env (run_start env r) (\<sigma> n)"
  by (rule run_keeps [OF assms(1), of _ 0]) (use conc_ok_start [OF assms(3-5)] conc_ok_step assms(2) in auto)

subsection \<open>One step of the loop\<close>

text \<open>A callback at its push or put: its context is subscribed, its hash known.\<close>

lemma sending_context:
  assumes "conc_ok env b s" "pcs s t = Sending ctx smp"
  shows "ctx \<in> set (contexts b)" "subscribed b ctx" "subscribed (mem s) ctx" "reactor_inv (mem s)"
    "handler_index (mem s) (ctx_handler_hash ctx) \<noteq> None"
proof -
  show c: "ctx \<in> set (contexts b)" and ri: "reactor_inv (mem s)" using assms by (auto simp: conc_ok_def conc_invs)
  then show sub: "subscribed b ctx" using assms(1) by (simp add: conc_ok_def)
  show "subscribed (mem s) ctx" using sub assms(1) by (simp add: conc_ok_def conc_invs subscribed_def ctx_ok_def same_setup_def)
  then show "handler_index (mem s) (ctx_handler_hash ctx) \<noteq> None"
    using ri ctx_ok_index [of "mem s" ctx] by (simp add: reactor_inv_def subscribed_def)
qed

text \<open>A push that finds room is taken.\<close>

lemma send_taken:
  assumes "conc_ok env b s" "pcs s t = Sending ctx smp" "ctx_priority ctx \<noteq> BACKGROUND"
    and "length (queue_list (critical_queue (mem s))) < 511"
  shows "taken_in (thread_step env t s (pcs s t)) = taken_in s @ [(new_sample env ctx (z_payload smp) (mem s), ctx_priority ctx)]"
  using sending_context(4,5) [OF assms(1,2)]
  by (cases rule: push_sample_cases [where env = env and buf = "z_payload smp"])
     (use assms in \<open>simp_all add: send_step_def Let_def\<close>)

text \<open>Where a step of the loop leads, whatever is in memory.\<close>

lemma loop_next:
  assumes "conc_ok env b s" "loop s = pc"
  shows "case pc of
      LCheck \<Rightarrow> loop (loop_step env s pc) = (if running (mem s) then LSync else LDone)
    | LSync \<Rightarrow> loop (loop_step env s pc) = LPop 0 0
    | LPop c n \<Rightarrow> (if queue_list (critical_queue (mem s)) = []
                   then loop (loop_step env s pc) = LDrain 0 (slot_order env (background_cache (mem s)))
                   else \<exists>cs. loop (loop_step env s pc) = LCall c n cs)
    | LCall c n cs \<Rightarrow> \<exists>c' n'. loop (loop_step env s pc) = LPop c' n'
    | LDrain n [] \<Rightarrow> loop (loop_step env s pc) = LTotals
    | LDrain n (h # ord) \<Rightarrow> loop (loop_step env s pc) = LDrain n ord \<or> (\<exists>f. loop (loop_step env s pc) = LFrame n ord f)
    | LFrame n ord f \<Rightarrow> \<exists>n'. loop (loop_step env s pc) = LDrain n' ord
    | LTotals \<Rightarrow> loop (loop_step env s pc) = LWait
    | LWait \<Rightarrow> loop (loop_step env s pc) \<in> {LRead, LSeen, LCheck}
    | LRead \<Rightarrow> loop (loop_step env s pc) = LSeen
    | LSeen \<Rightarrow> loop (loop_step env s pc) = LArm
    | LArm \<Rightarrow> loop (loop_step env s pc) = LCheck
    | LDone \<Rightarrow> loop (loop_step env s pc) = LDone"
proof -
  have inv: "conc_inv b s" and env: "env_ok env" using assms(1) by (simp_all add: conc_ok_def)
  have nf: "conc_fault (loop_step env s pc) = None"
    using loop_step_inv [OF inv env] assms(2) by (simp add: conc_invs)
  have qi: "queue_inv (mem s)" using inv by (simp add: conc_invs reactor_inv_def)
  show ?thesis
  proof (cases pc)
    case (LPop c n)
    from qi show ?thesis
      by (cases rule: mpsc_pop_cases) (simp_all add: LPop pop_step_def Let_def del: length_queue_list)
  next
    case (LDrain n ord)
    then show ?thesis using nf
      by (cases ord) (auto simp: drain_step_def Let_def split: sum.splits option.splits)
  qed (use nf assms(2) in \<open>auto simp: call_step_def frame_step_def wait_step_def simp del: dispatch_queued.simps dispatch_background.simps
         split: sum.splits prod.splits\<close>)
qed

lemma in_lefts: "x \<in> set (lefts xs) \<longleftrightarrow> Inl x \<in> set xs"
  by (induction xs rule: lefts.induct) auto

lemma in_rights: "x \<in> set (rights xs) \<longleftrightarrow> Inr x \<in> set xs"
  by (induction xs rule: rights.induct) auto

lemma loop_handled:
  assumes "conc_ok env b s" "loop s = pc"
  shows "lefts (handled (loop_step env s pc)) = lefts (handled s) @ in_hand pc"
proof -
  have inv: "conc_inv b s" and env: "env_ok env" using assms(1) by (simp_all add: conc_ok_def)
  have nf: "conc_fault (loop_step env s pc) = None"
    using loop_step_inv [OF inv env] assms(2) by (simp add: conc_invs)
  show ?thesis
  proof (cases pc)
    case (LDrain n ord)
    then show ?thesis using nf
      by (cases ord) (auto simp: drain_step_def Let_def split: sum.splits option.splits)
  qed (use nf in \<open>auto simp: pop_step_def call_step_def frame_step_def wait_step_def Let_def
         simp del: dispatch_queued.simps dispatch_background.simps split: sum.splits option.splits prod.splits\<close>)
qed

text \<open>The frames handled, and the slots, which only the drain touches.\<close>

lemma loop_frames_handled:
  assumes "conc_ok env b s" "loop s = pc"
  shows "rights (handled (loop_step env s pc)) = rights (handled s) @ frame_in_hand pc"
proof -
  have inv: "conc_inv b s" and env: "env_ok env" using assms(1) by (simp_all add: conc_ok_def)
  have nf: "conc_fault (loop_step env s pc) = None"
    using loop_step_inv [OF inv env] assms(2) by (simp add: conc_invs)
  show ?thesis
  proof (cases pc)
    case (LDrain n ord)
    then show ?thesis using nf
      by (cases ord) (auto simp: drain_step_def Let_def split: sum.splits option.splits)
  qed (use nf in \<open>auto simp: pop_step_def call_step_def frame_step_def wait_step_def Let_def
         simp del: dispatch_queued.simps dispatch_background.simps split: sum.splits option.splits prod.splits\<close>)
qed

lemma dispatch_queued_cache:
  "dispatch_queued env cs (Inr (r, c, n)) = Inr (r', c', n') \<Longrightarrow> background_cache r' = background_cache r"
  by (auto simp: dispatch_queued.simps read_clock_def Let_def record_latency_def invoke_def
      split: option.splits if_splits TopicPriority.splits)

lemma dispatch_background_cache:
  "dispatch_background env h d t (Inr (r, n)) = Inr (r', n') \<Longrightarrow> background_cache r' = background_cache r"
  by (auto simp: dispatch_background.simps read_clock_def Let_def record_latency_def invoke_def
      split: option.splits if_splits)

lemma cache_kept:
  "background_cache (sync_queue_drops r) = background_cache r" "background_cache (finish_queue c n r) = background_cache r"
  "background_cache (count_background m r) = background_cache r" "background_cache (arm_poll_eventfd env r) = background_cache r"
  "background_cache (track_session env smp r) = background_cache r"
  "background_cache (zenoh_liveliness_callback env smp r) = background_cache r"
  "background_cache (spdlog l r) = background_cache r"
  using core_sync(1) core_finish(1) core_count(1) core_arm(1) core_track(1) core_liveliness(1) core_log(1)
  unfolding same_core_def by blast+

lemma loop_step_cache:
  assumes "conc_ok env b s" "\<And>n h ord. loop s \<noteq> LDrain n (h # ord)"
  shows "background_cache (mem (loop_step env s (loop s))) = background_cache (mem s)"
    and "frame_in_hand (loop (loop_step env s (loop s))) = []"
proof -
  have "background_cache (mem (loop_step env s (loop s))) = background_cache (mem s) \<and>
      frame_in_hand (loop (loop_step env s (loop s))) = []"
  proof (cases "loop s")
    case (LCall c n cs)
    obtain r' c' n' where "dispatch_queued env cs (Inr (mem s, c, n)) = Inr (r', c', n')"
      using call_step_ok [OF _ LCall] assms(1) by (metis conc_ok_def)
    with dispatch_queued_cache [OF this] LCall show ?thesis by (simp add: call_step_def del: dispatch_queued.simps)
  next
    case (LFrame n ord f)
    obtain h d t where f: "f = (h, d, t)" by (cases f)
    obtain r' n' where "dispatch_background env h d t (Inr (mem s, n)) = Inr (r', n')"
      using frame_step_ok [of b s n ord h d t env] assms(1) LFrame unfolding f conc_ok_def by blast
    with dispatch_background_cache [OF this] LFrame f show ?thesis by (simp add: frame_step_def del: dispatch_background.simps)
  next
    case (LDrain n ord)
    then show ?thesis using assms(2) by (cases ord) (simp_all add: cache_kept)
  next
    case (LPop c n)
    then show ?thesis by (auto simp: pop_step_def cache_kept Let_def split: sum.split option.split)
  next
    case LTotals
    then show ?thesis by (auto dest: core_totals(1) simp: same_core_def split: sum.split)
  next
    case LWait
    then show ?thesis by (auto simp: wait_step_def io_def split: prod.split)
  qed (simp_all add: cache_kept io_def)
  then show "background_cache (mem (loop_step env s (loop s))) = background_cache (mem s)"
    "frame_in_hand (loop (loop_step env s (loop s))) = []" by simp_all
qed

subsection \<open>Every sample the queue took is handled\<close>

text \<open>How far the loop is from its next pop.\<close>

fun to_pop :: "loop_pc \<Rightarrow> nat" where
  "to_pop (LCall c n cs) = 0" | "to_pop (LPop c n) = 1" | "to_pop LSync = 2" | "to_pop LCheck = 3"
| "to_pop LArm = 4" | "to_pop LSeen = 5" | "to_pop LRead = 6" | "to_pop LWait = 7" | "to_pop LTotals = 8"
| "to_pop (LDrain n ord) = 9 + 2 * length ord" | "to_pop (LFrame n ord f) = 10 + 2 * length ord" | "to_pop LDone = 0"

definition sample_waits :: "env \<Rightarrow> 'cb reactor \<Rightarrow> nat \<Rightarrow> 'cb conc \<Rightarrow> bool" where
  "sample_waits env b i s \<longleftrightarrow> conc_ok env b s \<and> running (mem s) \<and> loop s \<noteq> LDone \<and> i < length (taken_in s)"

definition sample_handled :: "nat \<Rightarrow> 'cb conc \<Rightarrow> bool" where
  "sample_handled i s \<longleftrightarrow> i < length (lefts (handled s))"

definition sample_rank :: "nat \<Rightarrow> 'cb conc \<Rightarrow> nat" where
  "sample_rank i s = 2 * (Suc i - length (lefts (handled s))) + to_pop (loop s)"

lemma waiting_sample_queued:
  assumes "sample_waits env b i s" "\<not> sample_handled i s" "in_hand (loop s) = []"
  shows "queue_list (critical_queue (mem s)) \<noteq> []"
proof -
  have "map fst (taken_in s) = lefts (handled s) @ in_hand (loop s) @ queue_list (critical_queue (mem s))"
    using assms(1) by (simp add: sample_waits_def conc_ok_def conc_invs)
  moreover note assms(3)
  ultimately have "length (taken_in s) = length (lefts (handled s)) + length (queue_list (critical_queue (mem s)))"
    by (metis append_Nil length_append length_map)
  then show ?thesis using assms(1,2) by (auto simp: sample_waits_def sample_handled_def simp del: length_queue_list)
qed

lemma loop_lowers_sample:
  assumes "sample_waits env b i s" "\<not> sample_handled i s"
  shows "loop (loop_step env s (loop s)) \<noteq> LDone" "sample_rank i (loop_step env s (loop s)) < sample_rank i s"
proof -
  have ok: "conc_ok env b s" and run: "running (mem s)" using assms(1) by (simp_all add: sample_waits_def)
  note nxt = loop_next [OF ok refl] and hnd = loop_handled [OF ok refl]
  have "loop (loop_step env s (loop s)) \<noteq> LDone \<and> sample_rank i (loop_step env s (loop s)) < sample_rank i s"
  proof (cases "loop s")
    case (LPop c n)
    have "queue_list (critical_queue (mem s)) \<noteq> []" by (rule waiting_sample_queued [OF assms]) (simp add: LPop)
    then show ?thesis using nxt hnd by (auto simp: LPop sample_rank_def)
  next
    case (LCall c n cs)
    then show ?thesis using nxt hnd assms(2) by (auto simp: sample_rank_def sample_handled_def)
  next
    case (LDrain n ord)
    then show ?thesis using nxt hnd by (cases ord) (auto simp: sample_rank_def)
  next
    case LDone
    then show ?thesis using assms(1) by (simp add: sample_waits_def)
  qed (use nxt hnd run in \<open>auto simp: sample_rank_def\<close>)
  then show "loop (loop_step env s (loop s)) \<noteq> LDone" "sample_rank i (loop_step env s (loop s)) < sample_rank i s" by simp_all
qed

interpretation handling: ranked_progress "\<lambda>s s'. conc_step env s s' \<and> running (mem s')" "loop_agent env"
  "sample_waits env b i" "sample_handled i" "sample_rank i" "\<lambda>s. ()" for env b i
proof
  fix s s' :: "'a conc"
  assume s: "sample_waits env b i s" "\<not> sample_handled i s"
  show "\<exists>s'. loop_agent env () s s'" using s(1) by (auto simp: loop_agent_def loop_only_def sample_waits_def)
  show "sample_handled i s' \<or> sample_rank i s' < sample_rank i s" if "loop_agent env () s s'"
    using that loop_lowers_sample [OF s] by (simp add: loop_agent_def loop_only_def)
  assume st: "conc_step env s s' \<and> running (mem s')"
  then have keep: "conc_ok env b s'" "i < length (taken_in s')"
    using s(1) conc_ok_step conc_step_taken [of env s s'] by (auto simp: sample_waits_def)
  from st have "conc_step env s s'" ..
  then show "sample_handled i s' \<or> sample_waits env b i s' \<and>
      (sample_rank i s' < sample_rank i s \<or> sample_rank i s' = sample_rank i s \<and> () = ())"
  proof (cases rule: conc_step_split)
    case by_loop
    then show ?thesis using keep st loop_lowers_sample [OF s] by (auto simp: sample_waits_def loop_only_def)
  next
    case by_other
    then show ?thesis using keep st s(1) by (simp add: sample_waits_def sample_rank_def)
  qed
qed

subsection \<open>A stopped loop returns\<close>

text \<open>An upper bound of the steps to the end, with \<open>w\<close> samples waiting and \<open>k\<close> slots.\<close>

fun to_end :: "nat \<Rightarrow> nat \<Rightarrow> loop_pc \<Rightarrow> nat" where
  "to_end k w LSync = 9 + 2 * k + 2 * w" | "to_end k w (LPop c n) = 8 + 2 * k + 2 * w"
| "to_end k w (LCall c n cs) = 7 + 2 * k + 2 * w"
| "to_end k w (LDrain n ord) = 7 + 2 * length ord" | "to_end k w (LFrame n ord f) = 8 + 2 * length ord"
| "to_end k w LTotals = 6" | "to_end k w LWait = 5" | "to_end k w LRead = 4" | "to_end k w LSeen = 3"
| "to_end k w LArm = 2" | "to_end k w LCheck = 1" | "to_end k w LDone = 0"

definition stopping :: "env \<Rightarrow> 'cb reactor \<Rightarrow> 'cb conc \<Rightarrow> bool" where
  "stopping env b s \<longleftrightarrow> conc_ok env b s \<and> \<not> running (mem s)"

definition stop_rank :: "'cb conc \<Rightarrow> nat" where
  "stop_rank s = to_end (card (dom (slots (background_cache (mem s))))) (length (taken_in s) - length (lefts (handled s))) (loop s)"

lemma conc_ok_slots: "conc_ok env b s \<Longrightarrow> slots (background_cache (mem s)) = slots (background_cache b)"
  by (simp add: conc_ok_def conc_invs same_setup_def)

lemma slot_order_length:
  assumes "conc_ok env b s"
  shows "length (slot_order env (background_cache (mem s))) = card (dom (slots (background_cache (mem s))))"
proof -
  have "cache_inv (background_cache (mem s))" using assms by (simp add: conc_ok_def conc_invs reactor_inv_def frames_inv_def)
  then have "iterates (slot_order env (background_cache (mem s))) (background_cache (mem s))"
    using assms by (simp add: conc_ok_def env_ok_def)
  then show ?thesis using distinct_card unfolding iterates_def by metis
qed

lemma samples_waiting:
  assumes "conc_ok env b s"
  shows "length (taken_in s) - length (lefts (handled s)) = length (in_hand (loop s)) + length (queue_list (critical_queue (mem s)))"
proof -
  have "length (map fst (taken_in s)) = length (lefts (handled s) @ in_hand (loop s) @ queue_list (critical_queue (mem s)))"
    using assms by (simp only: conc_ok_def conc_invs)
  then show ?thesis by (simp del: length_queue_list)
qed

lemma conc_step_stopped:
  assumes "conc_step env s s'" "\<not> running (mem s)"
  shows "\<not> running (mem s')"
  using assms(1)
proof cases
  case (stats_reset m)
  then show ?thesis using assms(2) core_reset by auto
qed (use assms(2) in \<open>simp_all add: loop_step_running thread_step_running stop_store_def zenoh_liveliness_callback_def
       read_clock_def io_def spdlog_def\<close>)

lemma loop_lowers_stop:
  assumes "stopping env b s" "loop s \<noteq> LDone"
  shows "stop_rank (loop_step env s (loop s)) < stop_rank s"
proof -
  have ok: "conc_ok env b s" and halt: "\<not> running (mem s)" using assms(1) by (simp_all add: stopping_def)
  have st: "conc_step env s (loop_step env s (loop s))" by (rule loop_moves [OF assms(2)])
  have sl: "slots (background_cache (mem (loop_step env s (loop s)))) = slots (background_cache (mem s))"
    using conc_ok_slots [OF conc_ok_step [OF ok st]] conc_ok_slots [OF ok] by simp
  note nxt = loop_next [OF ok refl] and hnd = loop_handled [OF ok refl] and tk = loop_step_taken [of env s]
  show ?thesis
  proof (cases "loop s")
    case (LPop c n)
    then show ?thesis
      using nxt hnd tk sl slot_order_length [OF ok] by (cases "queue_list (critical_queue (mem s)) = []") (auto simp: stop_rank_def)
  next
    case (LCall c n cs)
    then have "length (taken_in s) - length (lefts (handled s)) > 0" using samples_waiting [OF ok] by simp
    then show ?thesis using nxt hnd tk sl LCall by (auto simp: stop_rank_def)
  next
    case (LDrain n ord)
    then show ?thesis using nxt hnd tk sl by (cases ord) (auto simp: stop_rank_def)
  qed (use nxt hnd tk sl halt assms(2) in \<open>auto simp: stop_rank_def\<close>)
qed

interpretation returning: ranked_progress "\<lambda>s s'. conc_step env s s' \<and> taken_in s' = taken_in s" "loop_agent env"
  "stopping env b" "\<lambda>s. loop s = LDone" stop_rank "\<lambda>s. ()" for env b
proof
  fix s s' :: "'a conc"
  assume s: "stopping env b s" "loop s \<noteq> LDone"
  show "\<exists>s'. loop_agent env () s s'" using s(2) by (auto simp: loop_agent_def loop_only_def)
  show "loop s' = LDone \<or> stop_rank s' < stop_rank s" if "loop_agent env () s s'"
    using that loop_lowers_stop [OF s] by (simp add: loop_agent_def loop_only_def)
  assume st: "conc_step env s s' \<and> taken_in s' = taken_in s"
  then have keep: "stopping env b s'" using s(1) conc_ok_step conc_step_stopped unfolding stopping_def by metis
  from st have "conc_step env s s'" ..
  then show "loop s' = LDone \<or> stopping env b s' \<and> (stop_rank s' < stop_rank s \<or> stop_rank s' = stop_rank s \<and> () = ())"
  proof (cases rule: conc_step_split)
    case by_loop
    then show ?thesis using keep loop_lowers_stop [OF s] by (simp add: loop_only_def)
  next
    case by_other
    have "slots (background_cache (mem s')) = slots (background_cache (mem s))"
      using conc_ok_slots keep s(1) unfolding stopping_def by metis
    then show ?thesis using keep st by_other by (simp add: stop_rank_def)
  qed
qed

subsection \<open>Runs\<close>

text \<open>The loop on its own, for ever, or until it is done.\<close>

definition loop_run :: "env \<Rightarrow> 'cb conc \<Rightarrow> nat \<Rightarrow> 'cb conc" where
  "loop_run env s n = ((\<lambda>s. loop_step env s (loop s)) ^^ n) s"

lemma loop_run_simps [simp]: "loop_run env s 0 = s" "loop_run env s (Suc n) = loop_step env (loop_run env s n) (loop (loop_run env s n))"
  by (simp_all add: loop_run_def)

lemma loop_run_runs: "run_of (conc_step env) (loop_run env s)" "weakly_fair (loop_agent env) (loop_run env s)"
proof -
  have "conc_step env x (loop_step env x (loop x)) \<or> loop_step env x (loop x) = x" for x :: "'a conc"
    using loop_moves [of x env] by (cases "loop x = LDone") auto
  then show "run_of (conc_step env) (loop_run env s)" by (simp add: run_of_def)
  show "weakly_fair (loop_agent env) (loop_run env s)"
    unfolding weakly_fair_def loop_agent_def loop_only_def by auto
qed

text \<open>
  The loop against one producer that sends the sample \<open>smp\<close> again and again: it is called,
  tracks the session, pushes, and then the loop pops and calls the handler.
\<close>

definition feed :: "env \<Rightarrow> CallbackContext \<Rightarrow> z_sample \<Rightarrow> nat \<Rightarrow> 'cb conc \<Rightarrow> 'cb conc" where
  "feed env ctx smp k s =
     (if k = 0 then set_thread 1 (Tracking ctx smp) s
      else if k = 1 \<or> k = 2 then thread_step env 1 s (pcs s 1)
      else loop_step env s (loop s))"

fun feed_run :: "env \<Rightarrow> CallbackContext \<Rightarrow> z_sample \<Rightarrow> 'cb conc \<Rightarrow> nat \<Rightarrow> 'cb conc" where
  "feed_run env ctx smp s 0 = s"
| "feed_run env ctx smp s (Suc n) = feed env ctx smp (n mod 5) (feed_run env ctx smp s n)"

text \<open>The state after each of the five steps.\<close>

definition fed :: "env \<Rightarrow> 'cb reactor \<Rightarrow> CallbackContext \<Rightarrow> z_sample \<Rightarrow> nat \<Rightarrow> 'cb conc \<Rightarrow> bool" where
  "fed env b ctx smp k s \<longleftrightarrow>
     conc_ok env b s \<and> ctx \<in> set (contexts b) \<and> \<not> running (mem s) \<and> rights (handled s) = [] \<and>
     pcs s 1 = (if k = 1 then Tracking ctx smp else if k = 2 then Sending ctx smp else Outside) \<and>
     (if k = 4 then \<exists>c n cs. loop s = LCall c n cs else \<exists>c n. loop s = LPop c n) \<and>
     (queue_list (critical_queue (mem s)) = [] \<longleftrightarrow> k \<noteq> 3) \<and> length (queue_list (critical_queue (mem s))) \<le> 1"

lemma send_accepts:
  assumes "conc_ok env b s" "pcs s t = Sending ctx smp" "ctx_priority ctx = NORMAL"
    and "queue_list (critical_queue (mem s)) = []"
  shows "(\<exists>x. queue_list (critical_queue (mem (send_step env t ctx smp s))) = [x]) \<and> pcs (send_step env t ctx smp s) = (pcs s)(t := Outside)"
  using sending_context(4,5) [OF assms(1,2)]
proof (cases rule: push_sample_cases [where env = env and buf = "z_payload smp"])
  case (accept r')
  then show ?thesis using assms(3,4) by (simp add: send_step_def Let_def set_thread_def)
next
  case (reject r')
  then show ?thesis using assms(4) by simp
qed

lemma queue_rights:
  "loop s = LPop c n \<Longrightarrow> rights (handled (loop_step env s (loop s))) = rights (handled s)"
  "loop s = LCall c n cs \<Longrightarrow> rights (handled (loop_step env s (loop s))) = rights (handled s)"
  by (simp_all add: pop_step_def call_step_def Let_def del: dispatch_queued.simps split: sum.split option.split prod.split)

lemma feed_pops:
  assumes "fed env b ctx smp 3 s"
  shows "fed env b ctx smp 4 (loop_step env s (loop s))"
proof -
  let ?s = "loop_step env s (loop s)"
  obtain c n where ok: "conc_ok env b s" and pc: "loop s = LPop c n" using assms by (auto simp: fed_def)
  have ok': "conc_ok env b ?s" by (rule conc_ok_step [OF ok loop_moves]) (simp add: pc)
  obtain cs where l: "loop ?s = LCall c n cs" using loop_next [OF ok refl] assms pc by (auto simp: fed_def)
  have "length (queue_list (critical_queue (mem ?s))) = 0"
    using samples_waiting [OF ok] samples_waiting [OF ok'] loop_handled [OF ok refl] loop_step_taken [of env s] assms pc l
    by (simp add: fed_def del: length_queue_list)
  then show ?thesis
    using assms ok' l queue_rights(1) [OF pc, of env] pc loop_step_running [of env s]
    by (auto simp: fed_def pop_step_def Let_def simp del: length_queue_list split: sum.split option.split)
qed

lemma feed_calls:
  assumes "fed env b ctx smp 4 s"
  shows "fed env b ctx smp 0 (loop_step env s (loop s))"
proof -
  let ?s = "loop_step env s (loop s)"
  obtain c n cs where ok: "conc_ok env b s" and pc: "loop s = LCall c n cs" using assms by (auto simp: fed_def)
  have ok': "conc_ok env b ?s" by (rule conc_ok_step [OF ok loop_moves]) (simp add: pc)
  obtain c' n' where l: "loop ?s = LPop c' n'" using loop_next [OF ok refl] by (auto simp: pc)
  have "length (queue_list (critical_queue (mem ?s))) = 0"
    using samples_waiting [OF ok] samples_waiting [OF ok'] loop_handled [OF ok refl] loop_step_taken [of env s] assms pc l
    by (simp add: fed_def del: length_queue_list)
  moreover have "pcs ?s = pcs s" using pc by (simp add: call_step_def del: dispatch_queued.simps split: sum.split prod.split)
  ultimately show ?thesis
    using assms ok' l queue_rights(2) [OF pc, of env] loop_step_running [of env s] by (simp add: fed_def del: length_queue_list)
qed

lemma feed_step:
  assumes "fed env b ctx smp k s" "k < 5" "admissible env smp" "ctx_priority ctx = NORMAL"
  shows "conc_step env s (feed env ctx smp k s)" "fed env b ctx smp (Suc k mod 5) (feed env ctx smp k s)"
proof -
  have ok: "conc_ok env b s" and ctx: "ctx \<in> set (contexts (mem s))"
    using assms(1) by (auto simp: fed_def conc_ok_def conc_invs same_setup_def)
  have "k = 0 \<or> k = 1 \<or> k = 2 \<or> k = 3 \<or> k = 4" using assms(2) by linarith
  then have "conc_step env s (feed env ctx smp k s) \<and> fed env b ctx smp (Suc k mod 5) (feed env ctx smp k s)"
  proof (elim disjE)
    assume k: "k = 0"
    have st: "conc_step env s (feed env ctx smp k s)"
      using callback_enters [of s 1 ctx env smp] assms(1,3) ctx by (simp add: feed_def fed_def k)
    from conc_ok_step [OF ok this] assms(1) have "fed env b ctx smp 1 (feed env ctx smp k s)"
      by (simp add: fed_def feed_def k)
    with st show ?thesis by (simp add: k)
  next
    assume k: "k = 1"
    have st: "conc_step env s (feed env ctx smp k s)"
      using thread_moves [of s 1 env] assms(1) by (simp add: feed_def fed_def k)
    have "critical_queue (track_session env smp (mem s)) = critical_queue (mem s)"
      using core_track(1) [of "mem s" env smp] by (simp add: same_core_def)
    with conc_ok_step [OF ok st] assms(1) have "fed env b ctx smp 2 (feed env ctx smp k s)"
      by (simp add: fed_def feed_def k trace_kept)
    with st show ?thesis by (simp add: k numeral_2_eq_2)
  next
    assume k: "k = 2"
    have st: "conc_step env s (feed env ctx smp k s)"
      using thread_moves [of s 1 env] assms(1) by (simp add: feed_def fed_def k)
    have pc: "pcs s 1 = Sending ctx smp" using assms(1) by (simp add: fed_def k)
    have "queue_list (critical_queue (mem s)) = []" using assms(1) by (simp add: fed_def k)
    note acc = send_accepts [OF ok pc assms(4) this]
    have "running (mem (send_step env 1 ctx smp s)) = running (mem s)"
      using thread_step_running [of env 1 s "Sending ctx smp"] by simp
    with acc conc_ok_step [OF ok st] assms(1) have "fed env b ctx smp 3 (feed env ctx smp k s)"
      by (auto simp: fed_def feed_def k send_step_frame pc simp del: length_queue_list)
    with st show ?thesis by (simp add: k)
  next
    assume k: "k = 3"
    then have "conc_step env s (feed env ctx smp k s)" using loop_moves [of s env] assms(1) by (auto simp: feed_def fed_def)
    then show ?thesis using feed_pops [of env b ctx smp s] assms(1) k by (simp add: feed_def)
  next
    assume k: "k = 4"
    then have "conc_step env s (feed env ctx smp k s)" using loop_moves [of s env] assms(1) by (auto simp: feed_def fed_def)
    then show ?thesis using feed_calls [of env b ctx smp s] assms(1) k by (simp add: feed_def)
  qed
  then show "conc_step env s (feed env ctx smp k s)" "fed env b ctx smp (Suc k mod 5) (feed env ctx smp k s)" by simp_all
qed

lemma feed_run_fed:
  assumes "fed env b ctx smp 0 s" "admissible env smp" "ctx_priority ctx = NORMAL"
  shows "fed env b ctx smp (n mod 5) (feed_run env ctx smp s n)"
proof (induction n)
  case (Suc n)
  have "fed env b ctx smp (Suc (n mod 5) mod 5) (feed_run env ctx smp s (Suc n))"
    using feed_step(2) [OF Suc _ assms(2,3)] by simp
  then show ?case by (simp only: mod_Suc_eq)
qed (use assms in simp)

lemma feed_run_runs:
  assumes "fed env b ctx smp 0 s" "admissible env smp" "ctx_priority ctx = NORMAL"
  shows "run_of (conc_step env) (feed_run env ctx smp s)" "weakly_fair (loop_agent env) (feed_run env ctx smp s)"
proof -
  show "run_of (conc_step env) (feed_run env ctx smp s)"
    using feed_step(1) [OF feed_run_fed [OF assms] _ assms(2,3)] by (simp add: run_of_def)
  show "weakly_fair (loop_agent env) (feed_run env ctx smp s)"
    unfolding weakly_fair_def
  proof (intro allI)
    fix a :: unit and n :: nat
    obtain m where m: "m \<ge> n" "m mod 5 = 3" using that [of "5 * n + 3"] by simp
    then have "loop_agent env a (feed_run env ctx smp s m) (feed_run env ctx smp s (Suc m))"
      using feed_run_fed [OF assms, of m] by (auto simp: loop_agent_def loop_only_def feed_def fed_def)
    with m(1) show "\<exists>m \<ge> n. (\<nexists>s'. loop_agent env a (feed_run env ctx smp s m) s') \<or>
        loop_agent env a (feed_run env ctx smp s m) (feed_run env ctx smp s (Suc m))" by blast
  qed
qed

text \<open>The feeding can begin as soon as the loop is in its queue, after a stop.\<close>

lemma feed_start:
  assumes "reactor_inv r" "idle r" "env_ok env" "ctx \<in> set (contexts (run_start env r))"
  shows "\<exists>s. (conc_step env)\<^sup>*\<^sup>* (conc_start env r) s \<and> fed env (run_start env r) ctx smp 0 s"
proof -
  let ?b = "run_start env r" and ?s0 = "conc_start env r"
  define s1 where "s1 = loop_step env ?s0 (loop ?s0)"
  define s2 where "s2 = loop_step env s1 (loop s1)"
  define s3 where "s3 = stop_store 0 s2"
  have s1: "s1 = ?s0\<lparr>loop := LSync\<rparr>" using run_start_spec(2) [OF assms(1)] by (simp add: s1_def conc_start_def)
  have s2: "s2 = ?s0\<lparr>mem := sync_queue_drops ?b, loop := LPop 0 0\<rparr>" by (simp add: s2_def s1) (simp add: conc_start_def)
  have path: "conc_step env ?s0 s1" "conc_step env s1 s2" "conc_step env s2 s3"
    unfolding s3_def using loop_moves [of ?s0 env] loop_moves [of s1 env] stop_enters [of s2 0 env]
    by (simp_all add: s1_def [symmetric] s2_def [symmetric]) (simp_all add: s1 s2 conc_start_def)
  have "conc_ok env ?b s3"
    using conc_ok_step path conc_ok_start [OF assms(1,2,3)] by metis
  moreover have "queue_list (critical_queue (mem s3)) = []"
    using assms(2) run_start_idle(1) [OF assms(1), of env] core_sync(1) [of ?b]
    by (simp add: s3_def s2 stop_store_def idle_def same_core_def)
  ultimately have fed: "fed env ?b ctx smp 0 s3"
    using assms(4) by (simp add: fed_def) (simp add: s3_def s2 stop_store_def conc_start_def set_thread_def)
  have "(conc_step env)\<^sup>*\<^sup>* ?s0 s3" using path by (simp add: converse_rtranclp_into_rtranclp)
  with fed show ?thesis by blast
qed

subsection \<open>Properties\<close>

lemma done_run:
  assumes "run_of (conc_step env) \<sigma>" "\<sigma> 0 = conc_start env r" "reactor_inv r" "idle r" "env_ok env"
  shows "loop (\<sigma> n) = LDone \<longrightarrow> \<not> running (mem (\<sigma> n))"
proof -
  let ?P = "\<lambda>s. conc_ok env (run_start env r) s \<and> (loop s = LDone \<longrightarrow> \<not> running (mem s))"
  have "?P (\<sigma> n)"
  proof (rule run_keeps [OF assms(1), of ?P 0])
    show "?P (\<sigma> 0)" using conc_ok_run [OF assms, of 0] assms(2) by (simp add: conc_start_def)
  next
    fix s s' assume s: "?P s" "conc_step env s s'"
    then have "conc_ok env (run_start env r) s'" using conc_ok_step by blast
    moreover from s(2) have "loop s' = LDone \<longrightarrow> \<not> running (mem s')"
    proof (cases rule: conc_step_split)
      case by_loop
      then have "loop s \<noteq> LDone" "s' = loop_step env s (loop s)" by (simp_all add: loop_only_def)
      then show ?thesis
        using loop_next [of env "run_start env r" s "loop s"] s(1) loop_step_running [of env s]
        by (cases "loop s") (auto split: if_splits list.splits)
    next
      case by_other
      then show ?thesis using s conc_step_stopped by metis
    qed
    ultimately show "?P s'" by blast
  qed simp
  then show ?thesis by blast
qed

text \<open>A taken sample is handled in the end, by a call of its handler.\<close>

lemma taken_reaches_handler:
  assumes "reactor_inv r" "idle r" "env_ok env"
    and "run_of (conc_step env) \<sigma>" "\<sigma> 0 = conc_start env r" "weakly_fair (loop_agent env) \<sigma>"
    and "\<forall>m. running (mem (\<sigma> m))" "i < length (taken_in (\<sigma> n))"
  shows "\<exists>m \<ge> n. i < length (lefts (handled (\<sigma> m)))"
proof -
  have run: "run_of (\<lambda>s s'. conc_step env s s' \<and> running (mem s')) (\<lambda>m. \<sigma> (n + m))"
    by (rule run_of_suffix [OF assms(4)]) (use assms(7) in simp)
  have "sample_waits env (run_start env r) i (\<sigma> (n + 0))"
    using conc_ok_run [OF assms(4,5,1,2,3)] assms(7,8) done_run [OF assms(4,5,1,2,3)] by (simp add: sample_waits_def)
  from handling.reaches [OF run weakly_fair_suffix [OF assms(6)] this] obtain m where
    "i < length (lefts (handled (\<sigma> (n + m))))" by (auto simp: sample_handled_def)
  then show ?thesis by (intro exI [of _ "n + m"]) simp
qed

lemma handled_sample:
  assumes "run_of (conc_step env) \<sigma>" "conc_ok env b (\<sigma> m)" "n \<le> m"
    and "i < length (taken_in (\<sigma> n))" "i < length (lefts (handled (\<sigma> m)))"
  shows "lefts (handled (\<sigma> m)) ! i = fst (taken_in (\<sigma> n) ! i)" "queued_call b (fst (taken_in (\<sigma> n) ! i)) \<in> set (calls (mem (\<sigma> m)))"
proof -
  have "\<exists>xs. taken_in (\<sigma> m) = taken_in (\<sigma> n) @ xs"
    by (rule run_extends [OF assms(1) _ assms(3)]) (simp_all add: conc_step_taken)
  then obtain xs where xs: "taken_in (\<sigma> m) = taken_in (\<sigma> n) @ xs" ..
  have inv: "map fst (taken_in (\<sigma> m)) = lefts (handled (\<sigma> m)) @ in_hand (loop (\<sigma> m)) @ queue_list (critical_queue (mem (\<sigma> m)))"
    "calls (mem (\<sigma> m)) = calls b @ map (handled_call b) (handled (\<sigma> m))"
    using assms(2) by (simp_all add: conc_ok_def conc_invs)
  have "lefts (handled (\<sigma> m)) ! i = map fst (taken_in (\<sigma> m)) ! i"
    using assms(5) by (simp only: inv(1) nth_append if_True)
  also have "\<dots> = fst (taken_in (\<sigma> n) ! i)" using assms(4) by (simp add: xs nth_append)
  finally show e: "lefts (handled (\<sigma> m)) ! i = fst (taken_in (\<sigma> n) ! i)" .
  then have "Inl (fst (taken_in (\<sigma> n) ! i)) \<in> set (handled (\<sigma> m))"
    using assms(5) in_lefts by (metis nth_mem)
  then have "handled_call b (Inl (fst (taken_in (\<sigma> n) ! i))) \<in> set (calls (mem (\<sigma> m)))" by (simp add: inv(2))
  then show "queued_call b (fst (taken_in (\<sigma> n) ! i)) \<in> set (calls (mem (\<sigma> m)))" by (simp add: handled_call_def)
qed

text \<open>
  C8. While nobody stops the reactor, every sample the queue ever took is handled, whatever
  the load and the interleaving, as long as the loop is scheduled again and again; the
  calls include that of its handler with its payload.
\<close>

theorem every_taken_sample_is_handled:
  assumes "reactor_inv r" "idle r" "env_ok env"
    and "run_of (conc_step env) \<sigma>" "\<sigma> 0 = conc_start env r" "weakly_fair (loop_agent env) \<sigma>"
    and "\<forall>m. running (mem (\<sigma> m))" "i < length (taken_in (\<sigma> n))"
  shows "\<exists>m \<ge> n. i < length (lefts (handled (\<sigma> m))) \<and> lefts (handled (\<sigma> m)) ! i = fst (taken_in (\<sigma> n) ! i) \<and>
     queued_call (run_start env r) (fst (taken_in (\<sigma> n) ! i)) \<in> set (calls (mem (\<sigma> m)))"
  using taken_reaches_handler [OF assms] handled_sample [OF assms(4) conc_ok_run [OF assms(4,5,1,2,3)] _ assms(8)] by blast

text \<open>
  C32. A stopped loop returns: once the flag is cleared and from then on the queue takes no further
  sample, a loop to which the scheduler is weakly fair ends its pass and leaves
  \<^verbatim>\<open>run\<close> without a fault, whatever the other threads do besides.
\<close>

theorem stopped_loop_returns:
  assumes "reactor_inv r" "idle r" "env_ok env"
    and "run_of (conc_step env) \<sigma>" "\<sigma> 0 = conc_start env r" "weakly_fair (loop_agent env) \<sigma>"
    and "\<not> running (mem (\<sigma> n))" "\<forall>m \<ge> n. taken_in (\<sigma> m) = taken_in (\<sigma> n)"
  shows "\<exists>m \<ge> n. loop (\<sigma> m) = LDone \<and> conc_fault (\<sigma> m) = None"
proof -
  have ok: "conc_ok env (run_start env r) (\<sigma> m)" for m by (rule conc_ok_run [OF assms(4,5,1,2,3)])
  have run: "run_of (\<lambda>s s'. conc_step env s s' \<and> taken_in s' = taken_in s) (\<lambda>m. \<sigma> (n + m))"
    by (rule run_of_suffix [OF assms(4)]) (use assms(8) le_SucI in metis)
  have "stopping env (run_start env r) (\<sigma> (n + 0))" using ok assms(7) by (simp add: stopping_def)
  from returning.reaches [OF run weakly_fair_suffix [OF assms(6)] this] obtain m where "loop (\<sigma> (n + m)) = LDone" by blast
  moreover have "conc_fault (\<sigma> (n + m)) = None" using ok [of "n + m"] by (simp add: conc_ok_def conc_invs)
  ultimately show ?thesis by (intro exI [of _ "n + m"]) simp
qed

text \<open>
  C15. The queue is emptied before the flag is tested: one producer that keeps sending, however
  fair the scheduler is to the loop, keeps a stopped loop from ever returning, and keeps
  every BACKGROUND frame from its handler.
\<close>

theorem sustained_load_starves:
  assumes "reactor_inv r" "idle r" "env_ok env"
    and "ctx \<in> set (contexts (run_start env r))" "ctx_priority ctx = NORMAL" "admissible env smp"
  shows "\<exists>\<sigma>. run_of (conc_step env) \<sigma> \<and> \<sigma> 0 = conc_start env r \<and> weakly_fair (loop_agent env) \<sigma> \<and>
     (\<exists>n. \<forall>m \<ge> n. \<not> running (mem (\<sigma> m)) \<and> loop (\<sigma> m) \<noteq> LDone \<and> rights (handled (\<sigma> m)) = [])"
proof -
  let ?s0 = "conc_start env r"
  obtain s3 where path: "(conc_step env)\<^sup>*\<^sup>* ?s0 (feed_run env ctx smp s3 0)" and fed: "fed env (run_start env r) ctx smp 0 s3"
    using feed_start [OF assms(1-4)] by auto
  from run_from_path [OF path feed_run_runs [OF fed assms(6,5)]] obtain \<rho> k where
    \<rho>: "run_of (conc_step env) \<rho>" "weakly_fair (loop_agent env) \<rho>" "\<rho> 0 = ?s0" "\<forall>n. \<rho> (k + n) = feed_run env ctx smp s3 n"
    by blast
  have "\<not> running (mem (\<rho> m)) \<and> loop (\<rho> m) \<noteq> LDone \<and> rights (handled (\<rho> m)) = []" if "m \<ge> k" for m
  proof -
    have "\<rho> m = feed_run env ctx smp s3 (m - k)" using \<rho>(4) that by (metis le_add_diff_inverse)
    then show ?thesis using feed_run_fed [OF fed assms(6,5), of "m - k"] by (auto simp: fed_def split: if_splits)
  qed
  with \<rho> show ?thesis by blast
qed

subsection \<open>Witnesses\<close>

definition one_topic :: "nat reactor" where
  "one_topic = register_handler ''n'' NORMAL 1 (reactor_new ''l'' 5 0)"

definition one_ctx :: CallbackContext where
  "one_ctx = \<lparr>ctx_handler_hash = fnv1a_hash ''n'', ctx_priority = NORMAL, ctx_wakeup_fd = 5\<rparr>"

definition one_sample :: z_sample where
  "one_sample = \<lparr>z_keyexpr = ''n'', z_payload = [1], z_delete = False\<rparr>"

lemma one_topic_ok: "reactor_inv one_topic" "idle one_topic"
proof -
  show inv: "reactor_inv one_topic" unfolding one_topic_def by (intro register_handler_inv reactor_new_inv)
  show "idle one_topic"
    using mpsc_new_inv(2) [of 9, where 'a = CriticalSample]
    by (simp add: idle_def one_topic_def register_handler_def reactor_new_def Let_def waiting_def)
qed

lemma one_topic_ctx: "one_ctx \<in> set (contexts (run_start waking_env one_topic))" "admissible waking_env one_sample"
   "ctx_priority one_ctx = NORMAL"
  by (simp_all add: one_topic_def one_ctx_def one_sample_def admissible_def register_handler_def reactor_new_def Let_def
      run_start_def subscribe_def subscribe_liveliness_def arm_poll_eventfd_def pre_allocate_handlers_def io_def spdlog_def
      waking_env_def sample_env_def)

theorem sustained_load_starves_witness:
  "\<exists>\<sigma>. run_of (conc_step waking_env) \<sigma> \<and> \<sigma> 0 = conc_start waking_env one_topic \<and> weakly_fair (loop_agent waking_env) \<sigma> \<and>
     (\<exists>n. \<forall>m \<ge> n. \<not> running (mem (\<sigma> m)) \<and> loop (\<sigma> m) \<noteq> LDone)"
  using sustained_load_starves [OF one_topic_ok waking_env_ok(1) one_topic_ctx(1,3,2)] by blast

lemma loop_run_running: "running (mem (loop_run env s n)) = running (mem s)"
  by (induction n) (simp_all add: loop_step_running)

lemma loop_run_taken: "taken_in (loop_run env s n) = taken_in s"
  by (induction n) (simp_all add: loop_step_taken)

theorem stopped_loop_returns_witness:
  "\<exists>n. loop (loop_run waking_env (stop_store 0 (conc_start waking_env one_topic)) n) = LDone"
proof -
  let ?s = "conc_start waking_env one_topic"
  let ?\<sigma> = "case_nat ?s (loop_run waking_env (stop_store 0 ?s))"
  have run: "run_of (conc_step waking_env) ?\<sigma>"
    by (rule run_of_Cons [OF _ loop_run_runs(1)]) (simp add: stop_enters conc_start_def)
  have fair: "weakly_fair (loop_agent waking_env) ?\<sigma>" by (rule weakly_fair_Cons [OF loop_run_runs(2)])
  have "\<exists>m \<ge> 1. loop (?\<sigma> m) = LDone \<and> conc_fault (?\<sigma> m) = None"
    by (rule stopped_loop_returns [OF one_topic_ok waking_env_ok(1) run _ fair])
       (auto simp: loop_run_taken split: nat.split)
  then obtain m where m: "1 \<le> m" "loop (?\<sigma> m) = LDone" by blast
  then show ?thesis by (cases m) auto
qed

text \<open>One callback with one sample, up to its push or put, then the loop on its own.\<close>

definition one_sample_run :: "env \<Rightarrow> 'cb reactor \<Rightarrow> CallbackContext \<Rightarrow> z_sample \<Rightarrow> nat \<Rightarrow> 'cb conc" where
  "one_sample_run env r ctx smp =
     (let s1 = set_thread 1 (Tracking ctx smp) (conc_start env r);
          s2 = thread_step env 1 s1 (pcs s1 1);
          s3 = thread_step env 1 s2 (pcs s2 1)
      in case_nat (conc_start env r) (case_nat s1 (case_nat s2 (loop_run env s3))))"

lemma one_sample_run:
  assumes "reactor_inv r" "idle r" "ctx \<in> set (contexts (run_start env r))" "admissible env smp"
  shows "run_of (conc_step env) (one_sample_run env r ctx smp)" "weakly_fair (loop_agent env) (one_sample_run env r ctx smp)"
    "one_sample_run env r ctx smp 0 = conc_start env r" "\<forall>m. running (mem (one_sample_run env r ctx smp m))"
    "pcs (one_sample_run env r ctx smp 2) 1 = Sending ctx smp"
    "one_sample_run env r ctx smp (Suc 2) = thread_step env 1 (one_sample_run env r ctx smp 2) (pcs (one_sample_run env r ctx smp 2) 1)"
    "queue_list (critical_queue (mem (one_sample_run env r ctx smp 2))) = []" "taken_in (one_sample_run env r ctx smp 2) = []"
    "m \<ge> 3 \<Longrightarrow> taken_in (one_sample_run env r ctx smp m) = taken_in (one_sample_run env r ctx smp 3)"
proof -
  let ?init = "conc_start env r"
  define s1 where "s1 = set_thread 1 (Tracking ctx smp) ?init"
  define s2 where "s2 = thread_step env 1 s1 (pcs s1 1)"
  define s3 where "s3 = thread_step env 1 s2 (pcs s2 1)"
  have \<sigma>: "one_sample_run env r ctx smp = case_nat ?init (case_nat s1 (case_nat s2 (loop_run env s3)))"
    by (simp only: one_sample_run_def Let_def s1_def s2_def s3_def)
  have pcs: "pcs s1 1 = Tracking ctx smp" "pcs s2 1 = Sending ctx smp" by (simp_all add: s1_def s2_def)
  have st1: "conc_step env ?init s1"
    unfolding s1_def by (rule callback_enters) (use assms(3,4) in \<open>simp_all add: conc_start_def\<close>)
  have st2: "conc_step env s1 s2" unfolding s2_def by (rule thread_moves) (simp only: pcs, simp)
  have st3: "conc_step env s2 s3" unfolding s3_def by (rule thread_moves) (simp only: pcs, simp)
  show "run_of (conc_step env) (one_sample_run env r ctx smp)"
    unfolding \<sigma> by (intro run_of_Cons loop_run_runs) (simp_all add: st1 st2 st3)
  show "weakly_fair (loop_agent env) (one_sample_run env r ctx smp)"
    unfolding \<sigma> by (intro weakly_fair_Cons loop_run_runs)
  have r0: "running (mem ?init)" using run_start_spec(2) [OF assms(1)] by (simp add: conc_start_def)
  then have "running (mem s1)" "running (mem s2)" "running (mem s3)"
    by (simp_all add: s1_def s2_def s3_def thread_step_running del: thread_step.simps)
  with r0 show "\<forall>m. running (mem (one_sample_run env r ctx smp m))" by (auto simp: \<sigma> loop_run_running split: nat.split)
  have at: "one_sample_run env r ctx smp 2 = s2" "one_sample_run env r ctx smp (Suc 2) = s3" by (simp_all add: \<sigma> numeral_2_eq_2)
  show "pcs (one_sample_run env r ctx smp 2) 1 = Sending ctx smp" unfolding at by (rule pcs(2))
  show "one_sample_run env r ctx smp (Suc 2) = thread_step env 1 (one_sample_run env r ctx smp 2) (pcs (one_sample_run env r ctx smp 2) 1)"
    unfolding at by (rule s3_def)
  show "queue_list (critical_queue (mem (one_sample_run env r ctx smp 2))) = []"
    using assms(2) run_start_idle(1) [OF assms(1), of env] core_track(1) [of "run_start env r" env smp]
    by (simp add: at s2_def s1_def conc_start_def idle_def same_core_def)
  show "taken_in (one_sample_run env r ctx smp 2) = []" by (simp add: at s2_def s1_def conc_start_def)
  show "one_sample_run env r ctx smp 0 = ?init" by (simp add: \<sigma>)
  show "taken_in (one_sample_run env r ctx smp m) = taken_in (one_sample_run env r ctx smp 3)" if "m \<ge> 3"
    using that by (auto simp: \<sigma> eval_nat_numeral loop_run_taken split: nat.split)
qed

theorem every_taken_sample_is_handled_witness:
  "\<exists>\<sigma> m. run_of (conc_step waking_env) \<sigma> \<and> \<sigma> 0 = conc_start waking_env one_topic \<and> weakly_fair (loop_agent waking_env) \<sigma> \<and>
     length (taken_in (\<sigma> 3)) = 1 \<and> 0 < length (lefts (handled (\<sigma> m)))"
proof -
  let ?\<sigma> = "one_sample_run waking_env one_topic one_ctx one_sample"
  note run = one_sample_run [OF one_topic_ok one_topic_ctx(1,2)]
  have "conc_ok waking_env (run_start waking_env one_topic) (?\<sigma> 2)" by (rule conc_ok_run [OF run(1,3) one_topic_ok waking_env_ok(1)])
  from send_taken [OF this run(5)] have "length (taken_in (?\<sigma> (Suc 2))) = 1"
    using run(7,8) one_topic_ctx(3) by (simp only: run(6)) simp
  then have taken: "length (taken_in (?\<sigma> 3)) = 1" by simp
  then have "\<exists>m \<ge> 3. 0 < length (lefts (handled (?\<sigma> m)))"
    using every_taken_sample_is_handled [OF one_topic_ok waking_env_ok(1) run(1,3,2,4), of 0 3] by auto
  with run(1,2,3) taken show ?thesis by blast
qed

end
