(* ===== verification/Message_Types.thy ===== *)
theory Message_Types
  imports Reactor_Liveness
begin

text \<open>
  What a handler may rely on. The callback of \<^verbatim>\<open>main\<close> reads its buffer with
  \<^verbatim>\<open>GetRobotMessage\<close>, which is only defined on a verified message, and trusts the
  priority it captured. So every buffer in the queue, in a slot, in the loop's hands and in
  a call is typed: a verified message, of a topic of the right kind.
\<close>

definition message :: "env \<Rightarrow> bytes \<Rightarrow> bool" where
  "message env data \<longleftrightarrow> data \<noteq> [] \<and> verify_message env data"

definition topic_of :: "'cb reactor \<Rightarrow> u64 \<Rightarrow> bool \<Rightarrow> bool" where
  "topic_of b hash bg \<longleftrightarrow> (\<exists>h \<in> set (handlers b). path_hash h = hash \<and> (priority h = BACKGROUND \<longleftrightarrow> bg))"

definition sample_typed :: "env \<Rightarrow> 'cb reactor \<Rightarrow> CriticalSample \<Rightarrow> bool" where
  "sample_typed env b cs \<longleftrightarrow> message env (cs_payload cs) \<and> topic_of b (cs_handler_hash cs) False"

definition frame_typed :: "env \<Rightarrow> 'cb reactor \<Rightarrow> sample \<Rightarrow> bool" where
  "frame_typed env b f \<longleftrightarrow> message env (fst (snd f)) \<and> topic_of b (fst f) True"

definition slots_typed :: "env \<Rightarrow> 'cb reactor \<Rightarrow> latest_cache \<Rightarrow> bool" where
  "slots_typed env b c \<longleftrightarrow> (\<forall>k sl. view c k = Some sl \<longrightarrow> has_data sl \<longrightarrow> message env (payload sl) \<and> topic_of b k True)"

definition typed :: "env \<Rightarrow> 'cb reactor \<Rightarrow> 'cb conc \<Rightarrow> bool" where
  "typed env b s \<longleftrightarrow>
     (\<forall>t ctx smp. pcs s t = Tracking ctx smp \<or> pcs s t = Sending ctx smp \<longrightarrow> admissible env smp) \<and>
     (\<forall>x \<in> set (taken_in s). sample_typed env b (fst x)) \<and>
     slots_typed env b (background_cache (mem s)) \<and>
     (\<forall>f \<in> set (rights (handled s) @ frame_in_hand (loop s)). frame_typed env b f)"

subsection \<open>Every step keeps the types\<close>

lemma typed_same:
  assumes "typed env b s" "background_cache (mem s') = background_cache (mem s)" "taken_in s' = taken_in s"
    and "rights (handled s') @ frame_in_hand (loop s') = rights (handled s) @ frame_in_hand (loop s)"
    and "\<And>t. pcs s' t = pcs s t \<or> pcs s' t = Outside \<or> (\<exists>fd. pcs s' t = Waking fd) \<or>
           (\<exists>ctx smp. pcs s t = Tracking ctx smp \<and> pcs s' t = Sending ctx smp)"
  shows "typed env b s'"
proof -
  have "admissible env smp" if "pcs s' t = Tracking ctx smp \<or> pcs s' t = Sending ctx smp" for t ctx smp
    using assms(5) [of t] that assms(1) unfolding typed_def by (metis thread_pc.distinct thread_pc.inject)
  then show ?thesis using assms(1) by (simp add: typed_def assms(2-4))
qed

lemma drain_typed:
  assumes "typed env b s" "conc_ok env b s" "loop s = LDrain n (hash # ord)"
  shows "typed env b (drain_step n hash ord s)"
proof -
  have fi: "frames_inv (mem s)" using assms(2) by (simp add: conc_ok_def conc_invs reactor_inv_def)
  then have "cache_inv (background_cache (mem s))" by (simp add: frames_inv_def)
  then show ?thesis
  proof (cases rule: take_slot_cases [where h = hash])
    case no_slot
    then show ?thesis by (intro typed_same [OF assms(1)]) (simp_all add: drain_step_def assms(3))
  next
    case (slot sl c')
    have slots: "slots_typed env b c'" using assms(1) slot(3) by (auto simp: slots_typed_def typed_def take_sample_simps)
    have held: "handler_hash sl = hash \<and> message env (payload sl) \<and> topic_of b hash True" if "has_data sl"
      using fi slot(1) that assms(1) by (auto simp: frames_inv_def typed_def slots_typed_def)
    show ?thesis
    proof (cases "has_data sl")
      case True
      then show ?thesis
        using slots held slot(2) assms(1,3)
        by (simp add: typed_def drain_step_def Let_def take_sample_simps held_frame_def frame_typed_def)
    next
      case False
      then show ?thesis
        using slots slot(2) assms(1,3) by (simp add: typed_def drain_step_def Let_def take_sample_simps held_frame_def)
    qed
  qed
qed

lemma loop_typed:
  assumes "typed env b s" "conc_ok env b s"
  shows "typed env b (loop_step env s (loop s))"
proof (cases "\<exists>n h ord. loop s = LDrain n (h # ord)")
  case True
  then show ?thesis using drain_typed [OF assms] by auto
next
  case False
  then show ?thesis
    using loop_step_cache [OF assms(2)] loop_frames_handled [OF assms(2) refl]
    by (intro typed_same [OF assms(1)]) (simp_all add: loop_step_taken loop_step_pcs)
qed

lemma context_topic: "subscribed b ctx \<Longrightarrow> topic_of b (ctx_handler_hash ctx) (ctx_priority ctx = BACKGROUND)"
  by (auto simp: subscribed_def ctx_ok_def topic_of_def)

lemma send_typed:
  assumes "typed env b s" "conc_ok env b s" "pcs s t = Sending ctx smp"
  shows "typed env b (send_step env t ctx smp s)"
proof -
  note ctx = sending_context [OF assms(2,3)] and topic = context_topic [OF sending_context(2) [OF assms(2,3)]]
  have msg: "message env (z_payload smp)" using assms(1,3) by (auto simp: typed_def admissible_def message_def)
  show ?thesis
  proof (cases "ctx_priority ctx = BACKGROUND")
    case True
    obtain r' sl u where r': "cache_sample env ctx (z_payload smp) (mem s) = Inr r'"
      "view (background_cache r') = (view (background_cache (mem s)))(ctx_handler_hash ctx \<mapsto> put (ctx_handler_hash ctx) (z_payload smp) u sl)"
      by (rule cache_sample_effect [OF ctx(4,3) True])
    then have "slots_typed env b (background_cache r')"
      using assms(1) topic True msg by (auto simp: slots_typed_def typed_def put_def count_overwrite_def)
    then show ?thesis using assms(1) r'(1) True by (auto simp: typed_def send_step_def Let_def)
  next
    case False
    from ctx(4,5) show ?thesis
    proof (cases rule: push_sample_cases [where env = env and buf = "z_payload smp"])
      case (accept r')
      have "sample_typed env b (new_sample env ctx (z_payload smp) (mem s))"
        using topic False msg by (simp add: sample_typed_def new_sample_def)
      then show ?thesis using assms(1) accept False by (auto simp: typed_def send_step_def Let_def)
    next
      case (reject r')
      then show ?thesis using assms(1) False by (auto simp: typed_def send_step_def Let_def cache_kept)
    qed
  qed
qed

lemma typed_step:
  assumes "conc_step env s s'" "typed env b s" "conc_ok env b s"
  shows "typed env b s'"
  using assms(1)
proof cases
  case loop_moves
  then show ?thesis using loop_typed [OF assms(2,3)] by simp
next
  case (callback_enters t ctx smp)
  then show ?thesis using assms(2) by (auto simp: typed_def)
next
  case (thread_moves t)
  show ?thesis
  proof (cases "pcs s t")
    case (Sending ctx smp)
    then show ?thesis using thread_moves send_typed [OF assms(2,3)] by simp
  qed (use thread_moves in \<open>intro typed_same [OF assms(2)]; auto simp: cache_kept io_def\<close>)+
next
  case (stop_enters t)
  then show ?thesis by (intro typed_same [OF assms(2)]) (auto simp: stop_store_def)
next
  case liveliness_changes
  then show ?thesis by (intro typed_same [OF assms(2)]) (simp_all add: cache_kept)
next
  case (stats_reset r)
  then show ?thesis using core_reset by (intro typed_same [OF assms(2)]) (auto simp: same_core_def)
qed

lemma typed_start:
  assumes "reactor_inv r" "idle r"
  shows "typed env (run_start env r) (conc_start env r)"
proof -
  have "view (background_cache (run_start env r)) k = Some sl \<Longrightarrow> \<not> has_data sl" for k sl
    using run_start_idle(4) [OF assms(1), of env] assms(2) by (auto simp: idle_def waiting_def)
  then show ?thesis by (auto simp: typed_def conc_start_def slots_typed_def)
qed

lemma reachable_typed:
  assumes "conc_reachable env r s" "reactor_inv r" "idle r" "env_ok env"
  shows "typed env (run_start env r) s \<and> conc_ok env (run_start env r) s"
  using assms(1)
proof induction
  case conc_begin
  show ?case using typed_start [OF assms(2,3)] conc_ok_start [OF assms(2-4)] by simp
next
  case (conc_next s s')
  then show ?case using typed_step conc_ok_step by blast
qed

lemma typed_target:
  assumes "handlers_inv b" "topic_of b k bg"
  shows "target b k \<in> set (handlers b)"
    and "distinct (map path_hash (handlers b)) \<Longrightarrow> priority (target b k) = BACKGROUND \<longleftrightarrow> bg"
proof -
  obtain h where h: "h \<in> set (handlers b)" "path_hash h = k" "priority h = BACKGROUND \<longleftrightarrow> bg"
    using assms(2) by (auto simp: topic_of_def)
  then obtain i where i: "handler_index b k = Some i"
    using assms(1) first_index_None [of k "handlers b"] by (cases "handler_index b k") (auto simp: handlers_inv_def)
  note v = handler_index_valid [OF assms(1) i]
  show "target b k \<in> set (handlers b)" using v(1,2) by (metis nth_mem)
  assume "distinct (map path_hash (handlers b))"
  then have "target b k = h" using target_unique [OF assms(1) _ h(1)] h(2) by simp
  then show "priority (target b k) = BACKGROUND \<longleftrightarrow> bg" using h(3) by simp
qed

subsection \<open>Property\<close>

text \<open>
  C7. Under every interleaving each buffer a handler is called with is a message the verifier
  accepted, and the handler is a registered one; when no two topics have the same hash,
  queued samples only reach CRITICAL and NORMAL handlers, and latest-only frames only
  BACKGROUND ones.
\<close>

theorem handlers_get_verified_messages:
  assumes "reactor_inv r" "idle r" "env_ok env" "conc_reachable env r s"
  shows "calls (mem s) = calls r @ map (handled_call r) (handled s) \<and>
    (\<forall>(cb, data) \<in> set (map (handled_call r) (handled s)).
       data \<noteq> [] \<and> verify_message env data \<and> (\<exists>h \<in> set (handlers r). callback h = cb)) \<and>
    (distinct (map path_hash (handlers r)) \<longrightarrow>
       (\<forall>cs \<in> set (lefts (handled s)). priority (target r (cs_handler_hash cs)) \<noteq> BACKGROUND) \<and>
       (\<forall>f \<in> set (rights (handled s)). priority (target r (fst f)) = BACKGROUND))"
proof -
  let ?b = "run_start env r"
  have ty: "typed env ?b s" and ok: "conc_ok env ?b s" using reachable_typed [OF assms(4,1-3)] by simp_all
  have b: "target ?b = target r" "handlers ?b = handlers r" "calls ?b = calls r" "handled_call ?b = handled_call r"
    using run_start_same [of env r] run_start_idle(2) [OF assms(1), of env] by simp_all
  have hi: "handlers_inv r" using assms(1) by (simp add: reactor_inv_def)
  have sam: "sample_typed env r cs" if "cs \<in> set (lefts (handled s))" for cs
  proof -
    have "map fst (taken_in s) = lefts (handled s) @ in_hand (loop s) @ queue_list (critical_queue (mem s))"
      using ok by (simp add: conc_ok_def conc_invs)
    then have "cs \<in> fst ` set (taken_in s)" using that by (metis UnI1 set_append set_map)
    then show ?thesis using ty b(2) by (auto simp: typed_def sample_typed_def topic_of_def)
  qed
  have fra: "frame_typed env r f" if "f \<in> set (rights (handled s))" for f
    using that ty b(2) by (auto simp: typed_def frame_typed_def topic_of_def)
  have call: "snd (handled_call r x) \<noteq> [] \<and> verify_message env (snd (handled_call r x)) \<and>
      (\<exists>h \<in> set (handlers r). callback h = fst (handled_call r x))" if "x \<in> set (handled s)" for x
  proof (cases x)
    case (Inl cs)
    then have "sample_typed env r cs" using sam that by (simp add: in_lefts)
    then show ?thesis using typed_target(1) [OF hi] Inl
      by (auto simp: handled_call_def queued_call_def sample_typed_def message_def)
  next
    case (Inr f)
    then have "frame_typed env r f" using fra that by (simp add: in_rights)
    then show ?thesis using typed_target(1) [OF hi] Inr
      by (cases f) (auto simp: handled_call_def frame_call_def frame_typed_def message_def)
  qed
  have "calls (mem s) = calls r @ map (handled_call r) (handled s)"
    using ok b(3,4) by (simp add: conc_ok_def conc_invs)
  moreover have "\<forall>(cb, data) \<in> set (map (handled_call r) (handled s)).
       data \<noteq> [] \<and> verify_message env data \<and> (\<exists>h \<in> set (handlers r). callback h = cb)"
    using call by (auto simp: split_beta)
  moreover have "(\<forall>cs \<in> set (lefts (handled s)). priority (target r (cs_handler_hash cs)) \<noteq> BACKGROUND) \<and>
       (\<forall>f \<in> set (rights (handled s)). priority (target r (fst f)) = BACKGROUND)" if "distinct (map path_hash (handlers r))"
    using sam fra typed_target(2) [OF hi _ that] unfolding sample_typed_def frame_typed_def by blast
  ultimately show ?thesis by blast
qed

text \<open>A sample of the one topic reaches its handler.\<close>

lemma path_reachable: "(conc_step env)\<^sup>*\<^sup>* s s' \<Longrightarrow> conc_reachable env r s \<Longrightarrow> conc_reachable env r s'"
  by (induction rule: rtranclp_induct) (auto intro: conc_next)

theorem handlers_get_verified_messages_witness:
  "\<exists>s cs. conc_reachable waking_env one_topic s \<and> handled_call one_topic (Inl cs) \<in> set (calls (mem s)) \<and> cs_payload cs \<noteq> []"
proof -
  let ?run = "feed_run waking_env one_ctx one_sample"
  obtain s where s: "(conc_step waking_env)\<^sup>*\<^sup>* (conc_start waking_env one_topic) s"
    "fed waking_env (run_start waking_env one_topic) one_ctx one_sample 0 s"
    using feed_start [OF one_topic_ok waking_env_ok(1) one_topic_ctx(1)] by blast
  note fd = feed_run_fed [OF s(2) one_topic_ctx(2,3)]
  have "conc_reachable waking_env one_topic (?run s n)" for n
  proof (induction n)
    case 0
    then show ?case using path_reachable [OF s(1) conc_begin] by simp
  next
    case (Suc n)
    then show ?case using conc_next [OF Suc feed_step(1) [OF fd _ one_topic_ctx(2,3)]] by simp
  qed
  then have r5: "conc_reachable waking_env one_topic (?run s 5)" by blast
  obtain c n cs where pc: "loop (?run s 4) = LCall c n cs" using fd [of 4] by (auto simp: fed_def)
  have "conc_ok waking_env (run_start waking_env one_topic) (?run s 4)" using fd [of 4] by (simp add: fed_def)
  from loop_handled [OF this refl] pc have "lefts (handled (?run s 5)) = lefts (handled (?run s 4)) @ [cs]"
    using feed_run.simps(2) [of waking_env one_ctx one_sample s 4] by (simp add: feed_def)
  then have "Inl cs \<in> set (handled (?run s 5))" using in_lefts by (metis in_set_conv_decomp)
  with handlers_get_verified_messages [OF one_topic_ok waking_env_ok(1) r5] r5 show ?thesis
    by (intro exI [of _ "?run s 5"] exI [of _ cs]) (force simp: handled_call_def queued_call_def)
qed

end
