(* ===== verification/Frame_Liveness.thy ===== *)
theory Frame_Liveness
  imports Reactor_Liveness
begin

text \<open>
  BACKGROUND frames under a fair scheduler: when the load on the queue pauses, every topic
  that holds a frame gets one to its handler.
\<close>

subsection \<open>A held frame stays until the loop takes it\<close>

definition held_at :: "u64 \<Rightarrow> 'cb conc \<Rightarrow> bool" where
  "held_at k s \<longleftrightarrow> (\<exists>sl. view (background_cache (mem s)) k = Some sl \<and> has_data sl)"

text \<open>The loop's step on the slots.\<close>

lemma drain_held:
  assumes "conc_ok env b s" "loop s = LDrain n (h # ord)" "held_at k s"
  shows "if h = k then \<exists>f. loop (loop_step env s (loop s)) = LFrame n ord f \<and> fst f = k
         else held_at k (loop_step env s (loop s))"
proof -
  have fi: "frames_inv (mem s)" using assms(1) by (simp add: conc_ok_def conc_invs reactor_inv_def)
  then have c: "cache_inv (background_cache (mem s))" by (simp add: frames_inv_def)
  from c show ?thesis
  proof (cases rule: take_slot_cases [where h = h])
    case no_slot
    have "view (background_cache (mem s)) h = None" using no_slot(2) view_slots [OF c] by (metis option.exhaust)
    then show ?thesis using no_slot assms(2,3) by (auto simp: drain_step_def held_at_def)
  next
    case (slot sl c')
    have hh: "handler_hash sl = h" if "has_data sl" using fi slot(1) that by (auto simp: frames_inv_def)
    then show ?thesis using slot assms(2,3)
      by (cases "has_data sl") (auto simp: drain_step_def Let_def take_sample_simps held_frame_def held_at_def)
  qed
qed

lemma loop_held:
  assumes "conc_ok env b s" "held_at k s" "\<And>n ord. loop s \<noteq> LDrain n (k # ord)"
  shows "held_at k (loop_step env s (loop s))"
proof (cases "\<exists>n h ord. loop s = LDrain n (h # ord)")
  case True
  then show ?thesis using drain_held [OF assms(1) _ assms(2)] assms(3) by metis
next
  case False
  then show ?thesis using loop_step_cache(1) [OF assms(1)] assms(2) by (simp add: held_at_def)
qed

text \<open>Nobody else takes a frame; a put leaves a newer one.\<close>

lemma other_held:
  assumes "conc_step env s s'" "loop s' = loop s" "handled s' = handled s" "conc_ok env b s" "held_at k s"
  shows "held_at k s' \<or> loop_only env s s'"
  using assms(1)
proof cases
  case (thread_moves t)
  show ?thesis
  proof (cases "pcs s t")
    case (Sending ctx smp)
    note ctx = sending_context [OF assms(4) Sending]
    show ?thesis
    proof (cases "ctx_priority ctx = BACKGROUND")
      case True
      obtain r' sl u where "cache_sample env ctx (z_payload smp) (mem s) = Inr r'"
        "view (background_cache r') = (view (background_cache (mem s)))(ctx_handler_hash ctx \<mapsto> put (ctx_handler_hash ctx) (z_payload smp) u sl)"
        by (rule cache_sample_effect [OF ctx(4,3) True])
      then show ?thesis using assms(5) thread_moves Sending True
        by (auto simp: held_at_def send_step_def Let_def put_def)
    next
      case False
      from ctx(4,5) show ?thesis
        by (cases rule: push_sample_cases [where env = env and buf = "z_payload smp"])
           (use False thread_moves Sending assms(5) in \<open>simp_all add: held_at_def send_step_def Let_def cache_kept\<close>)
    qed
  qed (use thread_moves assms(5) in \<open>simp_all add: held_at_def cache_kept io_def\<close>)
next
  case (stats_reset r)
  then show ?thesis using core_reset [OF stats_reset(2)] assms(5) by (simp add: held_at_def same_core_def)
qed (use assms(5) in \<open>simp_all add: held_at_def stop_store_def cache_kept loop_only_def\<close>)

subsection \<open>How far the loop is from the slot\<close>

text \<open>With \<open>w\<close> samples waiting and \<open>n\<close> slots, an upper bound of the steps to the slot of \<open>k\<close>.\<close>

fun to_slot :: "u64 \<Rightarrow> nat \<Rightarrow> nat \<Rightarrow> loop_pc \<Rightarrow> nat" where
  "to_slot k w n (LFrame c ord f) = (if fst f = k then 0 else 2 * length ord + 1 + (if k \<in> set ord then 0 else 2 * n + 9 + 2 * w))"
| "to_slot k w n (LDrain c ord) = 2 * length ord + (if k \<in> set ord then 0 else 2 * n + 9 + 2 * w)"
| "to_slot k w n LTotals = 2 * n + 8 + 2 * w" | "to_slot k w n LWait = 2 * n + 7 + 2 * w"
| "to_slot k w n LRead = 2 * n + 6 + 2 * w" | "to_slot k w n LSeen = 2 * n + 5 + 2 * w"
| "to_slot k w n LArm = 2 * n + 4 + 2 * w" | "to_slot k w n LCheck = 2 * n + 3 + 2 * w"
| "to_slot k w n LSync = 2 * n + 2 + 2 * w" | "to_slot k w n (LPop c m) = 2 * n + 1 + 2 * w"
| "to_slot k w n (LCall c m cs) = 2 * n + 2 * w" | "to_slot k w n LDone = 0"

definition frame_rank :: "u64 \<Rightarrow> 'cb conc \<Rightarrow> nat" where
  "frame_rank k s = to_slot k (length (taken_in s) - length (lefts (handled s))) (card (dom (slots (background_cache (mem s))))) (loop s)"

definition frame_waits :: "env \<Rightarrow> 'cb reactor \<Rightarrow> u64 \<Rightarrow> nat \<Rightarrow> 'cb conc \<Rightarrow> bool" where
  "frame_waits env b k c s \<longleftrightarrow>
     conc_ok env b s \<and> running (mem s) \<and> loop s \<noteq> LDone \<and> frames_for k (rights (handled s)) = c \<and>
     (held_at k s \<or> (\<exists>f \<in> set (frame_in_hand (loop s)). fst f = k))"

definition frame_handled :: "u64 \<Rightarrow> nat \<Rightarrow> 'cb conc \<Rightarrow> bool" where
  "frame_handled k c s \<longleftrightarrow> c < frames_for k (rights (handled s))"

lemma slot_visited:
  assumes "conc_ok env b s" "held_at k s"
  shows "k \<in> set (slot_order env (background_cache (mem s)))"
proof -
  have c: "cache_inv (background_cache (mem s))" using assms(1) by (simp add: conc_ok_def conc_invs reactor_inv_def frames_inv_def)
  then have "iterates (slot_order env (background_cache (mem s))) (background_cache (mem s))"
    using assms(1) by (simp add: conc_ok_def env_ok_def)
  moreover have "slots (background_cache (mem s)) k \<noteq> None"
    using assms(2) view_slots [OF c] by (metis held_at_def option.distinct(1))
  ultimately show ?thesis by (auto simp: iterates_def)
qed

lemma loop_lowers_frame:
  assumes "frame_waits env b k c s"
  shows "frame_handled k c (loop_step env s (loop s)) \<or>
    frame_rank k (loop_step env s (loop s)) < frame_rank k s \<and> loop (loop_step env s (loop s)) \<noteq> LDone \<and>
    frame_waits env b k c (loop_step env s (loop s))"
proof -
  let ?s = "loop_step env s (loop s)"
  have ok: "conc_ok env b s" and run: "running (mem s)" and nd: "loop s \<noteq> LDone"
    and cnt: "frames_for k (rights (handled s)) = c"
    using assms by (simp_all add: frame_waits_def)
  have ok': "conc_ok env b ?s" by (rule conc_ok_step [OF ok loop_moves [OF nd]])
  have sl: "slots (background_cache (mem ?s)) = slots (background_cache (mem s))"
    using conc_ok_slots [OF ok'] conc_ok_slots [OF ok] by simp
  note nxt = loop_next [OF ok refl] and hnd = loop_handled [OF ok refl] and frm = loop_frames_handled [OF ok refl]
    and tk = loop_step_taken [of env s]
  have wait: "length (taken_in s) - length (lefts (handled s)) = length (in_hand (loop s)) + length (queue_list (critical_queue (mem s)))"
    by (rule samples_waiting [OF ok])
  show ?thesis
  proof (cases "\<exists>f \<in> set (frame_in_hand (loop s)). fst f = k")
    case True
    then have "frame_handled k c ?s" using frm cnt by (cases "loop s") (auto simp: frame_handled_def)
    then show ?thesis ..
  next
    case False
    then have held: "held_at k s" using assms by (auto simp: frame_waits_def)
    have cnt': "frames_for k (rights (handled ?s)) = c" using frm cnt False by (cases "loop s") auto
    have "frame_rank k ?s < frame_rank k s \<and> loop ?s \<noteq> LDone \<and> (held_at k ?s \<or> (\<exists>f \<in> set (frame_in_hand (loop ?s)). fst f = k))"
    proof (cases "\<exists>n ord. loop s = LDrain n (k # ord)")
      case True
      then obtain n ord where pc: "loop s = LDrain n (k # ord)" by blast
      from drain_held [OF ok pc held] obtain f where "loop ?s = LFrame n ord f" "fst f = k" by auto
      then show ?thesis by (simp add: frame_rank_def pc)
    next
      case other: False
      then have held': "held_at k ?s" using loop_held [OF ok held] by blast
      have "frame_rank k ?s < frame_rank k s \<and> loop ?s \<noteq> LDone"
      proof (cases "loop s")
        case (LPop c n)
        then show ?thesis
          using nxt hnd tk sl slot_order_length [OF ok] slot_visited [OF ok held]
          by (cases "queue_list (critical_queue (mem s)) = []") (auto simp: frame_rank_def)
      next
        case (LCall c n cs)
        then show ?thesis using nxt hnd tk sl wait by (auto simp: frame_rank_def)
      next
        case (LDrain n ord)
        then show ?thesis using nxt hnd tk sl other by (cases ord) (auto simp: frame_rank_def)
      next
        case (LFrame n ord f)
        then show ?thesis using nxt hnd tk sl False by (auto simp: frame_rank_def)
      qed (use nxt hnd tk sl run nd in \<open>auto simp: frame_rank_def\<close>)
      with held' show ?thesis by blast
    qed
    then show ?thesis using ok' cnt' loop_step_running [of env s] run by (auto simp: frame_waits_def)
  qed
qed

interpretation delivering: ranked_progress "\<lambda>s s'. conc_step env s s' \<and> running (mem s') \<and> taken_in s' = taken_in s" "loop_agent env"
  "frame_waits env b k c" "frame_handled k c" "frame_rank k" "\<lambda>s. ()" for env b k c
proof
  fix s s' :: "'a conc"
  assume s: "frame_waits env b k c s" "\<not> frame_handled k c s"
  show "\<exists>s'. loop_agent env () s s'" using s(1) by (auto simp: loop_agent_def loop_only_def frame_waits_def)
  show "frame_handled k c s' \<or> frame_rank k s' < frame_rank k s" if "loop_agent env () s s'"
    using that loop_lowers_frame [OF s(1)] by (auto simp: loop_agent_def loop_only_def)
  assume st: "conc_step env s s' \<and> running (mem s') \<and> taken_in s' = taken_in s"
  then have "conc_step env s s'" ..
  then show "frame_handled k c s' \<or> frame_waits env b k c s' \<and>
      (frame_rank k s' < frame_rank k s \<or> frame_rank k s' = frame_rank k s \<and> () = ())"
  proof (cases rule: conc_step_split)
    case by_loop
    then show ?thesis using loop_lowers_frame [OF s(1)] by (auto simp: loop_only_def)
  next
    case by_other
    show ?thesis
    proof (cases "loop_only env s s'")
      case True
      then show ?thesis using loop_lowers_frame [OF s(1)] by (auto simp: loop_only_def)
    next
      case False
      have ok: "conc_ok env b s" "conc_ok env b s'" using s(1) st conc_ok_step by (auto simp: frame_waits_def)
      then have "slots (background_cache (mem s')) = slots (background_cache (mem s))" using conc_ok_slots by metis
      moreover have "held_at k s \<Longrightarrow> held_at k s'" using other_held [OF _ by_other ok(1)] st False by blast
      ultimately show ?thesis using s(1) st by_other ok by (auto simp: frame_waits_def frame_rank_def)
    qed
  qed
qed

subsection \<open>Property\<close>

lemma frames_for_member: "0 < frames_for k fs \<longleftrightarrow> (\<exists>f \<in> set fs. fst f = k)"
  by (auto simp: frames_for_def filter_empty_conv)

text \<open>
  C10. While the reactor runs and its queue takes no further sample, a topic that holds a frame
  gets a new call of its handler, whatever else happens, as long as the loop is scheduled
  again and again.
\<close>

theorem held_frame_is_handled:
  assumes "reactor_inv r" "idle r" "env_ok env"
    and "run_of (conc_step env) \<sigma>" "\<sigma> 0 = conc_start env r" "weakly_fair (loop_agent env) \<sigma>"
    and "\<forall>m \<ge> n. running (mem (\<sigma> m)) \<and> taken_in (\<sigma> m) = taken_in (\<sigma> n)"
    and "view (background_cache (mem (\<sigma> n))) k = Some sl" "has_data sl"
  shows "\<exists>m \<ge> n. \<exists>data. (callback (target r k), data) \<in> set (drop (length (calls (mem (\<sigma> n)))) (calls (mem (\<sigma> m))))"
proof -
  let ?b = "run_start env r" and ?c = "frames_for k (rights (handled (\<sigma> n)))"
  have ok: "conc_ok env ?b (\<sigma> m)" for m by (rule conc_ok_run [OF assms(4,5,1,2,3)])
  have run: "run_of (\<lambda>s s'. conc_step env s s' \<and> running (mem s') \<and> taken_in s' = taken_in s) (\<lambda>m. \<sigma> (n + m))"
    by (rule run_of_suffix [OF assms(4)]) (use assms(7) in \<open>metis le_SucI\<close>)
  have "frame_waits env ?b k ?c (\<sigma> (n + 0))"
    using ok assms(7-9) done_run [OF assms(4,5,1,2,3)] by (auto simp: frame_waits_def held_at_def)
  from delivering.reaches [OF run weakly_fair_suffix [OF assms(6)] this] obtain m where
    m: "?c < frames_for k (rights (handled (\<sigma> (n + m))))" by (auto simp: frame_handled_def)
  have "\<exists>xs. handled (\<sigma> (n + m)) = handled (\<sigma> n) @ xs"
    by (rule run_extends [OF assms(4)]) (simp_all add: conc_step_handled)
  then obtain xs where xs: "handled (\<sigma> (n + m)) = handled (\<sigma> n) @ xs" ..
  then obtain f where "Inr f \<in> set xs" "fst f = k"
    using m frames_for_member [of k "rights xs"] by (auto simp: in_rights)
  moreover have "calls (mem (\<sigma> i)) = calls ?b @ map (handled_call r) (handled (\<sigma> i))" for i
    using ok [of i] by (simp add: conc_ok_def conc_invs run_start_same)
  ultimately have "handled_call r (Inr f) \<in> set (drop (length (calls (mem (\<sigma> n)))) (calls (mem (\<sigma> (n + m)))))"
    by (simp add: xs)
  then have "(callback (target r k), fst (snd f)) \<in> set (drop (length (calls (mem (\<sigma> n)))) (calls (mem (\<sigma> (n + m)))))"
    using \<open>fst f = k\<close> by (simp add: handled_call_def frame_call_def split_beta)
  then show ?thesis by (intro exI [of _ "n + m"]) auto
qed

subsection \<open>Witness\<close>

definition one_latest :: "nat reactor" where
  "one_latest = register_handler ''b'' BACKGROUND 1 (reactor_new ''l'' 5 0)"

definition latest_ctx :: CallbackContext where
  "latest_ctx = \<lparr>ctx_handler_hash = fnv1a_hash ''b'', ctx_priority = BACKGROUND, ctx_wakeup_fd = 5\<rparr>"

lemma one_latest_ok: "reactor_inv one_latest" "idle one_latest"
proof -
  show "reactor_inv one_latest" unfolding one_latest_def by (intro register_handler_inv reactor_new_inv)
  show "idle one_latest"
    using mpsc_new_inv(2) [of 9, where 'a = CriticalSample]
    by (simp add: idle_def one_latest_def register_handler_def reactor_new_def Let_def waiting_def)
qed

lemma latest_ctx_ok: "latest_ctx \<in> set (contexts (run_start waking_env one_latest))"
  by (simp add: one_latest_def latest_ctx_def register_handler_def reactor_new_def Let_def
      run_start_def subscribe_def subscribe_liveliness_def arm_poll_eventfd_def pre_allocate_handlers_def io_def spdlog_def
      waking_env_def sample_env_def)

theorem held_frame_is_handled_witness:
  "\<exists>\<sigma> m data. run_of (conc_step waking_env) \<sigma> \<and> \<sigma> 0 = conc_start waking_env one_latest \<and> weakly_fair (loop_agent waking_env) \<sigma> \<and>
     (callback (target one_latest (fnv1a_hash ''b'')), data) \<in> set (drop (length (calls (mem (\<sigma> 3)))) (calls (mem (\<sigma> m))))"
proof -
  let ?\<sigma> = "one_sample_run waking_env one_latest latest_ctx one_sample" and ?k = "fnv1a_hash ''b''"
  note run = one_sample_run [OF one_latest_ok latest_ctx_ok one_topic_ctx(2)]
  have "conc_ok waking_env (run_start waking_env one_latest) (?\<sigma> 2)" by (rule conc_ok_run [OF run(1,3) one_latest_ok waking_env_ok(1)])
  note ctx = sending_context [OF this run(5)]
  obtain r' sl u where r': "cache_sample waking_env latest_ctx (z_payload one_sample) (mem (?\<sigma> 2)) = Inr r'"
    "view (background_cache r') = (view (background_cache (mem (?\<sigma> 2))))(ctx_handler_hash latest_ctx \<mapsto>
       put (ctx_handler_hash latest_ctx) (z_payload one_sample) u sl)"
    by (rule cache_sample_effect [OF ctx(4,3)]) (simp_all add: latest_ctx_def)
  have "mem (?\<sigma> (Suc 2)) = r'"
    unfolding run(6,5) thread_step.simps using r'(1) by (simp add: send_step_def Let_def latest_ctx_def)
  then have held: "view (background_cache (mem (?\<sigma> 3))) ?k = Some (put ?k (z_payload one_sample) u sl)"
    "has_data (put ?k (z_payload one_sample) u sl)"
    using r'(2) by (simp_all add: latest_ctx_def put_def)
  have "\<forall>m \<ge> 3. running (mem (?\<sigma> m)) \<and> taken_in (?\<sigma> m) = taken_in (?\<sigma> 3)" using run(4,9) by blast
  then obtain m data where "(callback (target one_latest ?k), data) \<in> set (drop (length (calls (mem (?\<sigma> 3)))) (calls (mem (?\<sigma> m))))"
    using held_frame_is_handled [OF one_latest_ok waking_env_ok(1) run(1,3,2) _ held] by blast
  with run(1-3) show ?thesis by blast
qed

end
