(* ===== verification/Stats_Race.thy ===== *)
theory Stats_Race
  imports Reactor_Accounting
begin

text \<open>
  \<^verbatim>\<open>reset_stats\<close> runs in the UI's thread while the loop's thread synchronises the drop
  counter of the queue. Both read and write \<^verbatim>\<open>last_queue_dropped_\<close> and the counts of the
  last pass, which are neither atomic nor under a lock. Here the two run in steps of one
  access each, interleaved with producers whose samples the full queue refuses.
\<close>

subsection \<open>Steps\<close>

text \<open>Where the loop is in the synchronisation, and the UI in the reset, with their locals.\<close>

datatype sync_pc = SyncOut | SyncLoaded u64 | SyncCompared u64 u64 | SyncStored u64

datatype reset_pc = ResetOut | ResetZeroed | ResetLoaded u64 | ResetStored

record 'cb race =
  rmem :: "'cb reactor"
  sync_at :: sync_pc
  reset_at :: reset_pc

inductive race_step :: "env \<Rightarrow> 'cb race \<Rightarrow> 'cb race \<Rightarrow> bool" for env where
  sync_load: "sync_at s = SyncOut \<Longrightarrow>
    race_step env s (s\<lparr>sync_at := SyncLoaded (dropped_count (critical_queue (rmem s)))\<rparr>)"
| sync_compare: "sync_at s = SyncLoaded current \<Longrightarrow>
    race_step env s (s\<lparr>sync_at := SyncCompared current (current - last_queue_dropped (rmem s))\<rparr>)"
| sync_store: "sync_at s = SyncCompared current new \<Longrightarrow>
    race_step env s (s\<lparr>rmem := (rmem s)\<lparr>last_queue_dropped := current\<rparr>, sync_at := SyncStored new\<rparr>)"
| sync_charge: "sync_at s = SyncStored new \<Longrightarrow>
    race_step env s (s\<lparr>rmem := charge_drops new (rmem s), sync_at := SyncOut\<rparr>)"
| reset_zero: "reset_at s = ResetOut \<Longrightarrow>
    race_step env s (s\<lparr>rmem := zero_counters (rmem s), reset_at := ResetZeroed\<rparr>)"
| reset_load: "reset_at s = ResetZeroed \<Longrightarrow>
    race_step env s (s\<lparr>reset_at := ResetLoaded (dropped_count (critical_queue (rmem s)))\<rparr>)"
| reset_store: "reset_at s = ResetLoaded d \<Longrightarrow>
    race_step env s (s\<lparr>rmem := (rmem s)\<lparr>last_queue_dropped := d\<rparr>, reset_at := ResetStored\<rparr>)"
| reset_clear: "reset_at s = ResetStored \<Longrightarrow> clear_rest env (rmem s) = Inr r \<Longrightarrow>
    race_step env s (s\<lparr>rmem := r, reset_at := ResetOut\<rparr>)"
| refused: "push (critical_queue (rmem s)) x = Inr (False, q) \<Longrightarrow>
    race_step env s (s\<lparr>rmem := (rmem s)\<lparr>critical_queue := q\<rparr>\<rparr>)"

definition race_start :: "'cb reactor \<Rightarrow> 'cb race" where
  "race_start r = \<lparr>rmem = r, sync_at = SyncOut, reset_at = ResetOut\<rparr>"

lemma race_path: "race_step env s s1 \<Longrightarrow> (race_step env)\<^sup>*\<^sup>* s1 s2 \<Longrightarrow> (race_step env)\<^sup>*\<^sup>* s s2"
  by (rule converse_rtranclp_into_rtranclp)

subsection \<open>Without interference\<close>

lemma sync_alone: "(race_step env)\<^sup>*\<^sup>* (race_start r) (race_start (sync_queue_drops r))"
proof -
  define c where "c = dropped_count (critical_queue r)"
  define n where "n = c - last_queue_dropped r"
  have s: "sync_queue_drops r = charge_drops n (r\<lparr>last_queue_dropped := c\<rparr>)"
    by (simp add: sync_queue_drops_def c_def n_def Let_def)
  show ?thesis
    by (rule race_path [OF sync_load], simp add: race_start_def,
        rule race_path [OF sync_compare], simp add: race_start_def,
        rule race_path [OF sync_store], simp add: race_start_def,
        rule race_path [OF sync_charge], simp add: race_start_def)
       (simp add: race_start_def s c_def n_def)
qed

lemma reset_alone:
  assumes "reset_stats env r = Inr r'"
  shows "(race_step env)\<^sup>*\<^sup>* (race_start r) (race_start r')"
  by (rule race_path [OF reset_zero], simp add: race_start_def,
      rule race_path [OF reset_load], simp add: race_start_def,
      rule race_path [OF reset_store], simp add: race_start_def,
      rule race_path [OF reset_clear [of _ _ r']], simp add: race_start_def,
      use assms in \<open>simp add: race_start_def reset_stats_def Let_def\<close>)
     (simp add: race_start_def)

lemma charge_drops_sum:
  "critical_dropped (charge_drops new r) + normal_dropped (charge_drops new r) = critical_dropped r + normal_dropped r + new"
  by (simp add: charge_drops_def Let_def word_gt_0)

lemma full_queue_exists:
  assumes "n \<le> 511"
  shows "\<exists>r :: nat reactor. reactor_inv r \<and> handlers r = handlers two_topics \<and> length (queue_list (critical_queue r)) = n"
  using assms
proof (induction n)
  case 0
  show ?case by (rule exI [of _ two_topics]) (simp add: two_topics_inv two_topics_fields del: length_queue_list)
next
  case (Suc n)
  then obtain r :: "nat reactor" where r: "reactor_inv r" "handlers r = handlers two_topics"
      "length (queue_list (critical_queue r)) = n"
    by auto
  define cs where "cs = \<lparr>cs_handler_hash = fnv1a_hash ''a'', cs_payload = [], enqueue_time = 0\<rparr>"
  have qi: "queue_inv r" using r(1) by (simp add: reactor_inv_def)
  have known: "handler_index r (cs_handler_hash cs) \<noteq> None"
    using r(1,2) by (auto simp: reactor_inv_def handlers_inv_def first_index_None two_topics_fields cs_def)
  from qi show ?case
  proof (cases rule: mpsc_push_cases [where cs = cs])
    case (accept q)
    have "reactor_inv (r\<lparr>critical_queue := q\<rparr>)"
      using r(1) accept(2,3,5) known
      by (auto simp: reactor_inv_def handlers_inv_def queue_inv_def frames_inv_def windows_inv_def simp del: length_queue_list)
    then show ?thesis
      by (intro exI [of _ "r\<lparr>critical_queue := q\<rparr>"]) (simp add: r(2,3) accept(5) del: length_queue_list)
  next
    case (reject q)
    with Suc.prems r(3) show ?thesis by (simp del: length_queue_list)
  qed
qed

subsection \<open>Properties\<close>

text \<open>
  C25. A reset that runs while the loop is between its read of the queue's drop counter and the
  comparison with the last value, with one more sample refused in between, makes the drops
  of the pass negative: the two drop counters then add up to \<open>2 ^ 64 - 1\<close>. Run one after the
  other, the reset, the refused push and the synchronisation, the same operations report
  the one drop after the reset.
\<close>

theorem reset_race_wraps_drops:
  assumes "reactor_inv r" "env_ok env" "length (queue_list (critical_queue r)) = 511"
  shows "(\<exists>s. (race_step env)\<^sup>*\<^sup>* (race_start r) s \<and> sync_at s = SyncOut \<and> reset_at s = ResetOut \<and>
            dropped (critical_queue (rmem s)) = dropped (critical_queue r) + 1 \<and>
            critical_dropped (rmem s) + normal_dropped (rmem s) = - 1) \<and>
         (\<exists>s. (race_step env)\<^sup>*\<^sup>* (race_start r) s \<and> sync_at s = SyncOut \<and> reset_at s = ResetOut \<and>
            dropped (critical_queue (rmem s)) = dropped (critical_queue r) + 1 \<and>
            critical_dropped (rmem s) + normal_dropped (rmem s) = 1) \<and>
         (\<exists>r1 q. reset_stats env r = Inr r1 \<and> push (critical_queue r1) x = Inr (False, q) \<and>
            critical_dropped (sync_queue_drops (r1\<lparr>critical_queue := q\<rparr>)) + normal_dropped (sync_queue_drops (r1\<lparr>critical_queue := q\<rparr>)) = 1)"
proof -
  define d where "d = dropped (critical_queue r)"
  have qi: "queue_inv r" using assms(1) by (simp add: reactor_inv_def)
  then obtain q where q: "push (critical_queue r) x = Inr (False, q)" "dropped q = d + 1"
    by (cases rule: mpsc_push_cases [where cs = x]) (use assms(3) in \<open>auto simp: d_def\<close>)
  have cache: "iterates (slot_order env (background_cache r)) (background_cache r)" "cache_inv (background_cache r)"
    using assms(1,2) by (simp_all add: reactor_inv_def frames_inv_def env_ok_def)
  define b where "b = (zero_counters (r\<lparr>critical_queue := q\<rparr>))\<lparr>last_queue_dropped := d\<rparr>"
  have bc: "background_cache (charge_drops (- 1) b) = background_cache r"
    by (simp add: charge_drops_def Let_def b_def zero_counters_def)
  obtain e where e: "clear_rest env (charge_drops (- 1) b) = Inr e"
    using total_dropped_iterates [OF cache(2,1)] by (simp add: clear_rest_def bc)
  then have ef: "critical_dropped e = critical_dropped (charge_drops (- 1) b)" "normal_dropped e = normal_dropped (charge_drops (- 1) b)"
    "critical_queue e = critical_queue (charge_drops (- 1) b)"
    by (auto simp: clear_rest_def split: sum.splits)
  have "critical_dropped e + normal_dropped e = - 1"
    using charge_drops_sum [of "- 1" b] by (simp add: ef) (simp add: b_def zero_counters_def)
  moreover have "dropped (critical_queue e) = d + 1"
    using q(2) by (simp add: ef charge_drops_def Let_def b_def zero_counters_def)
  moreover have "(race_step env)\<^sup>*\<^sup>* (race_start r) (race_start e)"
    by (rule race_path [OF sync_load], simp add: race_start_def,
        rule race_path [OF refused [of _ x q]], simp add: race_start_def q,
        rule race_path [OF reset_zero], simp add: race_start_def,
        rule race_path [OF reset_load], simp add: race_start_def,
        rule race_path [OF reset_store], simp add: race_start_def,
        rule race_path [OF sync_compare], simp add: race_start_def,
        rule race_path [OF sync_store], simp add: race_start_def,
        rule race_path [OF sync_charge], simp add: race_start_def,
        rule race_path [OF reset_clear [of _ _ e]], simp add: race_start_def,
        use e q(2) in \<open>simp add: race_start_def b_def dropped_count_def zero_counters_def d_def [symmetric]\<close>)
       (simp add: race_start_def)
  moreover have "sync_at (race_start e) = SyncOut" "reset_at (race_start e) = ResetOut" "rmem (race_start e) = e"
    by (simp_all add: race_start_def)
  ultimately have wrap: "\<exists>s. (race_step env)\<^sup>*\<^sup>* (race_start r) s \<and> sync_at s = SyncOut \<and> reset_at s = ResetOut \<and>
      dropped (critical_queue (rmem s)) = dropped (critical_queue r) + 1 \<and> critical_dropped (rmem s) + normal_dropped (rmem s) = - 1"
    unfolding d_def by metis
  define r1 where "r1 = (cleared r)\<lparr>critical_queue := q\<rparr>"
  have "(race_step env)\<^sup>*\<^sup>* (race_start r) (race_start (cleared r))"
    by (rule reset_alone [OF reset_spec(1) [OF assms(1,2)]])
  moreover have "race_step env (race_start (cleared r)) (race_start r1)"
    using refused [of "race_start (cleared r)" x q env] q(1) by (simp add: race_start_def r1_def cleared_def)
  ultimately have "(race_step env)\<^sup>*\<^sup>* (race_start r) (race_start (sync_queue_drops r1))"
    using sync_alone [of env r1] by (meson r_into_rtranclp rtranclp_trans)
  moreover have one: "critical_dropped (sync_queue_drops r1) + normal_dropped (sync_queue_drops r1) = 1"
    using q(2) by (simp add: sync_queue_drops_def Let_def charge_drops_sum dropped_count_def r1_def cleared_def d_def)
  moreover have "dropped (critical_queue (sync_queue_drops r1)) = d + 1"
    using q(2) by (simp add: sync_queue_drops_def charge_drops_def Let_def r1_def)
  moreover have "sync_at (race_start (sync_queue_drops r1)) = SyncOut" "reset_at (race_start (sync_queue_drops r1)) = ResetOut"
    "rmem (race_start (sync_queue_drops r1)) = sync_queue_drops r1"
    by (simp_all add: race_start_def)
  ultimately have "\<exists>s. (race_step env)\<^sup>*\<^sup>* (race_start r) s \<and> sync_at s = SyncOut \<and> reset_at s = ResetOut \<and>
      dropped (critical_queue (rmem s)) = dropped (critical_queue r) + 1 \<and> critical_dropped (rmem s) + normal_dropped (rmem s) = 1"
    unfolding d_def by metis
  moreover have "reset_stats env r = Inr (cleared r)" by (rule reset_spec(1) [OF assms(1,2)])
  moreover have "push (critical_queue (cleared r)) x = Inr (False, q)" using q(1) by (simp add: cleared_def)
  ultimately show ?thesis using wrap one unfolding r1_def by metis
qed

theorem reset_race_wraps_drops_witness:
  "\<exists>r :: nat reactor. length (queue_list (critical_queue r)) = 511 \<and>
     (\<exists>s. (race_step sample_env)\<^sup>*\<^sup>* (race_start r) s \<and> sync_at s = SyncOut \<and> reset_at s = ResetOut \<and>
        critical_dropped (rmem s) + normal_dropped (rmem s) = - 1)"
proof -
  obtain r :: "nat reactor" where r: "reactor_inv r" "length (queue_list (critical_queue r)) = 511"
    using full_queue_exists [of 511] by blast
  show ?thesis using reset_race_wraps_drops [OF r(1) sample_env_ok r(2), of undefined] r(2) by blast
qed

end
