(* ===== verification/Config_Load.thy ===== *)
theory Config_Load
  imports Main
begin

text \<open>
  \<^verbatim>\<open>include/config/config.hpp\<close> and \<^verbatim>\<open>src/config.cpp\<close>: the
  configuration structs with their defaults and the loader. yaml-cpp and the file system
  are the record \<open>yaml\<close>, an argument of every operation. A YAML exception leaves the
  fields assigned so far as they are, so a parse step returns the exception and the state.
\<close>

subsection \<open>Data\<close>

record HandlerConfig =
  hc_path :: string
  hc_priority :: string
  hc_description :: string

record ChannelConfig =
  queue_size :: int
  wakeup_mode :: string

record BackgroundChannelConfig =
  strategy :: string
  max_age_ms :: int

record LivelinessConfig =
  lv_key :: string
  estop_publish_path :: string

record TUIConfig =
  enabled :: bool
  refresh_rate_ms :: int
  show_banner :: bool
  color_theme :: string

record ServerConfig =
  server_name :: string
  version :: string
  log_level :: string

record ZenohConfig =
  zenoh_config_path :: string

record ChannelsConfig =
  ch_critical :: ChannelConfig
  ch_normal :: ChannelConfig
  ch_background :: BackgroundChannelConfig

record Config =
  config_path :: string
  server :: ServerConfig
  zenoh :: ZenohConfig
  channels :: ChannelsConfig
  liveliness :: LivelinessConfig
  tui :: TUIConfig
  cfg_handlers :: "HandlerConfig list"

definition channel_default :: ChannelConfig where
  "channel_default = \<lparr>queue_size = 512, wakeup_mode = ''eventfd''\<rparr>"

definition config_default :: Config where
  "config_default =
     \<lparr>config_path = '''',
      server = \<lparr>server_name = ''FlowKernel'', version = ''2.3'', log_level = ''info''\<rparr>,
      zenoh = \<lparr>zenoh_config_path = ''''\<rparr>,
      channels = \<lparr>ch_critical = channel_default, ch_normal = channel_default,
                  ch_background = \<lparr>strategy = ''latest_only'', max_age_ms = 200\<rparr>\<rparr>,
      liveliness = \<lparr>lv_key = ''robot/**'', estop_publish_path = ''robot/*/cmd/estop''\<rparr>,
      tui = \<lparr>enabled = True, refresh_rate_ms = 100, show_banner = False, color_theme = ''dark''\<rparr>,
      cfg_handlers = []\<rparr>"

subsection \<open>YAML\<close>

datatype yaml_exception = YamlException string
datatype fs_error = FilesystemError string

record 'n yaml =
  file_exists :: "string \<Rightarrow> fs_error + bool"
  load_file :: "string \<Rightarrow> yaml_exception + 'n"
  child :: "'n \<Rightarrow> string \<Rightarrow> yaml_exception + 'n"   \<comment> \<open>\<open>node[key]\<close>\<close>
  node_defined :: "'n \<Rightarrow> bool"                     \<comment> \<open>the node's conversion to \<open>bool\<close>\<close>
  as_string :: "'n \<Rightarrow> yaml_exception + string"
  as_int :: "'n \<Rightarrow> yaml_exception + int"
  as_bool :: "'n \<Rightarrow> yaml_exception + bool"
  elements :: "'n \<Rightarrow> 'n list"                      \<comment> \<open>iteration over a sequence\<close>

text \<open>A statement that may throw, on the state \<open>'c\<close>; and a sequence of statements.\<close>

type_synonym 'c stmt = "'c \<Rightarrow> yaml_exception option \<times> 'c"

fun seq :: "'c stmt list \<Rightarrow> 'c stmt" where
  "seq [] c = (None, c)"
| "seq (s # ss) c =
     (case s c of
        (Some e, c') \<Rightarrow> (Some e, c')
      | (None, c') \<Rightarrow> seq ss c')"

text \<open>\<^verbatim>\<open>if (node[key]) field = node[key].as<T>();\<close>\<close>

definition assign :: "'n yaml \<Rightarrow> 'n \<Rightarrow> string \<Rightarrow> ('n \<Rightarrow> yaml_exception + 'v) \<Rightarrow> ('v \<Rightarrow> 'c \<Rightarrow> 'c) \<Rightarrow> 'c stmt" where
  "assign y node key conv upd c =
     (case child y node key of
        Inl e \<Rightarrow> (Some e, c)
      | Inr n \<Rightarrow>
          if \<not> node_defined y n then (None, c)
          else (case conv n of
                  Inl e \<Rightarrow> (Some e, c)
                | Inr v \<Rightarrow> (None, upd v c)))"

text \<open>\<^verbatim>\<open>if (node[key]) { auto n = node[key]; body(n); }\<close>\<close>

definition within :: "'n yaml \<Rightarrow> 'n \<Rightarrow> string \<Rightarrow> ('n \<Rightarrow> 'c stmt) \<Rightarrow> 'c stmt" where
  "within y node key body c =
     (case child y node key of
        Inl e \<Rightarrow> (Some e, c)
      | Inr n \<Rightarrow> if node_defined y n then body n c else (None, c))"

subsection \<open>The sections\<close>

definition parse_server :: "'n yaml \<Rightarrow> 'n \<Rightarrow> Config stmt" where
  "parse_server y node = seq
     [assign y node ''name'' (as_string y) (\<lambda>v c. c\<lparr>server := (server c)\<lparr>server_name := v\<rparr>\<rparr>),
      assign y node ''version'' (as_string y) (\<lambda>v c. c\<lparr>server := (server c)\<lparr>version := v\<rparr>\<rparr>),
      assign y node ''log_level'' (as_string y) (\<lambda>v c. c\<lparr>server := (server c)\<lparr>log_level := v\<rparr>\<rparr>)]"

definition parse_zenoh :: "'n yaml \<Rightarrow> 'n \<Rightarrow> Config stmt" where
  "parse_zenoh y node =
     assign y node ''config_path'' (as_string y) (\<lambda>v c. c\<lparr>zenoh := (zenoh c)\<lparr>zenoh_config_path := v\<rparr>\<rparr>)"

definition upd_critical :: "(ChannelConfig \<Rightarrow> ChannelConfig) \<Rightarrow> Config \<Rightarrow> Config" where
  "upd_critical f c = c\<lparr>channels := (channels c)\<lparr>ch_critical := f (ch_critical (channels c))\<rparr>\<rparr>"

definition upd_normal :: "(ChannelConfig \<Rightarrow> ChannelConfig) \<Rightarrow> Config \<Rightarrow> Config" where
  "upd_normal f c = c\<lparr>channels := (channels c)\<lparr>ch_normal := f (ch_normal (channels c))\<rparr>\<rparr>"

definition upd_background :: "(BackgroundChannelConfig \<Rightarrow> BackgroundChannelConfig) \<Rightarrow> Config \<Rightarrow> Config" where
  "upd_background f c = c\<lparr>channels := (channels c)\<lparr>ch_background := f (ch_background (channels c))\<rparr>\<rparr>"

definition parse_channels :: "'n yaml \<Rightarrow> 'n \<Rightarrow> Config stmt" where
  "parse_channels y node = seq
     [within y node ''critical'' (\<lambda>crit. seq
        [assign y crit ''queue_size'' (as_int y) (\<lambda>v. upd_critical (\<lambda>ch. ch\<lparr>queue_size := v\<rparr>)),
         assign y crit ''wakeup_mode'' (as_string y) (\<lambda>v. upd_critical (\<lambda>ch. ch\<lparr>wakeup_mode := v\<rparr>))]),
      within y node ''normal'' (\<lambda>norm.
         assign y norm ''queue_size'' (as_int y) (\<lambda>v. upd_normal (\<lambda>ch. ch\<lparr>queue_size := v\<rparr>))),
      within y node ''background'' (\<lambda>bg. seq
        [assign y bg ''strategy'' (as_string y) (\<lambda>v. upd_background (\<lambda>ch. ch\<lparr>strategy := v\<rparr>)),
         assign y bg ''max_age_ms'' (as_int y) (\<lambda>v. upd_background (\<lambda>ch. ch\<lparr>max_age_ms := v\<rparr>))])]"

definition parse_liveliness :: "'n yaml \<Rightarrow> 'n \<Rightarrow> Config stmt" where
  "parse_liveliness y node = seq
     [assign y node ''key'' (as_string y) (\<lambda>v c. c\<lparr>liveliness := (liveliness c)\<lparr>lv_key := v\<rparr>\<rparr>),
      assign y node ''estop_publish_path'' (as_string y)
        (\<lambda>v c. c\<lparr>liveliness := (liveliness c)\<lparr>estop_publish_path := v\<rparr>\<rparr>)]"

definition parse_tui :: "'n yaml \<Rightarrow> 'n \<Rightarrow> Config stmt" where
  "parse_tui y node = seq
     [assign y node ''enabled'' (as_bool y) (\<lambda>v c. c\<lparr>tui := (tui c)\<lparr>enabled := v\<rparr>\<rparr>),
      assign y node ''refresh_rate_ms'' (as_int y) (\<lambda>v c. c\<lparr>tui := (tui c)\<lparr>refresh_rate_ms := v\<rparr>\<rparr>),
      assign y node ''show_banner'' (as_bool y) (\<lambda>v c. c\<lparr>tui := (tui c)\<lparr>show_banner := v\<rparr>\<rparr>),
      assign y node ''color_theme'' (as_string y) (\<lambda>v c. c\<lparr>tui := (tui c)\<lparr>color_theme := v\<rparr>\<rparr>)]"

text \<open>One entry fills a local struct that is pushed only when nothing threw.\<close>

definition handler_empty :: HandlerConfig where
  "handler_empty = \<lparr>hc_path = '''', hc_priority = '''', hc_description = ''''\<rparr>"

definition parse_handler :: "'n yaml \<Rightarrow> 'n \<Rightarrow> Config stmt" where
  "parse_handler y handler c =
     (case seq
        [assign y handler ''path'' (as_string y) (\<lambda>v hc. hc\<lparr>hc_path := v\<rparr>),
         assign y handler ''priority'' (as_string y) (\<lambda>v hc. hc\<lparr>hc_priority := v\<rparr>),
         assign y handler ''description'' (as_string y) (\<lambda>v hc. hc\<lparr>hc_description := v\<rparr>)] handler_empty of
        (Some e, hc) \<Rightarrow> (Some e, c)
      | (None, hc) \<Rightarrow> (None, c\<lparr>cfg_handlers := cfg_handlers c @ [hc]\<rparr>))"

definition parse_handlers :: "'n yaml \<Rightarrow> 'n \<Rightarrow> Config stmt" where
  "parse_handlers y node c = seq (map (parse_handler y) (elements y node)) (c\<lparr>cfg_handlers := []\<rparr>)"

definition use_defaults :: "Config \<Rightarrow> Config" where
  "use_defaults c = c\<lparr>config_path := ''''\<rparr>"

text \<open>The body of the \<^verbatim>\<open>try\<close> block after the file was read.\<close>

definition parse_root :: "'n yaml \<Rightarrow> 'n \<Rightarrow> Config stmt" where
  "parse_root y root = seq
     [within y root ''server'' (parse_server y),
      within y root ''zenoh'' (parse_zenoh y),
      within y root ''channels'' (parse_channels y),
      within y root ''liveliness'' (parse_liveliness y),
      within y root ''tui'' (parse_tui y),
      within y root ''handlers'' (parse_handlers y)]"

text \<open>
  \<^verbatim>\<open>Config::load\<close>: only YAML exceptions are caught, an error of the file system
  check leaves the function.
\<close>

definition load :: "'n yaml \<Rightarrow> string \<Rightarrow> Config \<Rightarrow> fs_error + bool \<times> Config" where
  "load y p c =
     (case file_exists y p of
        Inl e \<Rightarrow> Inl e
      | Inr False \<Rightarrow> Inr (True, use_defaults c)
      | Inr True \<Rightarrow>
          (case load_file y p of
             Inl e \<Rightarrow> Inr (False, use_defaults c)
           | Inr root \<Rightarrow>
               (case parse_root y root (c\<lparr>config_path := p\<rparr>) of
                  (None, c') \<Rightarrow> Inr (True, c')
                | (Some e, c') \<Rightarrow> Inr (False, use_defaults c'))))"

subsection \<open>A document\<close>

text \<open>Concrete documents, to instantiate \<open>yaml\<close>: what yaml-cpp documents for \<open>[]\<close> and \<open>as\<close>.\<close>

datatype doc = Missing | Str string | Num int | Flag bool | Map "(string \<times> doc) list" | Seq "doc list"

fun doc_child :: "doc \<Rightarrow> string \<Rightarrow> yaml_exception + doc" where
  "doc_child (Map m) k = Inr (case map_of m k of None \<Rightarrow> Missing | Some d \<Rightarrow> d)"
| "doc_child Missing k = Inr Missing"
| "doc_child d k = Inl (YamlException ''bad subscript'')"

definition doc_yaml :: "doc \<Rightarrow> doc yaml" where
  "doc_yaml root =
     \<lparr>file_exists = (\<lambda>p. Inr True), load_file = (\<lambda>p. Inr root), child = doc_child,
      node_defined = (\<lambda>d. d \<noteq> Missing),
      as_string = (\<lambda>d. case d of Str s \<Rightarrow> Inr s | _ \<Rightarrow> Inl (YamlException ''bad conversion'')),
      as_int = (\<lambda>d. case d of Num i \<Rightarrow> Inr i | _ \<Rightarrow> Inl (YamlException ''bad conversion'')),
      as_bool = (\<lambda>d. case d of Flag b \<Rightarrow> Inr b | _ \<Rightarrow> Inl (YamlException ''bad conversion'')),
      elements = (\<lambda>d. case d of Seq ds \<Rightarrow> ds | _ \<Rightarrow> [])\<rparr>"

subsection \<open>Lemmas\<close>

text \<open>The document holds the value \<open>v\<close> under \<open>key\<close>.\<close>

definition has_value :: "'n yaml \<Rightarrow> 'n \<Rightarrow> string \<Rightarrow> ('n \<Rightarrow> yaml_exception + 'v) \<Rightarrow> 'v \<Rightarrow> bool" where
  "has_value y node key conv v \<longleftrightarrow>
     (case child y node key of Inl e \<Rightarrow> False | Inr n \<Rightarrow> node_defined y n \<and> conv n = Inr v)"

definition has_section :: "'n yaml \<Rightarrow> 'n \<Rightarrow> string \<Rightarrow> ('n \<Rightarrow> bool) \<Rightarrow> bool" where
  "has_section y node key P \<longleftrightarrow>
     (case child y node key of Inl e \<Rightarrow> False | Inr n \<Rightarrow> node_defined y n \<and> P n)"

lemma assign_value: "has_value y node key conv v \<Longrightarrow> assign y node key conv upd c = (None, upd v c)"
  by (auto simp: has_value_def assign_def split: sum.splits)

lemma within_section:
  "has_section y node key P \<Longrightarrow> (\<And>n. P n \<Longrightarrow> body n c = res) \<Longrightarrow> within y node key body c = res"
  by (auto simp: has_section_def within_def split: sum.splits)

text \<open>The document describes every field of \<open>c\<close> the loader reads.\<close>

definition describes_handler :: "'n yaml \<Rightarrow> 'n \<Rightarrow> HandlerConfig \<Rightarrow> bool" where
  "describes_handler y n hc \<longleftrightarrow>
     has_value y n ''path'' (as_string y) (hc_path hc) \<and>
     has_value y n ''priority'' (as_string y) (hc_priority hc) \<and>
     has_value y n ''description'' (as_string y) (hc_description hc)"

definition describes :: "'n yaml \<Rightarrow> 'n \<Rightarrow> Config \<Rightarrow> bool" where
  "describes y root c \<longleftrightarrow>
     has_section y root ''server'' (\<lambda>n.
       has_value y n ''name'' (as_string y) (server_name (server c)) \<and>
       has_value y n ''version'' (as_string y) (version (server c)) \<and>
       has_value y n ''log_level'' (as_string y) (log_level (server c))) \<and>
     has_section y root ''zenoh'' (\<lambda>n. has_value y n ''config_path'' (as_string y) (zenoh_config_path (zenoh c))) \<and>
     has_section y root ''channels'' (\<lambda>n.
       has_section y n ''critical'' (\<lambda>m.
         has_value y m ''queue_size'' (as_int y) (queue_size (ch_critical (channels c))) \<and>
         has_value y m ''wakeup_mode'' (as_string y) (wakeup_mode (ch_critical (channels c)))) \<and>
       has_section y n ''normal'' (\<lambda>m. has_value y m ''queue_size'' (as_int y) (queue_size (ch_normal (channels c)))) \<and>
       has_section y n ''background'' (\<lambda>m.
         has_value y m ''strategy'' (as_string y) (strategy (ch_background (channels c))) \<and>
         has_value y m ''max_age_ms'' (as_int y) (max_age_ms (ch_background (channels c))))) \<and>
     has_section y root ''liveliness'' (\<lambda>n.
       has_value y n ''key'' (as_string y) (lv_key (liveliness c)) \<and>
       has_value y n ''estop_publish_path'' (as_string y) (estop_publish_path (liveliness c))) \<and>
     has_section y root ''tui'' (\<lambda>n.
       has_value y n ''enabled'' (as_bool y) (enabled (tui c)) \<and>
       has_value y n ''refresh_rate_ms'' (as_int y) (refresh_rate_ms (tui c)) \<and>
       has_value y n ''show_banner'' (as_bool y) (show_banner (tui c)) \<and>
       has_value y n ''color_theme'' (as_string y) (color_theme (tui c))) \<and>
     has_section y root ''handlers'' (\<lambda>n. list_all2 (describes_handler y) (elements y n) (cfg_handlers c))"

lemma parse_handler_describes:
  "describes_handler y n hc \<Longrightarrow> parse_handler y n c = (None, c\<lparr>cfg_handlers := cfg_handlers c @ [hc]\<rparr>)"
  by (auto simp: describes_handler_def parse_handler_def assign_value handler_empty_def)

lemma parse_handlers_describes:
  assumes "list_all2 (describes_handler y) (elements y node) hcs"
  shows "parse_handlers y node c = (None, c\<lparr>cfg_handlers := hcs\<rparr>)"
proof -
  have "seq (map (parse_handler y) ns) d = (None, d\<lparr>cfg_handlers := cfg_handlers d @ hcs\<rparr>)"
    if "list_all2 (describes_handler y) ns hcs" for ns d
    using that by (induction ns hcs arbitrary: d rule: list_all2_induct) (simp_all add: parse_handler_describes)
  from this [OF assms] show ?thesis by (simp add: parse_handlers_def)
qed

text \<open>A struct whose fields have all been assigned is the struct assigned from.\<close>

lemma all_assigned [simp]:
  "s\<lparr>server_name := server_name t, version := version t, log_level := log_level t\<rparr> = t" for s t :: ServerConfig
  by (rule ServerConfig.equality) simp_all

lemma all_assigned_zenoh [simp]: "s\<lparr>zenoh_config_path := zenoh_config_path t\<rparr> = t" for s t :: ZenohConfig
  by (rule ZenohConfig.equality) simp_all

lemma all_assigned_liveliness [simp]:
  "s\<lparr>lv_key := lv_key t, estop_publish_path := estop_publish_path t\<rparr> = t" for s t :: LivelinessConfig
  by (rule LivelinessConfig.equality) simp_all

lemma all_assigned_tui [simp]:
  "s\<lparr>enabled := enabled t, refresh_rate_ms := refresh_rate_ms t, show_banner := show_banner t, color_theme := color_theme t\<rparr> = t"
  for s t :: TUIConfig
  by (rule TUIConfig.equality) simp_all

lemma all_assigned_channels [simp]:
  "s\<lparr>queue_size := queue_size t, wakeup_mode := wakeup_mode t\<rparr> = t" for s t :: ChannelConfig
  by (rule ChannelConfig.equality) simp_all

lemma all_assigned_background [simp]:
  "s\<lparr>strategy := strategy t, max_age_ms := max_age_ms t\<rparr> = t" for s t :: BackgroundChannelConfig
  by (rule BackgroundChannelConfig.equality) simp_all

lemma parse_server_describes:
  "has_value y n ''name'' (as_string y) (server_name s) \<Longrightarrow> has_value y n ''version'' (as_string y) (version s) \<Longrightarrow>
   has_value y n ''log_level'' (as_string y) (log_level s) \<Longrightarrow> parse_server y n e = (None, e\<lparr>server := s\<rparr>)"
  by (simp add: parse_server_def assign_value)

lemma parse_zenoh_describes:
  "has_value y n ''config_path'' (as_string y) (zenoh_config_path s) \<Longrightarrow> parse_zenoh y n e = (None, e\<lparr>zenoh := s\<rparr>)"
  by (simp add: parse_zenoh_def assign_value)

lemma parse_liveliness_describes:
  "has_value y n ''key'' (as_string y) (lv_key s) \<Longrightarrow> has_value y n ''estop_publish_path'' (as_string y) (estop_publish_path s) \<Longrightarrow>
   parse_liveliness y n e = (None, e\<lparr>liveliness := s\<rparr>)"
  by (simp add: parse_liveliness_def assign_value)

lemma parse_tui_describes:
  "has_value y n ''enabled'' (as_bool y) (enabled s) \<Longrightarrow> has_value y n ''refresh_rate_ms'' (as_int y) (refresh_rate_ms s) \<Longrightarrow>
   has_value y n ''show_banner'' (as_bool y) (show_banner s) \<Longrightarrow> has_value y n ''color_theme'' (as_string y) (color_theme s) \<Longrightarrow>
   parse_tui y n e = (None, e\<lparr>tui := s\<rparr>)"
  by (simp add: parse_tui_def assign_value)

lemma parse_channels_describes:
  assumes "has_section y n ''critical'' (\<lambda>m. has_value y m ''queue_size'' (as_int y) (queue_size (ch_critical s)) \<and>
         has_value y m ''wakeup_mode'' (as_string y) (wakeup_mode (ch_critical s)))"
    and "has_section y n ''normal'' (\<lambda>m. has_value y m ''queue_size'' (as_int y) (queue_size (ch_normal s)))"
    and "has_section y n ''background'' (\<lambda>m. has_value y m ''strategy'' (as_string y) (strategy (ch_background s)) \<and>
         has_value y m ''max_age_ms'' (as_int y) (max_age_ms (ch_background s)))"
  shows "parse_channels y n e = (None, e\<lparr>channels :=
      s\<lparr>ch_normal := (ch_normal s)\<lparr>wakeup_mode := wakeup_mode (ch_normal (channels e))\<rparr>\<rparr>\<rparr>)"
proof -
  have crit: "within y n ''critical'' (\<lambda>m. seq
        [assign y m ''queue_size'' (as_int y) (\<lambda>v. upd_critical (\<lambda>ch. ch\<lparr>queue_size := v\<rparr>)),
         assign y m ''wakeup_mode'' (as_string y) (\<lambda>v. upd_critical (\<lambda>ch. ch\<lparr>wakeup_mode := v\<rparr>))]) a =
      (None, upd_critical (\<lambda>_. ch_critical s) a)" for a
    by (rule within_section [OF assms(1)]) (elim conjE, simp add: assign_value upd_critical_def)
  have norm: "within y n ''normal'' (\<lambda>m. assign y m ''queue_size'' (as_int y) (\<lambda>v. upd_normal (\<lambda>ch. ch\<lparr>queue_size := v\<rparr>))) a =
      (None, upd_normal (\<lambda>ch. ch\<lparr>queue_size := queue_size (ch_normal s)\<rparr>) a)" for a
    by (rule within_section [OF assms(2)]) (simp add: assign_value)
  have bg: "within y n ''background'' (\<lambda>m. seq
        [assign y m ''strategy'' (as_string y) (\<lambda>v. upd_background (\<lambda>ch. ch\<lparr>strategy := v\<rparr>)),
         assign y m ''max_age_ms'' (as_int y) (\<lambda>v. upd_background (\<lambda>ch. ch\<lparr>max_age_ms := v\<rparr>))]) a =
      (None, upd_background (\<lambda>_. ch_background s) a)" for a
    by (rule within_section [OF assms(3)]) (elim conjE, simp add: assign_value upd_background_def)
  have "(ch_normal (channels e))\<lparr>queue_size := queue_size (ch_normal s)\<rparr> =
        (ch_normal s)\<lparr>wakeup_mode := wakeup_mode (ch_normal (channels e))\<rparr>"
    by (rule ChannelConfig.equality) simp_all
  moreover have "parse_channels y n e = (None, e\<lparr>channels := (channels e)\<lparr>ch_critical := ch_critical s,
      ch_normal := (ch_normal (channels e))\<lparr>queue_size := queue_size (ch_normal s)\<rparr>, ch_background := ch_background s\<rparr>\<rparr>)"
    by (simp add: parse_channels_def crit norm bg) (simp add: upd_critical_def upd_normal_def upd_background_def)
  moreover have "(channels e)\<lparr>ch_critical := ch_critical s, ch_normal := k, ch_background := ch_background s\<rparr> = s\<lparr>ch_normal := k\<rparr>" for k
    by (rule ChannelsConfig.equality) simp_all
  ultimately show ?thesis by simp
qed

lemma parse_root_describes:
  assumes "describes y root c"
  shows "parse_root y root d = (None, d\<lparr>server := server c, zenoh := zenoh c,
           channels := (channels c)\<lparr>ch_normal := (ch_normal (channels c))\<lparr>wakeup_mode := wakeup_mode (ch_normal (channels d))\<rparr>\<rparr>,
           liveliness := liveliness c, tui := tui c, cfg_handlers := cfg_handlers c\<rparr>)"
proof -
  note d = assms [unfolded describes_def, THEN conjunct1] assms [unfolded describes_def, THEN conjunct2, THEN conjunct1]
    assms [unfolded describes_def, THEN conjunct2, THEN conjunct2, THEN conjunct1]
    assms [unfolded describes_def, THEN conjunct2, THEN conjunct2, THEN conjunct2, THEN conjunct1]
    assms [unfolded describes_def, THEN conjunct2, THEN conjunct2, THEN conjunct2, THEN conjunct2, THEN conjunct1]
    assms [unfolded describes_def, THEN conjunct2, THEN conjunct2, THEN conjunct2, THEN conjunct2, THEN conjunct2]
  have server: "within y root ''server'' (parse_server y) e = (None, e\<lparr>server := server c\<rparr>)" for e
    by (rule within_section [OF d(1)]) (simp add: parse_server_describes)
  have zenoh: "within y root ''zenoh'' (parse_zenoh y) e = (None, e\<lparr>zenoh := zenoh c\<rparr>)" for e
    by (rule within_section [OF d(2)]) (simp add: parse_zenoh_describes)
  have channels: "within y root ''channels'' (parse_channels y) e = (None, e\<lparr>channels :=
      (channels c)\<lparr>ch_normal := (ch_normal (channels c))\<lparr>wakeup_mode := wakeup_mode (ch_normal (channels e))\<rparr>\<rparr>\<rparr>)" for e
    by (rule within_section [OF d(3)]) (simp add: parse_channels_describes)
  have liveliness: "within y root ''liveliness'' (parse_liveliness y) e = (None, e\<lparr>liveliness := liveliness c\<rparr>)" for e
    by (rule within_section [OF d(4)]) (simp add: parse_liveliness_describes)
  have tui: "within y root ''tui'' (parse_tui y) e = (None, e\<lparr>tui := tui c\<rparr>)" for e
    by (rule within_section [OF d(5)]) (simp add: parse_tui_describes)
  have handlers: "within y root ''handlers'' (parse_handlers y) e = (None, e\<lparr>cfg_handlers := cfg_handlers c\<rparr>)" for e
    by (rule within_section [OF d(6)]) (simp add: parse_handlers_describes)
  show ?thesis
    unfolding parse_root_def by (simp add: server zenoh channels liveliness tui handlers)
qed

text \<open>The document that writes down every field.\<close>

definition document :: "Config \<Rightarrow> doc" where
  "document c = Map
     [(''server'', Map [(''name'', Str (server_name (server c))), (''version'', Str (version (server c))),
                        (''log_level'', Str (log_level (server c)))]),
      (''zenoh'', Map [(''config_path'', Str (zenoh_config_path (zenoh c)))]),
      (''channels'', Map
         [(''critical'', Map [(''queue_size'', Num (queue_size (ch_critical (channels c)))),
                              (''wakeup_mode'', Str (wakeup_mode (ch_critical (channels c))))]),
          (''normal'', Map [(''queue_size'', Num (queue_size (ch_normal (channels c))))]),
          (''background'', Map [(''strategy'', Str (strategy (ch_background (channels c)))),
                                (''max_age_ms'', Num (max_age_ms (ch_background (channels c))))])]),
      (''liveliness'', Map [(''key'', Str (lv_key (liveliness c))), (''estop_publish_path'', Str (estop_publish_path (liveliness c)))]),
      (''tui'', Map [(''enabled'', Flag (enabled (tui c))), (''refresh_rate_ms'', Num (refresh_rate_ms (tui c))),
                     (''show_banner'', Flag (show_banner (tui c))), (''color_theme'', Str (color_theme (tui c)))]),
      (''handlers'', Seq (map (\<lambda>h. Map [(''path'', Str (hc_path h)), (''priority'', Str (hc_priority h)),
                                        (''description'', Str (hc_description h))]) (cfg_handlers c)))]"

lemma document_describes: "describes (doc_yaml d) (document c) c"
  by (simp add: describes_def has_section_def has_value_def document_def doc_yaml_def list_all2_map1
      describes_handler_def list.rel_refl)

subsection \<open>Properties\<close>

text \<open>
  C36. Loading a document that describes a configuration gives back that configuration,
  every field and every handler in order, except the wake-up mode of the NORMAL channel,
  which the loader never reads.
\<close>

theorem load_roundtrip:
  assumes "file_exists y p = Inr True" "load_file y p = Inr root" "describes y root c"
  shows "load y p d = Inr (True, c\<lparr>config_path := p,
           channels := (channels c)\<lparr>ch_normal := (ch_normal (channels c))\<lparr>wakeup_mode := wakeup_mode (ch_normal (channels d))\<rparr>\<rparr>\<rparr>)"
proof -
  have "d\<lparr>config_path := p, server := server c, zenoh := zenoh c, channels := k,
          liveliness := liveliness c, tui := tui c, cfg_handlers := cfg_handlers c\<rparr> = c\<lparr>config_path := p, channels := k\<rparr>" for k
    by (rule Config.equality) simp_all
  then show ?thesis by (simp add: load_def assms(1,2) parse_root_describes [OF assms(3)])
qed

theorem load_roundtrip_witness:
  "load (doc_yaml (document (config_default\<lparr>cfg_handlers := [\<lparr>hc_path = ''a'', hc_priority = ''NORMAL'', hc_description = ''d''\<rparr>]\<rparr>))) ''c.yaml'' config_default =
     Inr (True, config_default\<lparr>config_path := ''c.yaml'', cfg_handlers := [\<lparr>hc_path = ''a'', hc_priority = ''NORMAL'', hc_description = ''d''\<rparr>]\<rparr>)"
proof -
  let ?c = "config_default\<lparr>cfg_handlers := [\<lparr>hc_path = ''a'', hc_priority = ''NORMAL'', hc_description = ''d''\<rparr>]\<rparr>"
  have "file_exists (doc_yaml (document ?c)) ''c.yaml'' = Inr True" "load_file (doc_yaml (document ?c)) ''c.yaml'' = Inr (document ?c)"
    by (simp_all add: doc_yaml_def)
  from load_roundtrip [OF this document_describes, of config_default] show ?thesis
    by (simp add: config_default_def channel_default_def)
qed

text \<open>
  A load that fails half-way does not fall back to the defaults: it reports failure and
  clears the path, but every section parsed before the exception keeps the file's values.
  When there is no file it succeeds and leaves all fields as they were.
\<close>

theorem failed_load_keeps_fields:
  "load (doc_yaml (Map [(''server'', Map [(''name'', Str n)]), (''tui'', Map [(''enabled'', Str x)])])) p c =
     Inr (False, c\<lparr>server := (server c)\<lparr>server_name := n\<rparr>, config_path := ''''\<rparr>) \<and>
   load ((doc_yaml d)\<lparr>file_exists := (\<lambda>p. Inr False)\<rparr>) p c = Inr (True, c\<lparr>config_path := ''''\<rparr>)"
  by (simp add: load_def doc_yaml_def parse_root_def within_def parse_server_def parse_tui_def assign_def use_defaults_def)

end
