(* ===== verification/TUI.thy ===== *)
theory TUI
  imports Reactor_Run Config_Load "HOL-Library.Signed_Division"
begin

text \<open>
  The terminal UI (\<^verbatim>\<open>src/tui/tui_app.cpp\<close>): number formatting, the element
  trees it renders, the refresh of its data, the keyboard and its start and stop. FTXUI's
  elements are a datatype; what the screen and the thread are asked to do is a trace.
\<close>

subsection \<open>Decimal output\<close>

definition digit :: "nat \<Rightarrow> char" where "digit d = char_of (48 + d)"

fun show_nat :: "nat \<Rightarrow> string" where
  "show_nat n = (if n < 10 then [digit n] else show_nat (n div 10) @ [digit (n mod 10)])"

declare show_nat.simps [simp del]

definition show_int :: "int \<Rightarrow> string" where
  "show_int i = (if i < 0 then CHR ''-'' # show_nat (nat (- i)) else show_nat (nat i))"

text \<open>\<open>p\<close> digits, with leading zeros.\<close>

fun show_padded :: "nat \<Rightarrow> nat \<Rightarrow> string" where
  "show_padded 0 n = []"
| "show_padded (Suc p) n = show_padded p (n div 10) @ [digit (n mod 10)]"

text \<open>
  \<^verbatim>\<open>std::fixed << std::setprecision(p)\<close>: the exact value of the double, rounded
  half to even at the last digit.
\<close>

definition fixed :: "nat \<Rightarrow> double \<Rightarrow> string" where
  "fixed p x =
     (let m = nat (round_even (\<bar>x\<bar> * 10 ^ p))
      in (if x < 0 then ''-'' else '''') @ show_nat (m div 10 ^ p) @
         (if p = 0 then '''' else CHR ''.'' # show_padded p (m mod 10 ^ p)))"

subsection \<open>The format functions\<close>

text \<open>
  \<^verbatim>\<open>static_cast<int>\<close> of a double. Outside the range of \<^verbatim>\<open>int\<close> C++
  leaves the result undefined; the value here is the one the x86-64 conversion gives.
\<close>

definition cast_int :: "double \<Rightarrow> int" where
  "cast_int x = (if - (2 ^ 31) \<le> to_integer x \<and> to_integer x < 2 ^ 31 then to_integer x else - (2 ^ 31))"

definition format_duration :: "double \<Rightarrow> string" where
  "format_duration seconds =
     (let s = cast_int seconds;
          hours = s sdiv 3600;
          minutes = (s smod 3600) sdiv 60;
          secs = s smod 60
      in (if hours > 0 then show_int hours @ ''h'' else '''') @
         (if minutes > 0 \<or> hours > 0 then show_int minutes @ ''m'' else '''') @
         show_int secs @ ''s'')"

text \<open>The UTF-8 bytes of the symbols the UI prints.\<close>

definition micro_sign :: string where "micro_sign = [char_of (194 :: nat), char_of (181 :: nat)]"
definition vbar :: string where "vbar = [char_of (226 :: nat), char_of (148 :: nat), char_of (130 :: nat)]"
definition bullet :: string where "bullet = [char_of (226 :: nat), char_of (151 :: nat), char_of (143 :: nat)]"
definition circle :: string where "circle = [char_of (226 :: nat), char_of (151 :: nat), char_of (139 :: nat)]"
definition triangle :: string where "triangle = [char_of (226 :: nat), char_of (150 :: nat), char_of (184 :: nat)]"

definition format_latency :: "double \<Rightarrow> string" where
  "format_latency us =
     (if us \<ge> 1000000 then fixed 2 (fdiv us 1000000) @ ''s''
      else if us \<ge> 1000 then fixed 2 (fdiv us 1000) @ ''ms''
      else fixed 0 us @ micro_sign @ ''s'')"

definition format_number :: "u64 \<Rightarrow> string" where
  "format_number num =
     (if num \<ge> 1000000 then fixed 2 (fdiv (of_integer (uint num)) 1000000) @ ''M''
      else if num \<ge> 1000 then fixed 1 (fdiv (of_integer (uint num)) 1000) @ ''K''
      else show_nat (unat num))"

subsection \<open>Elements\<close>

datatype colour = Cyan | GrayLight | GrayDark | White | Red | Yellow | Green

datatype element =
    Text string | Bold element | Color colour element
  | HBox "element list" | VBox "element list" | Border element | Separator

definition ctext :: "colour \<Rightarrow> string \<Rightarrow> element" where
  "ctext c s = Color c (Text s)"

definition btext :: "colour \<Rightarrow> string \<Rightarrow> element" where
  "btext c s = Color c (Bold (Text s))"

definition column :: element where "column = ctext GrayDark (''  '' @ vbar @ ''  '')"

record tui_app =
  critical_stats :: ChannelStats
  normal_stats :: ChannelStats
  background_stats :: ChannelStats
  sessions :: "SessionInfo list"
  handler_rows :: "HandlerStatus list"
  uptime_seconds :: double
  tui_running :: bool
  refresh_joinable :: bool
  ui_trace :: "string list"

definition render_header :: "Config \<Rightarrow> tui_app \<Rightarrow> element" where
  "render_header cfg app =
     Border (HBox
       [btext Cyan ('' '' @ server_name (server cfg) @ '' v'' @ version (server cfg)),
        ctext GrayLight (''  '' @ vbar @ ''  Uptime: '' @ format_duration (uptime_seconds app)),
        ctext GrayLight (''  '' @ vbar @ ''  Q:Quit  R:Reset'')])"

definition channel_row :: "string \<Rightarrow> ChannelStats \<Rightarrow> colour \<Rightarrow> element" where
  "channel_row name stats channel_color =
     HBox
       [ctext channel_color ('' '' @ bullet @ '' ''), btext channel_color name, column,
        ctext White (''Processed: '' @ format_number (processed stats)), column,
        ctext White (''Dropped: '' @ format_number (dropped_frames_count stats)), column,
        ctext White (''Avg: '' @ format_latency (avg_latency_us stats)), column,
        ctext White (''P95: '' @ format_latency (p95_latency_us stats))]"

definition render_channels :: "tui_app \<Rightarrow> element" where
  "render_channels app =
     Border (VBox
       [btext White ('' '' @ triangle @ '' CHANNELS''), Separator,
        channel_row ''CRITICAL  '' (critical_stats app) Red,
        channel_row ''NORMAL    '' (normal_stats app) Yellow,
        channel_row ''BACKGROUND'' (background_stats app) Green])"

definition last_seen_text :: "u64 \<Rightarrow> string" where
  "last_seen_text ms =
     (if ms < 1000 then show_nat (unat ms) @ ''ms ago''
      else format_duration (fdiv (of_integer (uint ms)) 1000) @ '' ago'')"

definition session_row :: "SessionInfo \<Rightarrow> element" where
  "session_row s =
     HBox
       [ctext White '' '',
        btext (if online s then Green else Red) (if online s then bullet @ '' ONLINE '' else circle @ '' OFFLINE''),
        column, ctext White (robot_id s), column, ctext GrayLight (last_seen_text (last_seen_ms s))]"

definition render_sessions :: "tui_app \<Rightarrow> element" where
  "render_sessions app =
     Border (VBox
       [btext White ('' '' @ triangle @ '' SESSIONS''), Separator,
        VBox (if sessions app = [] then [ctext GrayLight ''  No active sessions''] else map session_row (sessions app))])"

definition handler_row :: "HandlerStatus \<Rightarrow> element" where
  "handler_row h =
     (let priority_color = (if hs_priority h = ''CRITICAL'' then Red else if hs_priority h = ''NORMAL'' then Yellow else Green)
      in HBox
        [ctext Green ('' '' @ bullet @ '' ''), ctext White (hs_path h), column,
         btext priority_color (hs_priority h), column,
         ctext (if hs_active h then Green else GrayLight) (if hs_active h then bullet @ '' Active'' else circle @ '' Inactive'')])"

definition render_handlers :: "tui_app \<Rightarrow> element" where
  "render_handlers app =
     Border (VBox [btext White ('' '' @ triangle @ '' HANDLERS''), Separator, VBox (map handler_row (handler_rows app))])"

definition render_footer :: element where
  "render_footer =
     Border (HBox [ctext Cyan '' [Q]uit'', ctext Cyan ''  [R]eset stats'', ctext Cyan ''  [L]ogs'', ctext Cyan ''  [H]elp''])"

definition render :: "Config \<Rightarrow> tui_app \<Rightarrow> element list" where
  "render cfg app =
     [render_header cfg app, render_channels app, render_sessions app, render_handlers app, render_footer]"

subsection \<open>Refresh, keyboard, start and stop\<close>

definition stats_zero :: ChannelStats where "stats_zero = channel_stats 0 0 []"

definition tui_new :: tui_app where
  "tui_new =
     \<lparr>critical_stats = stats_zero, normal_stats = stats_zero, background_stats = stats_zero,
      sessions = [], handler_rows = [], uptime_seconds = 0, tui_running = False, refresh_joinable = False, ui_trace = []\<rparr>"

text \<open>\<open>now1\<close> and \<open>now2\<close> are the clock readings of the session list and the uptime.\<close>

definition refresh_data :: "string list \<Rightarrow> int \<Rightarrow> int \<Rightarrow> 'cb reactor \<Rightarrow> tui_app \<Rightarrow> tui_app" where
  "refresh_data ord now1 now2 r app =
     app\<lparr>critical_stats := get_critical_stats r, normal_stats := get_normal_stats r,
         background_stats := get_background_stats r, sessions := get_sessions ord now1 (session_last_seen r),
         handler_rows := get_handler_statuses r, uptime_seconds := get_uptime_seconds now2 r,
         ui_trace := ui_trace app @ [''PostEvent'']\<rparr>"

definition tui_stop :: "tui_app \<Rightarrow> tui_app" where
  "tui_stop app =
     (let app1 = app\<lparr>tui_running := False, ui_trace := ui_trace app @ [''Exit'']\<rparr>
      in if refresh_joinable app1
         then app1\<lparr>refresh_joinable := False, ui_trace := ui_trace app1 @ [''join refresh'']\<rparr> else app1)"

text \<open>\<^verbatim>\<open>run\<close> up to the screen's own loop.\<close>

definition tui_run :: "tui_app \<Rightarrow> tui_app" where
  "tui_run app =
     app\<lparr>tui_running := True, refresh_joinable := True, ui_trace := ui_trace app @ [''spawn refresh'', ''Loop'']\<rparr>"

text \<open>The keyboard handler: whether it consumed the key, and the two states after it.\<close>

definition on_key :: "env \<Rightarrow> char \<Rightarrow> tui_app \<Rightarrow> 'cb reactor \<Rightarrow> mem_error + bool \<times> tui_app \<times> 'cb reactor" where
  "on_key env key app r =
     (if key = CHR ''q'' \<or> key = CHR ''Q'' then Inr (True, tui_stop app, r)
      else if key = CHR ''r'' \<or> key = CHR ''R''
      then (case reset_stats env r of Inl e \<Rightarrow> Inl e | Inr r' \<Rightarrow> Inr (True, app, r'))
      else Inr (False, app, r))"

subsection \<open>Reading the output back\<close>

text \<open>A reader for durations: a number before \<open>h\<close>, \<open>m\<close> and the final \<open>s\<close>.\<close>

fun read_duration :: "nat \<Rightarrow> nat \<Rightarrow> string \<Rightarrow> nat option" where
  "read_duration a t [] = None"
| "read_duration a t (c # cs) =
     (if c = CHR ''h'' then read_duration 0 (t + a * 3600) cs
      else if c = CHR ''m'' then read_duration 0 (t + a * 60) cs
      else if c = CHR ''s'' then (if cs = [] then Some (t + a) else None)
      else read_duration (10 * a + (of_char c - 48)) t cs)"

lemma of_char_digit: "d < 10 \<Longrightarrow> (of_char (digit d) :: nat) = 48 + d"
  by (simp add: digit_def)

lemma digit_not_unit: "d < 10 \<Longrightarrow> digit d \<noteq> CHR ''h'' \<and> digit d \<noteq> CHR ''m'' \<and> digit d \<noteq> CHR ''s''"
  using of_char_digit [of d] by (auto dest: arg_cong [where f = "of_char :: char \<Rightarrow> nat"])

lemma read_digit: "d < 10 \<Longrightarrow> read_duration a t (digit d # cs) = read_duration (10 * a + d) t cs"
  using digit_not_unit [of d] of_char_digit [of d] by simp

lemma read_unit:
  "read_duration a t (CHR ''h'' # cs) = read_duration 0 (t + a * 3600) cs"
  "read_duration a t (CHR ''m'' # cs) = read_duration 0 (t + a * 60) cs"
  "read_duration a t ''s'' = Some (t + a)"
  by simp_all

declare read_duration.simps [simp del]

lemma read_show_nat:
  "read_duration a t (show_nat n @ rest) = read_duration (a * 10 ^ length (show_nat n) + n) t rest"
proof (induction n arbitrary: rest rule: show_nat.induct)
  case (1 n)
  show ?case
  proof (cases "n < 10")
    case True
    then show ?thesis by (simp add: show_nat.simps [of n] read_digit mult.commute)
  next
    case False
    with 1 show ?thesis by (simp add: show_nat.simps [of n] read_digit ac_simps)
  qed
qed

lemma read_show_nat_0: "read_duration 0 t (show_nat n @ c # rest) = read_duration n t (c # rest)"
  by (simp only: read_show_nat) simp

lemma show_int_nonneg: "0 \<le> i \<Longrightarrow> show_int i = show_nat (nat i)"
  by (simp add: show_int_def)

lemma signed_nonneg: "0 \<le> s \<Longrightarrow> 0 < k \<Longrightarrow> s sdiv k = s div k \<and> s smod k = s mod (k :: int)"
  by (simp add: signed_divide_int_def signed_modulo_int_def sgn_if minus_div_mult_eq_mod)

lemma double_nonneg: "0 \<le> i \<Longrightarrow> 0 \<le> of_integer i" "0 \<le> x \<Longrightarrow> 0 \<le> y \<Longrightarrow> 0 \<le> fdiv x y"
  by (simp_all add: of_integer_def fdiv_def rnd53_nonneg)

lemma fixed_nonneg:
  "0 \<le> x \<Longrightarrow> fixed p x =
     show_nat (nat (round_even (x * 10 ^ p)) div 10 ^ p) @
     (if p = 0 then '''' else CHR ''.'' # show_padded p (nat (round_even (x * 10 ^ p)) mod 10 ^ p))"
  by (simp add: fixed_def Let_def)

lemma show_padded_2: "show_padded 2 n = [digit (n div 10 mod 10), digit (n mod 10)]"
  by (simp add: numeral_2_eq_2)

text \<open>The roundings of the examples below, and the digits.\<close>

lemma fixed_values:
  "round_even (fdiv (of_integer 1000) 1000 * 10) = 10"
  "round_even (fdiv (of_integer 999949) 1000 * 10) = 9999"
  "round_even (fdiv (of_integer 999999) 1000 * 10) = 10000"
  "round_even (fdiv (of_integer 1000000) 1000000 * 100) = 100"
  "round_even (4998 / 5) = 1000"
  "round_even (fdiv 1500 1000 * 100) = 150"
  by code_simp+

lemma digit_values:
  "digit 0 = CHR ''0''" "digit (Suc 0) = CHR ''1''" "digit 2 = CHR ''2''" "digit 3 = CHR ''3''" "digit 4 = CHR ''4''"
  "digit 5 = CHR ''5''" "digit 6 = CHR ''6''" "digit 7 = CHR ''7''" "digit 8 = CHR ''8''" "digit 9 = CHR ''9''"
  by code_simp+

subsection \<open>Properties\<close>

text \<open>
  C37. A duration in the range of \<^verbatim>\<open>int\<close> reads back as the whole seconds it was formatted from: hours, minutes and
  seconds are the right digits and none is dropped when it matters.
\<close>

theorem format_duration_roundtrip:
  assumes "0 \<le> x" "x < 2 ^ 31"
  shows "read_duration 0 0 (format_duration x) = Some (nat \<lfloor>x\<rfloor>)"
proof -
  define s where "s = \<lfloor>x\<rfloor>"
  have "s < 2 ^ 31" using assms(2) by (simp add: s_def floor_less_iff)
  then have s: "0 \<le> s" "cast_int x = s" using assms(1) by (simp_all add: s_def cast_int_def to_integer_def)
  define h m e where "h = nat (s div 3600)" and "m = nat (s mod 3600 div 60)" and "e = nat (s mod 60)"
  have pos: "0 \<le> s div 3600" "0 \<le> s mod 3600 div 60" "0 \<le> s mod 60" "0 \<le> s mod 3600"
    using s(1) by (simp_all add: pos_imp_zdiv_nonneg_iff)
  have sum: "nat s = h * 3600 + m * 60 + e"
  proof -
    have i: "int h = s div 3600" "int m = s mod 3600 div 60" "int e = s mod 60"
      using pos by (simp_all add: h_def m_def e_def)
    have "s mod 3600 mod 60 = s mod 60" by (simp add: mod_mod_cancel)
    then have "s div 3600 * 3600 + (s mod 3600 div 60 * 60 + s mod 60) = s"
      using div_mult_mod_eq [of "s mod 3600" 60] div_mult_mod_eq [of s 3600] by simp
    then have "int (h * 3600 + m * 60 + e) = s" by (simp add: i)
    then show ?thesis by (simp add: nat_eq_iff s(1))
  qed
  have fmt: "format_duration x =
      (if h > 0 then show_nat h @ ''h'' else '''') @ (if m > 0 \<or> h > 0 then show_nat m @ ''m'' else '''') @ show_nat e @ ''s''"
    using s(1) pos
    by (simp only: format_duration_def s(2) Let_def signed_nonneg [OF s(1)] signed_nonneg [OF pos(4)] zero_less_numeral
        show_int_nonneg h_def m_def e_def zero_less_nat_eq)
  show ?thesis
    unfolding fmt s_def [symmetric] sum
    by (cases "h > 0"; cases "m > 0") (simp_all add: read_show_nat_0 read_unit)
qed

theorem format_duration_roundtrip_witness:
  "read_duration 0 0 (format_duration 3725) = Some 3725"
  using format_duration_roundtrip [of 3725] by simp

text \<open>
  Counters below a thousand are printed exactly; above, the unit is chosen before the
  rounding, so a counter or latency just below the next unit prints as a thousand of the
  smaller one.
\<close>

theorem format_number_units:
  "(\<forall>n < 1000. format_number n = show_nat (unat n)) \<and>
   format_number 1000 = ''1.0K'' \<and> format_number 999949 = ''999.9K'' \<and> format_number 999999 = ''1000.0K'' \<and>
   format_number 1000000 = ''1.00M'' \<and> format_latency (9996 / 10) = ''1000'' @ micro_sign @ ''s'' \<and>
   format_latency 1500 = ''1.50ms''"
proof -
  have "\<forall>n < 1000. format_number n = show_nat (unat n)"
    by (auto simp: format_number_def word_less_nat_alt word_le_nat_alt)
  moreover have "format_number 1000 = ''1.0K''" "format_number 999949 = ''999.9K''" "format_number 999999 = ''1000.0K''"
    "format_number 1000000 = ''1.00M''"
    by (simp_all add: format_number_def fixed_nonneg double_nonneg fixed_values show_nat.simps show_padded_2 digit_values)
  moreover have "format_latency (9996 / 10) = ''1000'' @ micro_sign @ ''s''" "format_latency 1500 = ''1.50ms''"
    by (simp_all add: format_latency_def fixed_nonneg double_nonneg fixed_values show_nat.simps show_padded_2 digit_values)
  ultimately show ?thesis by blast
qed

theorem format_number_units_witness: "format_number 512 = ''512''"
proof -
  have "format_number 512 = show_nat (unat (512 :: u64))" using format_number_units by simp
  also have "\<dots> = ''512''" by (simp add: show_nat.simps digit_values)
  finally show ?thesis .
qed

text \<open>
  The keyboard: q ends the session (the screen's loop is told to exit and the refresh
  thread is joined, at most once however often it is pressed), r resets the reactor's
  statistics without losing a frame, any other key is left to the rest of the UI, and none
  of them faults.
\<close>

theorem keyboard_actions:
  assumes "reactor_inv r" "env_ok env"
  shows "\<exists>handled app' r'. on_key env key app r = Inr (handled, app', r') \<and> reactor_inv r' \<and>
     critical_queue r' = critical_queue r \<and> background_cache r' = background_cache r \<and>
     (handled \<longleftrightarrow> key \<in> set ''qQrR'') \<and>
     (if key \<in> set ''qQ'' then \<not> tui_running app' \<and> \<not> refresh_joinable app' \<and> tui_stop app' = app'\<lparr>ui_trace := ui_trace app' @ [''Exit'']\<rparr> \<and> r' = r
      else app' = app \<and>
           (if key \<in> set ''rR'' then reset_stats env r = Inr r' \<and> critical_processed r' = 0 \<and> background_dropped r' = 0 else r' = r))"
proof -
  have "tui_stop (tui_stop app) = (tui_stop app)\<lparr>ui_trace := ui_trace (tui_stop app) @ [''Exit'']\<rparr>"
    "\<not> tui_running (tui_stop app)" "\<not> refresh_joinable (tui_stop app)"
    by (simp_all add: tui_stop_def Let_def)
  moreover have "critical_queue (cleared r) = critical_queue r" "background_cache (cleared r) = background_cache r"
    "critical_processed (cleared r) = 0" "background_dropped (cleared r) = 0"
    by (simp_all add: cleared_def)
  moreover note reset_spec [OF assms]
  ultimately show ?thesis
    using assms(1) by (auto simp: on_key_def)
qed

theorem keyboard_actions_witness:
  "\<exists>app' r'. on_key sample_env CHR ''R'' tui_new two_topics = Inr (True, app', r') \<and> reset_stats sample_env two_topics = Inr r'"
  using keyboard_actions [OF two_topics_inv sample_env_ok, of "CHR ''R''" tui_new] by auto

end
