(* ===== verification/Lifecycle.thy ===== *)
theory Lifecycle
  imports Reactor_Model
begin

text \<open>
  Construction and destruction of the reactor (\<^verbatim>\<open>src/reactor.cpp\<close>): which
  Zenoh and kernel resources are held after each step, and what a constructor that throws
  leaves behind. The C handles have no destructors of their own, and the class's destructor
  does not run when its constructor throws.
\<close>

datatype resource = ZSession | ZKeyexpr | ZPublisher | IoRing | EventFd int

text \<open>What the external calls of the constructor return.\<close>

record ctor_env =
  config_default_ok :: "string option \<Rightarrow> bool"
  session_open_ok :: bool
  estop_keyexpr_ok :: "string \<Rightarrow> bool"
  publisher_ok :: bool
  ring_init_result :: int
  eventfd_result :: int
  errno :: int
  strerror :: "int \<Rightarrow> string"

text \<open>A constructor step: an exception's message or success, and the resources held.\<close>

type_synonym ctor = "resource list \<Rightarrow> (string + unit) \<times> resource list"

definition setup_io_uring :: "ctor_env \<Rightarrow> ctor" where
  "setup_io_uring e held =
     (let ret = ring_init_result e
      in if ret < 0 then (Inl (''io_uring init failed: '' @ strerror e (- ret)), held)
         else (Inr (), held @ [IoRing]))"

definition declare_estop_publisher :: "ctor_env \<Rightarrow> string \<Rightarrow> ctor" where
  "declare_estop_publisher e estop_path held =
     (if \<not> estop_keyexpr_ok e estop_path then (Inl (''Invalid E-Stop keyexpr: '' @ estop_path), held)
      else let held1 = held @ [ZKeyexpr]
           in if \<not> publisher_ok e then (Inl ''Failed to declare E-Stop publisher'', remove1 ZKeyexpr held1)
              else (Inr (), remove1 ZKeyexpr (held1 @ [ZPublisher])))"

text \<open>\<^verbatim>\<open>setenv("ZENOH_CONFIG", ...)\<close>: what Zenoh's configuration will read.\<close>

definition zenoh_config_env :: "string \<Rightarrow> string option \<Rightarrow> string option" where
  "zenoh_config_env cfg_path old = (if cfg_path \<noteq> '''' then Some cfg_path else old)"

text \<open>The outcome of \<open>z_config_default\<close> may depend on that variable, \<open>var\<close>.\<close>

definition construct :: "ctor_env \<Rightarrow> string option \<Rightarrow> string \<Rightarrow> string \<Rightarrow> string \<Rightarrow> int \<Rightarrow> (string + 'cb reactor) \<times> resource list" where
  "construct e var cfg_path estop_path lkey now =
     (if \<not> config_default_ok e (zenoh_config_env cfg_path var) then (Inl ''Failed to initialize Zenoh config'', [])
      else if \<not> session_open_ok e then (Inl ''Failed to open Zenoh session'', [])
      else case declare_estop_publisher e estop_path [ZSession] of
             (Inl msg, held) \<Rightarrow> (Inl msg, held)
           | (Inr _, held) \<Rightarrow>
               (case setup_io_uring e held of
                  (Inl msg, held') \<Rightarrow> (Inl msg, held')
                | (Inr _, held') \<Rightarrow>
                    (let fd = eventfd_result e
                     in if fd < 0 then (Inl (''eventfd failed: '' @ strerror e (errno e)), held')
                        else (Inr (reactor_new lkey fd now), held' @ [EventFd fd]))))"

text \<open>The destructor: the resources still held after each of its calls.\<close>

definition destruct :: "'cb reactor \<Rightarrow> resource list \<Rightarrow> 'cb reactor \<times> resource list" where
  "destruct r held =
     (let r1 = stop r;
          held1 = (if wakeup_fd r1 \<ge> 0 then remove1 (EventFd (wakeup_fd r1)) held else held);
          held2 = remove1 IoRing held1;
          held3 = remove1 ZPublisher held2;
          held4 = remove1 ZSession held3
      in (r1, held4))"

subsection \<open>Properties\<close>

text \<open>
  C38. Construction succeeds exactly when all six external calls do, and then the destructor
  gives back every resource. A constructor that throws gives nothing back, since no
  destructor runs: what it leaves held is nothing before the session is open, then the
  session, from the publisher on the session and the publisher, and when only the eventfd
  fails the session, the publisher and the ring.
\<close>

theorem construct_destruct_resources:
  assumes "construct e var cfg_path estop_path lkey now = (res, held)" and "cfg_ok = config_default_ok e (zenoh_config_env cfg_path var)"
  shows "case res of
      Inr r \<Rightarrow> cfg_ok \<and> session_open_ok e \<and> estop_keyexpr_ok e estop_path \<and> publisher_ok e \<and>
               ring_init_result e \<ge> 0 \<and> eventfd_result e \<ge> 0 \<and>
               held = [ZSession, ZPublisher, IoRing, EventFd (wakeup_fd r)] \<and> snd (destruct r held) = [] \<and> \<not> running (fst (destruct r held))
    | Inl msg \<Rightarrow> held = (if \<not> cfg_ok \<or> \<not> session_open_ok e then []
                        else if \<not> estop_keyexpr_ok e estop_path \<or> \<not> publisher_ok e then [ZSession]
                        else if ring_init_result e < 0 then [ZSession, ZPublisher]
                        else [ZSession, ZPublisher, IoRing]) \<and>
               \<not> (cfg_ok \<and> session_open_ok e \<and> estop_keyexpr_ok e estop_path \<and> publisher_ok e \<and>
                  ring_init_result e \<ge> 0 \<and> eventfd_result e \<ge> 0)"
  using assms
  by (auto simp: construct_def declare_estop_publisher_def setup_io_uring_def destruct_def stop_def io_def reactor_new_def Let_def
      split: if_splits)

definition sample_ctor :: ctor_env where
  "sample_ctor = \<lparr>config_default_ok = (\<lambda>v. v \<noteq> None), session_open_ok = True, estop_keyexpr_ok = (\<lambda>p. p \<noteq> ''''), publisher_ok = True,
                  ring_init_result = - 12, eventfd_result = 5, errno = 0, strerror = (\<lambda>n. ''ENOMEM'')\<rparr>"

text \<open>Only the eventfd fails: session, publisher and ring stay held.\<close>

theorem construct_destruct_resources_witness:
  "snd (construct (sample_ctor\<lparr>config_default_ok := (\<lambda>v. True), ring_init_result := 0, eventfd_result := - 1\<rparr>)
     None ''zenoh.json5'' ''robot/*/cmd/estop'' ''robot/**'' 0 :: (string + nat reactor) \<times> resource list) = [ZSession, ZPublisher, IoRing]"
proof -
  let ?e = "sample_ctor\<lparr>config_default_ok := (\<lambda>v. True), ring_init_result := 0, eventfd_result := - 1\<rparr>"
  obtain res held where c: "(construct ?e None ''zenoh.json5'' ''robot/*/cmd/estop'' ''robot/**'' 0 :: (string + nat reactor) \<times> resource list) = (res, held)"
    by (cases "construct ?e None ''zenoh.json5'' ''robot/*/cmd/estop'' ''robot/**'' 0 :: (string + nat reactor) \<times> resource list")
  show ?thesis unfolding c snd_conv
    using construct_destruct_resources [OF c refl] by (cases res) (auto simp: sample_ctor_def)
qed

end
