(* ===== verification/Main_App.thy ===== *)
theory Main_App
  imports TUI Lifecycle
begin

text \<open>
  \<^verbatim>\<open>src/main.cpp\<close>: from the configuration to a running reactor, the callback it
  registers for every handler, and the exit status. The FlatBuffers accessors are
  arguments. The callback type of the reactor is instantiated with what the lambda
  captures, the priority.
\<close>

subsection \<open>Registration from the configuration\<close>

definition parse_priority :: "string \<Rightarrow> TopicPriority" where
  "parse_priority priority_str =
     (if priority_str = ''CRITICAL'' then CRITICAL
      else if priority_str = ''NORMAL'' then NORMAL
      else BACKGROUND)"

definition register_config :: "Config \<Rightarrow> TopicPriority reactor \<Rightarrow> TopicPriority reactor" where
  "register_config cfg r =
     fold (\<lambda>hc. let prio = parse_priority (hc_priority hc) in register_handler (hc_path hc) prio prio)
          (cfg_handlers cfg) r"

subsection \<open>The callback\<close>

datatype fb_type = FbEStop | FbTelemetry | FbOther

datatype e2e_log = EStopLatency double | TelemetryLatency double | CostmapLatency double

text \<open>
  \<open>payload_type\<close> and \<open>timestamp\<close> read the verified buffer (\<open>None\<close> is a null payload
  table); \<open>now\<close> is the system clock's count. The difference is taken in 64-bit unsigned
  arithmetic before it becomes a double.
\<close>

definition e2e_latency :: "int \<Rightarrow> u64 \<Rightarrow> double" where
  "e2e_latency now timestamp = fdiv (of_integer (uint (of_int now - timestamp))) 1000"

definition on_message :: "(bytes \<Rightarrow> fb_type) \<Rightarrow> (bytes \<Rightarrow> u64 option) \<Rightarrow> int \<Rightarrow> TopicPriority \<Rightarrow> bytes \<Rightarrow> e2e_log option" where
  "on_message payload_type timestamp now prio data =
     (if prio = CRITICAL \<and> payload_type data = FbEStop
      then map_option (\<lambda>t. EStopLatency (e2e_latency now t)) (timestamp data)
      else if prio = NORMAL \<and> payload_type data = FbTelemetry
      then map_option (\<lambda>t. TelemetryLatency (e2e_latency now t)) (timestamp data)
      else if prio = BACKGROUND \<and> payload_type data = FbTelemetry
      then map_option (\<lambda>t. CostmapLatency (e2e_latency now t)) (timestamp data)
      else None)"

subsection \<open>The program\<close>

datatype exit_status = Exit int | Crash

definition main_config_path :: "string list \<Rightarrow> string" where
  "main_config_path argv = (if length argv > 1 then argv ! 1 else ''config/default.yaml'')"

text \<open>
  What \<^verbatim>\<open>main\<close> does before it chooses its mode: it ends here, or it has a
  configuration and a reactor with its handlers. \<^verbatim>\<open>load\<close> is called outside the
  \<^verbatim>\<open>try\<close> block, the constructor inside.
\<close>

definition main_setup ::
    "'n yaml \<Rightarrow> ctor_env \<Rightarrow> string option \<Rightarrow> int \<Rightarrow> string list \<Rightarrow> exit_status + (Config \<times> TopicPriority reactor)" where
  "main_setup y ce var now argv =
     (case load y (main_config_path argv) config_default of
        Inl e \<Rightarrow> Inl Crash
      | Inr (False, cfg) \<Rightarrow> Inl (Exit 1)
      | Inr (True, cfg) \<Rightarrow>
          (case fst (construct ce var (zenoh_config_path (zenoh cfg)) (estop_publish_path (liveliness cfg))
                       (lv_key (liveliness cfg)) now) of
             Inl msg \<Rightarrow> Inl (Exit 1)
           | Inr r \<Rightarrow> Inr (cfg, register_config cfg r)))"

subsection \<open>Lemmas\<close>

lemma register_config_inv: "reactor_inv r \<Longrightarrow> reactor_inv (register_config cfg r)"
proof -
  have "reactor_inv r \<Longrightarrow> reactor_inv (fold (\<lambda>hc. let prio = parse_priority (hc_priority hc) in register_handler (hc_path hc) prio prio) hcs r)" for hcs
    by (induction hcs arbitrary: r) (simp_all add: Let_def register_handler_inv)
  then show "reactor_inv r \<Longrightarrow> reactor_inv (register_config cfg r)" by (simp add: register_config_def)
qed

lemma register_config_handlers:
  "map (\<lambda>h. (path h, priority h, callback h)) (handlers (register_config cfg r)) =
     map (\<lambda>h. (path h, priority h, callback h)) (handlers r) @
     map (\<lambda>hc. (hc_path hc, parse_priority (hc_priority hc), parse_priority (hc_priority hc))) (cfg_handlers cfg)"
proof -
  have "map (\<lambda>h. (path h, priority h, callback h)) (handlers (fold (\<lambda>hc. let prio = parse_priority (hc_priority hc) in register_handler (hc_path hc) prio prio) hcs r)) =
     map (\<lambda>h. (path h, priority h, callback h)) (handlers r) @
     map (\<lambda>hc. (hc_path hc, parse_priority (hc_priority hc), parse_priority (hc_priority hc))) hcs" for hcs
    by (induction hcs arbitrary: r) (simp_all add: Let_def, simp add: register_handler_def Let_def)
  then show ?thesis by (simp add: register_config_def)
qed

lemma register_config_calls: "calls (register_config cfg r) = calls r"
proof -
  have "calls (fold (\<lambda>hc. let prio = parse_priority (hc_priority hc) in register_handler (hc_path hc) prio prio) hcs r) = calls r" for hcs
    by (induction hcs arbitrary: r) (simp_all add: Let_def, simp add: register_handler_def Let_def)
  then show ?thesis by (simp add: register_config_def)
qed

lemma construct_reactor: "fst (construct ce var zp ep lk now) = Inr r \<Longrightarrow> \<exists>fd. r = reactor_new lk fd now"
  by (auto simp: construct_def Let_def split: if_splits sum.splits prod.splits)

subsection \<open>Properties\<close>

text \<open>
  Every configured handler is registered, in order, with the priority its string names;
  only the two exact upper-case words name CRITICAL and NORMAL, any other spelling silently
  becomes BACKGROUND, whose frames may be overwritten.
\<close>

theorem configured_handlers_registered:
  "map (\<lambda>h. (path h, priority h)) (handlers (register_config cfg (reactor_new lk fd now))) =
     map (\<lambda>hc. (hc_path hc, parse_priority (hc_priority hc))) (cfg_handlers cfg) \<and>
   (parse_priority s = CRITICAL \<longleftrightarrow> s = ''CRITICAL'') \<and> (parse_priority s = NORMAL \<longleftrightarrow> s = ''NORMAL'') \<and>
   parse_priority ''critical'' = BACKGROUND"
proof -
  have "map (\<lambda>h. (path h, priority h)) (handlers (register_config cfg (reactor_new lk fd now))) =
      map (\<lambda>(p, q, c). (p, q)) (map (\<lambda>h. (path h, priority h, callback h)) (handlers (register_config cfg (reactor_new lk fd now))))"
    by simp
  then show ?thesis
    by (simp only: register_config_handlers) (simp add: reactor_new_def parse_priority_def comp_def)
qed

text \<open>
  C39. The reported end-to-end latency for every 64-bit timestamp, with a system clock from
  0 up to 2^63: the rounded difference in microseconds when the timestamp is not in the
  future, otherwise the difference wrapped around 64 bits. A timestamp at most 2^63 ahead of
  the clock, as one taken from another clock can be, is reported as at least nine
  quadrillion microseconds.
\<close>

theorem e2e_latency_wraps:
  assumes "0 \<le> now" "now < 2 ^ 63"
  shows "e2e_latency now ts = fdiv (of_integer (if uint ts \<le> now then now - uint ts else 2 ^ 64 - (uint ts - now))) 1000 \<and>
    (now < uint ts \<and> uint ts - now \<le> 2 ^ 63 \<longrightarrow> e2e_latency now ts \<ge> 9000000000000000)"
proof -
  define d where "d = (if uint ts \<le> now then now - uint ts else 2 ^ 64 - (uint ts - now))"
  have ts: "0 \<le> uint ts" "uint ts < 2 ^ 64" using uint_bounded [of ts] by simp_all
  have "now - u < 2 ^ 64" if "0 \<le> u" for u using that assms(2) by simp
  from this [OF ts(1)]
  have d: "0 \<le> d" "d < 2 ^ 64" using assms ts by (simp_all add: d_def)
  have "uint (of_int now - ts) = (now - uint ts) mod 2 ^ 64"
  proof -
    have "of_int now - ts = word_of_int (now - uint ts)" by (simp add: of_int_diff)
    then show ?thesis by (simp only: uint_word_of_int) simp
  qed
  also have "\<dots> = d mod 2 ^ 64"
  proof (cases "uint ts \<le> now")
    case False
    then have "d mod 2 ^ 64 = (now - uint ts + 2 ^ 64) mod 2 ^ 64" by (simp add: d_def algebra_simps)
    then show ?thesis by simp
  qed (simp add: d_def)
  also have "\<dots> = d" using d by (rule mod_pos_pos_trivial)
  finally have e: "e2e_latency now ts = fdiv (of_integer d) 1000" by (simp add: e2e_latency_def)
  have "9 * 10 ^ 15 \<le> fdiv (of_integer d) 1000" if "now < uint ts" "uint ts - now \<le> 2 ^ 63"
  proof -
    have "9000000000000000000 \<le> d" using that by (simp add: d_def)
    then have "rnd53 (of_int (9 * 10 ^ 15) * 1000) \<le> rnd53 (of_int d)" by (intro rnd53_mono) simp_all
    moreover have "rnd53 (of_int (9 * 10 ^ 15) * 1000) = 9 * 10 ^ 15 * 1000" by code_simp
    ultimately have "of_int (9 * 10 ^ 15) \<le> of_integer d / 1000" by (simp add: of_integer_def)
    then have "rnd53 (of_int (9 * 10 ^ 15)) \<le> fdiv (of_integer d) 1000" unfolding fdiv_def by (intro rnd53_mono) simp_all
    moreover have "rnd53 (of_int (9 * 10 ^ 15)) = of_int (9 * 10 ^ 15)" by (rule rnd53_int) simp_all
    ultimately show ?thesis by simp
  qed
  then show ?thesis using e by (simp add: d_def)
qed

theorem e2e_latency_wraps_witness:
  "e2e_latency 1000000 250000 = fdiv (of_integer 750000) 1000 \<and> e2e_latency 5 6 \<ge> 9000000000000000"
  using e2e_latency_wraps [of 1000000 250000] e2e_latency_wraps [of 5 6] by simp

end
