(* ===== verification/Program_Threads.thy ===== *)
theory Program_Threads
  imports Main_App Reactor_Concurrent
begin

text \<open>
  The whole program in its UI mode (\<^verbatim>\<open>src/main.cpp\<close>,
  \<^verbatim>\<open>src/tui/tui_app.cpp\<close>): the main thread, which builds the UI, runs the screen's
  loop, stops and joins; the reactor's thread; the refresh thread; Zenoh's threads and the
  signal handler. The mutex of the displayed data is explicit; a section under
  \<^verbatim>\<open>latency_mutex_\<close> or \<^verbatim>\<open>session_mutex_\<close> takes no other lock and is one step.
\<close>

subsection \<open>State\<close>

datatype panel = PHeader | PChannels | PSessions | PHandlers

datatype reactor_pc = NotSpawned | Spawned | Entered

text \<open>Where \<^verbatim>\<open>main\<close> is, with \<^verbatim>\<open>TUIApp::run\<close> and \<^verbatim>\<open>TUIApp::stop\<close> inlined.\<close>

datatype main_pc =
    MSpawn | MTuiRun | MSpawnRefresh
  | MLoop | MDraw panel | MQuitExit | MQuitJoin
  | MStop | MStopWrite | MJoin
  | MDestroy | MDestroyExit | MDestroyJoin | MExit

text \<open>Where the refresh thread is; a channel's getter reads two counters, then the window.\<close>

datatype refresh_pc =
    FOff | FCheck | FLock
  | FProcessed TopicPriority | FDropped TopicPriority u64 | FWindow TopicPriority u64 u64
  | FSessions | FHandlers | FUptime | FPost | FSleep | FEnd

datatype owner = ByMain | ByRefresh

text \<open>
  \<open>drawn\<close> records the panels drawn, \<open>published\<close> the displayed data as each refresh left it;
  \<open>data_mutex\<close> is who holds the mutex.
\<close>

record 'cb program =
  shared :: "'cb conc"
  reactor_at :: reactor_pc
  main_at :: main_pc
  refresh_at :: refresh_pc
  ui :: tui_app
  data_mutex :: "owner option"
  drawn :: "(panel \<times> element) list"
  published :: "tui_app list"

definition draw_panel :: "Config \<Rightarrow> panel \<Rightarrow> tui_app \<Rightarrow> element" where
  "draw_panel cfg k app =
     (case k of PHeader \<Rightarrow> render_header cfg app | PChannels \<Rightarrow> render_channels app
      | PSessions \<Rightarrow> render_sessions app | PHandlers \<Rightarrow> render_handlers app)"

definition ui_log :: "string list \<Rightarrow> tui_app \<Rightarrow> tui_app" where
  "ui_log es app = app\<lparr>ui_trace := ui_trace app @ es\<rparr>"

subsection \<open>The main thread\<close>

text \<open>
  The screen's loop draws, hands keys to the handler, and returns after \<^verbatim>\<open>Exit\<close> or on
  its own. Thread 0 of \<open>shared\<close> is the main thread inside \<^verbatim>\<open>DataFlowReactor::stop\<close>.
\<close>

inductive main_step :: "env \<Rightarrow> Config \<Rightarrow> 'cb program \<Rightarrow> 'cb program \<Rightarrow> bool" for env cfg where
  spawn_reactor: "main_at p = MSpawn \<Longrightarrow> main_step env cfg p (p\<lparr>reactor_at := Spawned, main_at := MTuiRun\<rparr>)"
| tui_enters: "main_at p = MTuiRun \<Longrightarrow>
    main_step env cfg p (p\<lparr>main_at := MSpawnRefresh, ui := (ui p)\<lparr>tui_running := True\<rparr>\<rparr>)"
| spawn_refresh: "main_at p = MSpawnRefresh \<Longrightarrow>
    main_step env cfg p (p\<lparr>main_at := MLoop, refresh_at := FCheck,
      ui := ui_log [''spawn refresh'', ''Loop''] ((ui p)\<lparr>refresh_joinable := True\<rparr>)\<rparr>)"
| draw_locks: "main_at p = MLoop \<Longrightarrow> data_mutex p = None \<Longrightarrow>
    main_step env cfg p (p\<lparr>main_at := MDraw k, data_mutex := Some ByMain\<rparr>)"
| draws: "main_at p = MDraw k \<Longrightarrow>
    main_step env cfg p (p\<lparr>main_at := MLoop, data_mutex := None, drawn := drawn p @ [(k, draw_panel cfg k (ui p))]\<rparr>)"
| key_reset: "main_at p = MLoop \<Longrightarrow> reset_stats env (mem (shared p)) = Inr r \<Longrightarrow>
    main_step env cfg p (p\<lparr>shared := (shared p)\<lparr>mem := r\<rparr>\<rparr>)"
| key_quit: "main_at p = MLoop \<Longrightarrow>
    main_step env cfg p (p\<lparr>main_at := MQuitExit, ui := (ui p)\<lparr>tui_running := False\<rparr>\<rparr>)"
| quit_exits: "main_at p = MQuitExit \<Longrightarrow>
    main_step env cfg p (p\<lparr>main_at := MQuitJoin, ui := ui_log [''Exit''] (ui p)\<rparr>)"
| quit_joins: "main_at p = MQuitJoin \<Longrightarrow> refresh_joinable (ui p) \<Longrightarrow> refresh_at p = FEnd \<Longrightarrow>
    main_step env cfg p (p\<lparr>main_at := MLoop, ui := ui_log [''join refresh''] ((ui p)\<lparr>refresh_joinable := False\<rparr>)\<rparr>)"
| quit_joined: "main_at p = MQuitJoin \<Longrightarrow> \<not> refresh_joinable (ui p) \<Longrightarrow> main_step env cfg p (p\<lparr>main_at := MLoop\<rparr>)"
| screen_ends: "main_at p = MLoop \<Longrightarrow> main_step env cfg p (p\<lparr>main_at := MStop\<rparr>)"
| stop_reactor: "main_at p = MStop \<Longrightarrow>
    main_step env cfg p (p\<lparr>shared := stop_store 0 (shared p), main_at := MStopWrite\<rparr>)"
| stop_writes: "main_at p = MStopWrite \<Longrightarrow>
    main_step env cfg p (p\<lparr>shared := thread_step env 0 (shared p) (pcs (shared p) 0), main_at := MJoin\<rparr>)"
| joins_reactor: "main_at p = MJoin \<Longrightarrow> reactor_at p = Entered \<Longrightarrow> loop (shared p) = LDone \<Longrightarrow>
    main_step env cfg p (p\<lparr>main_at := MDestroy\<rparr>)"
| tui_destroyed: "main_at p = MDestroy \<Longrightarrow>
    main_step env cfg p (p\<lparr>main_at := MDestroyExit, ui := (ui p)\<lparr>tui_running := False\<rparr>\<rparr>)"
| destroy_exits: "main_at p = MDestroyExit \<Longrightarrow>
    main_step env cfg p (p\<lparr>main_at := MDestroyJoin, ui := ui_log [''Exit''] (ui p)\<rparr>)"
| destroy_joins: "main_at p = MDestroyJoin \<Longrightarrow> refresh_joinable (ui p) \<Longrightarrow> refresh_at p = FEnd \<Longrightarrow>
    main_step env cfg p (p\<lparr>main_at := MExit, ui := ui_log [''join refresh''] ((ui p)\<lparr>refresh_joinable := False\<rparr>)\<rparr>)"
| destroy_joined: "main_at p = MDestroyJoin \<Longrightarrow> \<not> refresh_joinable (ui p) \<Longrightarrow> main_step env cfg p (p\<lparr>main_at := MExit\<rparr>)"

subsection \<open>The refresh thread\<close>

definition processed_of :: "TopicPriority \<Rightarrow> 'cb reactor \<Rightarrow> u64" where
  "processed_of prio r = (case prio of CRITICAL \<Rightarrow> critical_processed r | NORMAL \<Rightarrow> normal_processed r | BACKGROUND \<Rightarrow> background_processed r)"

definition dropped_of :: "TopicPriority \<Rightarrow> 'cb reactor \<Rightarrow> u64" where
  "dropped_of prio r = (case prio of CRITICAL \<Rightarrow> critical_dropped r | NORMAL \<Rightarrow> normal_dropped r | BACKGROUND \<Rightarrow> background_dropped r)"

definition latencies_of :: "TopicPriority \<Rightarrow> 'cb reactor \<Rightarrow> double list" where
  "latencies_of prio r = (case prio of CRITICAL \<Rightarrow> critical_latencies r | NORMAL \<Rightarrow> normal_latencies r | BACKGROUND \<Rightarrow> background_latencies r)"

definition show_channel :: "TopicPriority \<Rightarrow> ChannelStats \<Rightarrow> tui_app \<Rightarrow> tui_app" where
  "show_channel prio st app =
     (case prio of CRITICAL \<Rightarrow> app\<lparr>critical_stats := st\<rparr> | NORMAL \<Rightarrow> app\<lparr>normal_stats := st\<rparr>
      | BACKGROUND \<Rightarrow> app\<lparr>background_stats := st\<rparr>)"

fun after_channel :: "TopicPriority \<Rightarrow> refresh_pc" where
  "after_channel CRITICAL = FProcessed NORMAL"
| "after_channel NORMAL = FProcessed BACKGROUND"
| "after_channel BACKGROUND = FSessions"

text \<open>\<open>order\<close> is the iteration order of the session map, \<open>now\<close> a reading of the clock.\<close>

inductive refresh_step :: "(session_map \<Rightarrow> string list) \<Rightarrow> 'cb program \<Rightarrow> 'cb program \<Rightarrow> bool" for order where
  refresh_goes_on: "refresh_at p = FCheck \<Longrightarrow> tui_running (ui p) \<Longrightarrow> refresh_step order p (p\<lparr>refresh_at := FLock\<rparr>)"
| refresh_ends: "refresh_at p = FCheck \<Longrightarrow> \<not> tui_running (ui p) \<Longrightarrow> refresh_step order p (p\<lparr>refresh_at := FEnd\<rparr>)"
| refresh_locks: "refresh_at p = FLock \<Longrightarrow> data_mutex p = None \<Longrightarrow>
    refresh_step order p (p\<lparr>refresh_at := FProcessed CRITICAL, data_mutex := Some ByRefresh\<rparr>)"
| loads_processed: "refresh_at p = FProcessed prio \<Longrightarrow>
    refresh_step order p (p\<lparr>refresh_at := FDropped prio (processed_of prio (mem (shared p)))\<rparr>)"
| loads_dropped: "refresh_at p = FDropped prio n \<Longrightarrow>
    refresh_step order p (p\<lparr>refresh_at := FWindow prio n (dropped_of prio (mem (shared p)))\<rparr>)"
| reads_window: "refresh_at p = FWindow prio n d \<Longrightarrow>
    refresh_step order p (p\<lparr>refresh_at := after_channel prio,
      ui := show_channel prio (channel_stats n d (latencies_of prio (mem (shared p)))) (ui p)\<rparr>)"
| reads_sessions: "refresh_at p = FSessions \<Longrightarrow>
    refresh_step order p (p\<lparr>refresh_at := FHandlers,
      ui := (ui p)\<lparr>sessions := get_sessions (order (session_last_seen (mem (shared p)))) now (session_last_seen (mem (shared p)))\<rparr>\<rparr>)"
| reads_handlers: "refresh_at p = FHandlers \<Longrightarrow>
    refresh_step order p (p\<lparr>refresh_at := FUptime, ui := (ui p)\<lparr>handler_rows := get_handler_statuses (mem (shared p))\<rparr>\<rparr>)"
| reads_uptime: "refresh_at p = FUptime \<Longrightarrow>
    refresh_step order p (p\<lparr>refresh_at := FPost, ui := (ui p)\<lparr>uptime_seconds := get_uptime_seconds now (mem (shared p))\<rparr>\<rparr>)"
| posts: "refresh_at p = FPost \<Longrightarrow>
    refresh_step order p (p\<lparr>refresh_at := FSleep, ui := ui_log [''PostEvent''] (ui p), data_mutex := None,
      published := published p @ [ui p]\<rparr>)"
| wakes: "refresh_at p = FSleep \<Longrightarrow> refresh_step order p (p\<lparr>refresh_at := FCheck\<rparr>)"

subsection \<open>The reactor's thread, Zenoh and signals\<close>

inductive reactor_step :: "env \<Rightarrow> 'cb program \<Rightarrow> 'cb program \<Rightarrow> bool" for env where
  enters_run: "reactor_at p = Spawned \<Longrightarrow>
    reactor_step env p (p\<lparr>reactor_at := Entered,
      shared := (shared p)\<lparr>mem := run_start env (mem (shared p)), loop := LCheck\<rparr>\<rparr>)"
| loop_runs: "reactor_at p = Entered \<Longrightarrow> loop (shared p) \<noteq> LDone \<Longrightarrow>
    reactor_step env p (p\<lparr>shared := loop_step env (shared p) (loop (shared p))\<rparr>)"

text \<open>Zenoh's threads call back once \<^verbatim>\<open>run\<close> has subscribed; a signal stops at any time.\<close>

inductive outside_step :: "env \<Rightarrow> 'cb program \<Rightarrow> 'cb program \<Rightarrow> bool" for env where
  zenoh_enters: "reactor_at p = Entered \<Longrightarrow> t \<noteq> 0 \<Longrightarrow> pcs (shared p) t = Outside \<Longrightarrow>
    ctx \<in> set (contexts (mem (shared p))) \<Longrightarrow> admissible env smp \<Longrightarrow>
    outside_step env p (p\<lparr>shared := set_thread t (Tracking ctx smp) (shared p)\<rparr>)"
| thread_goes_on: "t \<noteq> 0 \<Longrightarrow> pcs (shared p) t \<noteq> Outside \<Longrightarrow>
    outside_step env p (p\<lparr>shared := thread_step env t (shared p) (pcs (shared p) t)\<rparr>)"
| zenoh_liveliness: "reactor_at p = Entered \<Longrightarrow>
    outside_step env p (p\<lparr>shared := (shared p)\<lparr>mem := zenoh_liveliness_callback env smp (mem (shared p))\<rparr>\<rparr>)"
| signal_stops: "t \<noteq> 0 \<Longrightarrow> pcs (shared p) t = Outside \<Longrightarrow>
    outside_step env p (p\<lparr>shared := stop_store t (shared p)\<rparr>)"

text \<open>A step of the program's own three threads, and of anybody.\<close>

definition own_step :: "env \<Rightarrow> (session_map \<Rightarrow> string list) \<Rightarrow> Config \<Rightarrow> 'cb program \<Rightarrow> 'cb program \<Rightarrow> bool" where
  "own_step env order cfg p p' \<longleftrightarrow> main_step env cfg p p' \<or> refresh_step order p p' \<or> reactor_step env p p'"

definition program_step :: "env \<Rightarrow> (session_map \<Rightarrow> string list) \<Rightarrow> Config \<Rightarrow> 'cb program \<Rightarrow> 'cb program \<Rightarrow> bool" where
  "program_step env order cfg p p' \<longleftrightarrow> own_step env order cfg p p' \<or> outside_step env p p'"

definition program_start :: "'cb reactor \<Rightarrow> 'cb program" where
  "program_start r =
     \<lparr>shared = \<lparr>mem = r, loop = LDone, pcs = (\<lambda>t. Outside), conc_fault = None,
                taken_in = [], turned_away = 0, handled = [], stored = (\<lambda>k. 0)\<rparr>,
      reactor_at = NotSpawned, main_at = MSpawn, refresh_at = FOff, ui = tui_new, data_mutex = None,
      drawn = [], published = [tui_new]\<rparr>"

inductive program_reachable ::
    "env \<Rightarrow> (session_map \<Rightarrow> string list) \<Rightarrow> Config \<Rightarrow> 'cb reactor \<Rightarrow> 'cb program \<Rightarrow> bool" for env order cfg r where
  program_begins: "program_reachable env order cfg r (program_start r)"
| program_goes_on: "program_reachable env order cfg r p \<Longrightarrow> program_step env order cfg p p' \<Longrightarrow> program_reachable env order cfg r p'"

subsection \<open>The reactor before and after it enters its loop\<close>

definition fresh :: "'cb reactor \<Rightarrow> 'cb conc \<Rightarrow> bool" where
  "fresh r s \<longleftrightarrow>
     reactor_inv (mem s) \<and> idle (mem s) \<and> handlers (mem s) = handlers r \<and> conc_fault s = None \<and> loop s = LDone \<and>
     taken_in s = [] \<and> turned_away s = 0 \<and> handled s = [] \<and> stored s = (\<lambda>k. 0) \<and>
     (\<forall>t. pcs s t = Outside \<or> (\<exists>fd. pcs s t = Waking fd))"

definition live :: "'cb reactor \<Rightarrow> 'cb conc \<Rightarrow> bool" where
  "live r s \<longleftrightarrow>
     (\<exists>b. conc_inv b s \<and> (\<forall>ctx \<in> set (contexts b). subscribed b ctx) \<and> handlers b = handlers r) \<and>
     (loop s = LDone \<longrightarrow> \<not> running (mem s))"

lemma fresh_change:
  assumes "fresh r s" "same_core (mem s) m" "windows_inv m" "\<forall>t. pcs s' t = Outside \<or> (\<exists>fd. pcs s' t = Waking fd)"
    and "s' = s\<lparr>mem := m, pcs := pcs s'\<rparr>"
  shows "fresh r s'"
proof -
  have "reactor_inv m" using same_core_inv assms(1-3) by (auto simp: fresh_def)
  moreover have "idle m" using assms(1,2) by (simp add: fresh_def idle_def same_core_def)
  ultimately show ?thesis
    using assms(1,2,4) by (subst assms(5)) (simp add: fresh_def same_core_def same_setup_def)
qed

lemma fresh_windows: "fresh r s \<Longrightarrow> windows_inv (mem s)"
  by (simp add: fresh_def reactor_inv_def)

lemma fresh_stop:
  assumes "fresh r s"
  shows "fresh r (stop_store t s)"
  by (rule fresh_change [OF assms, of "(mem s)\<lparr>running := False\<rparr>"])
     (use assms in \<open>simp_all add: core_running fresh_windows stop_store_def set_thread_def fresh_def\<close>)

lemma fresh_reset:
  assumes "fresh r s" "reset_stats env (mem s) = Inr m"
  shows "fresh r (s\<lparr>mem := m\<rparr>)"
  by (rule fresh_change [OF assms(1), of m]) (use assms core_reset [OF assms(2)] in \<open>simp_all add: fresh_def\<close>)

lemma fresh_thread:
  assumes "fresh r s"
  shows "fresh r (thread_step env t s (pcs s t))"
proof -
  have "pcs s t = Outside \<or> (\<exists>fd. pcs s t = Waking fd)" using assms by (simp add: fresh_def)
  then consider "pcs s t = Outside" | fd where "pcs s t = Waking fd" by blast
  then show ?thesis
  proof cases
    case (2 fd)
    then show ?thesis
      using assms by (intro fresh_change [OF assms, of "io (EventfdWrite fd) (mem s)"])
        (simp_all add: core_io fresh_windows set_thread_def fresh_def)
  qed (use assms in simp)
qed

lemma conc_inv_pcs:
  "conc_inv b s \<Longrightarrow> (\<And>t ctx smp. f t \<noteq> Tracking ctx smp \<and> f t \<noteq> Sending ctx smp) \<Longrightarrow> conc_inv b (s\<lparr>pcs := f\<rparr>)"
  by (simp add: conc_invs)

lemma fresh_enters:
  assumes "fresh r s"
  shows "live r (s\<lparr>mem := run_start env (mem s), loop := LCheck\<rparr>)"
proof -
  let ?b = "run_start env (mem s)" and ?s = "s\<lparr>mem := run_start env (mem s), loop := LCheck\<rparr>"
  have inv: "reactor_inv (mem s)" "idle (mem s)" using assms by (simp_all add: fresh_def)
  have "?s = (conc_start env (mem s))\<lparr>pcs := pcs s\<rparr>"
    using assms by (simp add: fresh_def conc_start_def)
  moreover have "pcs s t \<noteq> Tracking ctx smp \<and> pcs s t \<noteq> Sending ctx smp" for t ctx smp
  proof -
    have "pcs s t = Outside \<or> (\<exists>fd. pcs s t = Waking fd)" using assms by (simp add: fresh_def)
    then show ?thesis by auto
  qed
  ultimately have "conc_inv ?b ?s" using conc_inv_pcs [OF conc_start_inv [OF inv, of env]] by metis
  moreover have "handlers ?b = handlers r" using run_start_spec(4) [OF inv(1)] assms by (simp add: fresh_def)
  ultimately show ?thesis using run_start_spec(3) [OF inv(1), of env] unfolding live_def by auto
qed

lemma live_step:
  assumes "live r s" "conc_step env s s'" "env_ok env" "loop s' = LDone \<longrightarrow> \<not> running (mem s')"
  shows "live r s'"
  using assms conc_step_inv unfolding live_def by blast

subsection \<open>Invariants of the program\<close>

fun in_section :: "refresh_pc \<Rightarrow> bool" where
  "in_section (FProcessed prio) = True" | "in_section (FDropped prio n) = True" | "in_section (FWindow prio n d) = True"
| "in_section FSessions = True" | "in_section FHandlers = True" | "in_section FUptime = True" | "in_section FPost = True"
| "in_section pc = False"

definition lock_inv :: "'cb program \<Rightarrow> bool" where
  "lock_inv p \<longleftrightarrow>
     (data_mutex p = Some ByMain \<longleftrightarrow> (\<exists>k. main_at p = MDraw k)) \<and>
     (data_mutex p = Some ByRefresh \<longleftrightarrow> in_section (refresh_at p))"

definition core_inv :: "'cb reactor \<Rightarrow> 'cb program \<Rightarrow> bool" where
  "core_inv r p \<longleftrightarrow> (if reactor_at p = Entered then live r (shared p) else fresh r (shared p))"

definition flow_inv :: "'cb program \<Rightarrow> bool" where
  "flow_inv p \<longleftrightarrow>
     (reactor_at p = NotSpawned \<longleftrightarrow> main_at p = MSpawn) \<and>
     (refresh_at p = FOff \<longleftrightarrow> main_at p \<in> {MSpawn, MTuiRun, MSpawnRefresh}) \<and>
     (\<not> refresh_joinable (ui p) \<longrightarrow> refresh_at p = FOff \<or> refresh_at p = FEnd) \<and>
     (main_at p \<in> {MQuitExit, MQuitJoin, MDestroyExit, MDestroyJoin} \<longrightarrow> \<not> tui_running (ui p)) \<and>
     (main_at p \<in> {MDestroy, MDestroyExit, MDestroyJoin, MExit} \<longrightarrow> reactor_at p = Entered \<and> loop (shared p) = LDone) \<and>
     (main_at p = MExit \<longrightarrow> \<not> refresh_joinable (ui p))"

text \<open>The displayed data, which the mutex guards.\<close>

definition same_data :: "tui_app \<Rightarrow> tui_app \<Rightarrow> bool" where
  "same_data a b \<longleftrightarrow>
     critical_stats a = critical_stats b \<and> normal_stats a = normal_stats b \<and> background_stats a = background_stats b \<and>
     sessions a = sessions b \<and> handler_rows a = handler_rows b \<and> uptime_seconds a = uptime_seconds b"

lemma draw_same_data: "same_data a b \<Longrightarrow> draw_panel cfg k a = draw_panel cfg k b"
  by (cases k) (simp_all add: same_data_def draw_panel_def render_header_def render_channels_def render_sessions_def render_handlers_def)

lemma same_data_simps [simp]:
  "same_data a a" "same_data (ui_log es a) b = same_data a b" "same_data (a\<lparr>tui_running := x\<rparr>) b = same_data a b"
  "same_data (a\<lparr>refresh_joinable := x\<rparr>) b = same_data a b"
  "tui_running (ui_log es a) = tui_running a" "refresh_joinable (ui_log es a) = refresh_joinable a"
  by (simp_all add: same_data_def ui_log_def)

lemma show_channel_simps [simp]:
  "tui_running (show_channel prio st a) = tui_running a" "refresh_joinable (show_channel prio st a) = refresh_joinable a"
  by (cases prio; simp add: show_channel_def)+

lemma after_channel_simps [simp]: "in_section (after_channel prio)" "after_channel prio \<noteq> FOff" "after_channel prio \<noteq> FEnd"
  by (cases prio; simp)+

lemma main_lock:
  assumes "main_step env cfg p p'" "lock_inv p" "flow_inv p"
  shows "lock_inv p'"
  using assms(1) by cases (use assms(2,3) in \<open>auto simp: lock_inv_def flow_inv_def\<close>)

lemma refresh_lock:
  assumes "refresh_step order p p'" "lock_inv p"
  shows "lock_inv p'"
  using assms(1) by cases (use assms(2) in \<open>auto simp: lock_inv_def\<close>)

lemma reactor_lock:
  assumes "reactor_step env p p'" "lock_inv p"
  shows "lock_inv p'"
  using assms(1) by cases (use assms(2) in \<open>auto simp: lock_inv_def\<close>)

lemma outside_lock:
  assumes "outside_step env p p'" "lock_inv p"
  shows "lock_inv p'"
  using assms(1) by cases (use assms(2) in \<open>auto simp: lock_inv_def\<close>)

lemma main_flow:
  assumes "main_step env cfg p p'" "flow_inv p"
  shows "flow_inv p'"
  using assms(1) by cases (use assms(2) in \<open>auto simp: flow_inv_def\<close>)

lemma refresh_flow:
  assumes "refresh_step order p p'" "flow_inv p"
  shows "flow_inv p'"
  using assms(1) by cases (use assms(2) in \<open>auto simp: flow_inv_def\<close>)

lemma reactor_flow:
  assumes "reactor_step env p p'" "flow_inv p"
  shows "flow_inv p'"
  using assms(1) by cases (use assms(2) in \<open>auto simp: flow_inv_def\<close>)

lemma outside_flow:
  assumes "outside_step env p p'" "flow_inv p"
  shows "flow_inv p'"
  using assms(1) by cases (use assms(2) in \<open>auto simp: flow_inv_def\<close>)

lemma live_reset:
  assumes "live r s" "reset_stats env (mem s) = Inr m" "env_ok env"
  shows "live r (s\<lparr>mem := m\<rparr>)"
  by (rule live_step [OF assms(1) stats_reset [OF assms(2)] assms(3)])
     (use assms(1) core_reset [OF assms(2)] in \<open>simp add: live_def\<close>)

lemma live_stop:
  assumes "live r s"
  shows "live r (stop_store t s)"
proof -
  have "conc_inv b (stop_store t s)" if "conc_inv b s" for b
    using that windows_of_inv [OF that] by (auto simp: stop_store_def core_steps intro!: conc_inv_thread conc_inv_shared)
  then show ?thesis using assms by (auto simp: live_def)
qed

lemma live_thread:
  assumes "live r s" "env_ok env"
  shows "live r (thread_step env t s (pcs s t))"
proof (cases "pcs s t = Outside")
  case False
  show ?thesis
    by (rule live_step [OF assms(1) thread_moves [OF False] assms(2)])
       (use assms(1) in \<open>simp add: live_def thread_step_running\<close>)
qed (use assms in simp)

lemma live_loop:
  assumes "live r s" "env_ok env" "loop s \<noteq> LDone"
  shows "live r (loop_step env s (loop s))"
proof (rule live_step [OF assms(1) loop_moves [OF assms(3)] assms(2)], rule impI)
  assume d: "loop (loop_step env s (loop s)) = LDone"
  have "loop s = LCheck"
  proof (cases "loop s")
    case (LDrain n ord)
    with d show ?thesis
      by (cases ord) (auto simp: drain_step_def Let_def conc_inv_def split: sum.splits option.splits)
  qed (use d assms(3) in \<open>auto simp: pop_step_def call_step_def frame_step_def wait_step_def Let_def
         simp del: dispatch_queued.simps dispatch_background.simps split: sum.splits option.splits prod.splits if_splits\<close>)
  with d show "\<not> running (mem (loop_step env s (loop s)))" by (simp split: if_splits)
qed

lemma main_core:
  assumes "main_step env cfg p p'" "core_inv r p" "env_ok env" "flow_inv p"
  shows "core_inv r p'"
  using assms(1)
proof cases
  case stop_reactor
  then show ?thesis using assms(2-4) live_stop fresh_stop by (auto simp: core_inv_def)
qed (use assms(2-4) live_reset fresh_reset live_thread fresh_thread in \<open>auto simp: core_inv_def flow_inv_def\<close>)

lemma reactor_core:
  assumes "reactor_step env p p'" "core_inv r p" "env_ok env"
  shows "core_inv r p'"
  using assms(1)
proof cases
  case enters_run
  then show ?thesis using assms(2) fresh_enters by (simp add: core_inv_def)
next
  case loop_runs
  then show ?thesis using assms(2,3) live_loop by (simp add: core_inv_def)
qed

lemma refresh_core: "refresh_step order p p' \<Longrightarrow> core_inv r p \<Longrightarrow> core_inv r p'"
  by (erule refresh_step.cases) (simp_all add: core_inv_def)

lemma outside_core:
  assumes "outside_step env p p'" "core_inv r p" "env_ok env"
  shows "core_inv r p'"
  using assms(1)
proof cases
  case (zenoh_enters t ctx smp)
  have "live r (set_thread t (Tracking ctx smp) (shared p))"
    by (rule live_step [OF _ callback_enters [OF zenoh_enters(4-6)] assms(3)])
       (use assms(2) zenoh_enters(2) in \<open>simp_all add: core_inv_def live_def\<close>)
  then show ?thesis using zenoh_enters by (simp add: core_inv_def)
next
  case (thread_goes_on t)
  then show ?thesis using assms(2,3) live_thread fresh_thread by (auto simp: core_inv_def)
next
  case (zenoh_liveliness smp)
  have "live r ((shared p)\<lparr>mem := zenoh_liveliness_callback env smp (mem (shared p))\<rparr>)"
    by (rule live_step [OF _ liveliness_changes assms(3)])
       (use assms(2) zenoh_liveliness(2) in \<open>simp_all add: core_inv_def live_def zenoh_liveliness_callback_def read_clock_def io_def spdlog_def\<close>)
  then show ?thesis using zenoh_liveliness by (simp add: core_inv_def)
next
  case (signal_stops t)
  then show ?thesis using assms(2) live_stop fresh_stop by (auto simp: core_inv_def)
qed

definition program_inv :: "'cb reactor \<Rightarrow> 'cb program \<Rightarrow> bool" where
  "program_inv r p \<longleftrightarrow> lock_inv p \<and> flow_inv p \<and> core_inv r p"

lemma own_step_inv:
  assumes "own_step env order cfg p p'" "program_inv r p" "env_ok env"
  shows "program_inv r p'"
proof -
  from assms(1) consider "main_step env cfg p p'" | "refresh_step order p p'" | "reactor_step env p p'"
    unfolding own_step_def by blast
  then show ?thesis
  proof cases
    case 1
    then show ?thesis using assms(2,3) main_lock [OF 1] main_flow [OF 1] main_core [OF 1] by (simp add: program_inv_def)
  next
    case 2
    then show ?thesis using assms(2,3) refresh_lock [OF 2] refresh_flow [OF 2] refresh_core [OF 2] by (simp add: program_inv_def)
  next
    case 3
    then show ?thesis using assms(2,3) reactor_lock [OF 3] reactor_flow [OF 3] reactor_core [OF 3] by (simp add: program_inv_def)
  qed
qed

lemma program_step_inv:
  assumes "program_step env order cfg p p'" "program_inv r p" "env_ok env"
  shows "program_inv r p'"
proof (cases "own_step env order cfg p p'")
  case False
  then have "outside_step env p p'" using assms(1) by (simp add: program_step_def)
  then show ?thesis using assms(2,3) outside_lock outside_flow outside_core unfolding program_inv_def by blast
qed (rule own_step_inv [OF _ assms(2,3)])

lemma program_reachable_inv:
  assumes "program_reachable env order cfg r p" "reactor_inv r" "idle r" "env_ok env"
  shows "program_inv r p"
  using assms(1)
proof induction
  case program_begins
  show ?case
    using assms(2,3) by (simp add: program_inv_def lock_inv_def flow_inv_def core_inv_def program_start_def fresh_def tui_new_def)
next
  case (program_goes_on p p')
  then show ?case using program_step_inv assms(4) by blast
qed

end
