(* ===== verification/Program_Shutdown.thy ===== *)
theory Program_Shutdown
  imports Program_Threads
begin

text \<open>
  What holds of the whole program: the panels show complete refreshes, and it can shut
  down exactly when the stop of the reactor did not come before \<^verbatim>\<open>run\<close>.
\<close>

subsection \<open>The reactor's loop comes back to its flag\<close>

definition comes_back :: "env \<Rightarrow> 'cb conc \<Rightarrow> bool" where
  "comes_back env s \<longleftrightarrow> (\<exists>s'. (loop_only env)\<^sup>*\<^sup>* s s' \<and> loop s' = LCheck)"

lemma comes_back_path: "(loop_only env)\<^sup>*\<^sup>* s s' \<Longrightarrow> comes_back env s' \<Longrightarrow> comes_back env s"
  unfolding comes_back_def by (meson rtranclp_trans)

lemma comes_back_step: "loop s \<noteq> LDone \<Longrightarrow> comes_back env (loop_step env s (loop s)) \<Longrightarrow> comes_back env s"
  by (rule comes_back_path [OF loop_path_step]) simp_all

lemma check_comes_back: "loop s = LCheck \<Longrightarrow> comes_back env s"
  unfolding comes_back_def by blast

lemma wait_comes_back: "loop s = LWait \<Longrightarrow> comes_back env s"
  using wait_path [of s env] unfolding comes_back_def by blast

lemma seen_comes_back:
  assumes "loop s = LSeen"
  shows "comes_back env s"
proof -
  have "comes_back env (loop_step env s (loop s))"
    by (rule comes_back_step) (simp_all add: assms check_comes_back)
  then show ?thesis using comes_back_step [of s env] assms by simp
qed

lemma totals_comes_back:
  assumes "conc_inv b s" "loop s = LTotals" "env_ok env"
  shows "comes_back env s"
proof -
  have "conc_fault (loop_step env s (loop s)) = None"
    using loop_step_inv [OF assms(1,3)] by (simp add: conc_invs)
  then have "loop (loop_step env s (loop s)) = LWait" using assms(2) by (simp split: sum.splits)
  then have "comes_back env (loop_step env s (loop s))" by (rule wait_comes_back)
  then show ?thesis by (rule comes_back_step [rotated]) (simp add: assms(2))
qed

lemma drain_comes_back:
  assumes "conc_inv b s" "loop s = LDrain n ord" "env_ok env"
  shows "comes_back env s"
proof -
  obtain s' where "(loop_only env)\<^sup>*\<^sup>* s s'" "loop s' = LTotals" "conc_inv b s'"
    using slot_loop_path [OF assms(1,2), of "background_cache (mem s)" "mem s" env] assms(3) by auto
  then show ?thesis using comes_back_path totals_comes_back [OF _ _ assms(3)] by blast
qed

lemma pop_comes_back:
  assumes "conc_inv b s" "loop s = LPop c n" "env_ok env"
  shows "comes_back env s"
proof -
  obtain s' where "(loop_only env)\<^sup>*\<^sup>* s s'" "loop s' = LDrain 0 (slot_order env (background_cache (mem s')))" "conc_inv b s'"
    using queue_loop_path [OF assms(1,2), of "critical_queue (mem s)" "mem s" env] assms(3) by auto
  then show ?thesis using comes_back_path drain_comes_back [OF _ _ assms(3)] by blast
qed

lemma loop_comes_back:
  assumes "conc_inv b s" "env_ok env" "loop s \<noteq> LDone"
  shows "comes_back env s"
proof (cases "loop s")
  case LSync
  then have "loop (loop_step env s (loop s)) = LPop 0 0" by simp
  then show ?thesis using comes_back_step [OF assms(3)] pop_comes_back [OF loop_step_inv [OF assms(1,2)] _ assms(2)] by blast
next
  case (LCall c n cs)
  obtain r' c' n' where "dispatch_queued env cs (Inr (mem s, c, n)) = Inr (r', c', n')"
    using call_step_ok [OF assms(1) LCall] by blast
  then have "loop (loop_step env s (loop s)) = LPop c' n'" using LCall by (simp add: call_step_def del: dispatch_queued.simps)
  then show ?thesis using comes_back_step [OF assms(3)] pop_comes_back [OF loop_step_inv [OF assms(1,2)] _ assms(2)] by blast
next
  case (LFrame n ord f)
  obtain h d t where f: "f = (h, d, t)" by (cases f)
  obtain r' n' where "dispatch_background env h d t (Inr (mem s, n)) = Inr (r', n')"
    using frame_step_ok [OF assms(1)] LFrame unfolding f by blast
  then have "loop (loop_step env s (loop s)) = LDrain n' ord" using LFrame by (simp add: f frame_step_def del: dispatch_background.simps)
  then show ?thesis using comes_back_step [OF assms(3)] drain_comes_back [OF loop_step_inv [OF assms(1,2)] _ assms(2)] by blast
next
  case LRead
  then have "loop (loop_step env s (loop s)) = LSeen" by simp
  then show ?thesis using comes_back_step [OF assms(3)] seen_comes_back by blast
next
  case LArm
  then have "loop (loop_step env s (loop s)) = LCheck" by simp
  then show ?thesis using comes_back_step [OF assms(3)] check_comes_back by blast
next
  case (LPop c n)
  then show ?thesis by (rule pop_comes_back [OF assms(1) _ assms(2)])
next
  case (LDrain n ord)
  then show ?thesis by (rule drain_comes_back [OF assms(1) _ assms(2)])
next
  case LTotals
  then show ?thesis by (rule totals_comes_back [OF assms(1) _ assms(2)])
qed (use assms(3) check_comes_back wait_comes_back seen_comes_back in auto)

text \<open>A stopped loop ends.\<close>

lemma loop_path_running: "(loop_only env)\<^sup>*\<^sup>* s s' \<Longrightarrow> running (mem s') = running (mem s)"
  by (induction rule: rtranclp_induct) (auto simp: loop_only_def loop_step_running)

lemma stopped_loop_ends:
  assumes "conc_inv b s" "env_ok env" "\<not> running (mem s)"
  shows "\<exists>s'. (loop_only env)\<^sup>*\<^sup>* s s' \<and> loop s' = LDone"
proof (cases "loop s = LDone")
  case False
  obtain s1 where s1: "(loop_only env)\<^sup>*\<^sup>* s s1" "loop s1 = LCheck"
    using loop_comes_back [OF assms(1,2) False] unfolding comes_back_def by blast
  then have "loop_only env s1 (loop_step env s1 (loop s1))" "loop (loop_step env s1 (loop s1)) = LDone"
    using assms(3) loop_path_running [OF s1(1)] by (simp_all add: loop_only_def)
  with s1(1) show ?thesis by (meson rtranclp.rtrancl_into_rtrancl)
qed blast

lemma lift_loop_path:
  "(loop_only env)\<^sup>*\<^sup>* (shared p) s' \<Longrightarrow> reactor_at p = Entered \<Longrightarrow> (reactor_step env)\<^sup>*\<^sup>* p (p\<lparr>shared := s'\<rparr>)"
proof (induction rule: rtranclp_induct)
  case (step x y)
  have "reactor_step env (p\<lparr>shared := x\<rparr>) (p\<lparr>shared := y\<rparr>)"
    using loop_runs [of "p\<lparr>shared := x\<rparr>" env] step.hyps(2) step.prems by (simp add: loop_only_def)
  with step.IH [OF step.prems] show ?case by (rule rtranclp.rtrancl_into_rtrancl)
qed simp

subsection \<open>The refresh thread ends\<close>

fun channel_rank :: "TopicPriority \<Rightarrow> nat" where
  "channel_rank CRITICAL = 2" | "channel_rank NORMAL = 1" | "channel_rank BACKGROUND = 0"

fun refresh_rank :: "refresh_pc \<Rightarrow> nat" where
  "refresh_rank FOff = 0" | "refresh_rank FEnd = 0" | "refresh_rank FCheck = 1" | "refresh_rank FSleep = 2"
| "refresh_rank FPost = 3" | "refresh_rank FUptime = 4" | "refresh_rank FHandlers = 5" | "refresh_rank FSessions = 6"
| "refresh_rank (FWindow prio n d) = 7 + 3 * channel_rank prio"
| "refresh_rank (FDropped prio n) = 8 + 3 * channel_rank prio"
| "refresh_rank (FProcessed prio) = 9 + 3 * channel_rank prio"
| "refresh_rank FLock = 16"

definition same_rest :: "'cb program \<Rightarrow> 'cb program \<Rightarrow> bool" where
  "same_rest p p' \<longleftrightarrow>
     main_at p' = main_at p \<and> shared p' = shared p \<and> reactor_at p' = reactor_at p \<and>
     tui_running (ui p') = tui_running (ui p) \<and> refresh_joinable (ui p') = refresh_joinable (ui p)"

lemma refresh_same_rest: "refresh_step order p p' \<Longrightarrow> same_rest p p'"
  by (erule refresh_step.cases) (simp_all add: same_rest_def)

lemma after_channel_rank: "refresh_rank (after_channel prio) < 7 + 3 * channel_rank prio" "after_channel prio \<noteq> FOff"
  by (cases prio; simp)+

lemma refresh_advances:
  assumes "lock_inv p" "refresh_at p \<noteq> FOff" "refresh_at p \<noteq> FEnd" "\<not> tui_running (ui p)" "\<forall>k. main_at p \<noteq> MDraw k"
  shows "\<exists>p'. refresh_step order p p' \<and> refresh_at p' \<noteq> FOff \<and> refresh_rank (refresh_at p') < refresh_rank (refresh_at p)"
proof (cases "refresh_at p")
  case FLock
  then have "data_mutex p = None"
    using assms(1,5) by (cases "data_mutex p"; cases "the (data_mutex p)") (auto simp: lock_inv_def)
  with FLock show ?thesis using refresh_locks [of p order] by fastforce
next
  case FCheck
  then show ?thesis using refresh_ends [of p order] assms(4) by fastforce
next
  case (FProcessed prio)
  from loads_processed [OF this, of order] show ?thesis using FProcessed by fastforce
next
  case (FDropped prio n)
  from loads_dropped [OF this, of order] show ?thesis using FDropped by fastforce
next
  case (FWindow prio n d)
  from reads_window [OF this, of order] show ?thesis using FWindow after_channel_rank [of prio] by fastforce
next
  case FSessions
  from reads_sessions [OF this, of order 0] show ?thesis using FSessions by fastforce
next
  case FHandlers
  from reads_handlers [OF this, of order] show ?thesis using FHandlers by fastforce
next
  case FUptime
  from reads_uptime [OF this, of order 0] show ?thesis using FUptime by fastforce
next
  case FPost
  from posts [OF this, of order] show ?thesis using FPost by fastforce
next
  case FSleep
  from wakes [OF this, of order] show ?thesis using FSleep by fastforce
qed (use assms in simp_all)

lemma refresh_finishes:
  assumes "lock_inv p" "refresh_at p \<noteq> FOff" "\<not> tui_running (ui p)" "\<forall>k. main_at p \<noteq> MDraw k"
  shows "\<exists>p'. (refresh_step order)\<^sup>*\<^sup>* p p' \<and> refresh_at p' = FEnd \<and> same_rest p p'"
  using assms
proof (induction "refresh_rank (refresh_at p)" arbitrary: p rule: less_induct)
  case less
  show ?case
  proof (cases "refresh_at p = FEnd")
    case True
    then show ?thesis by (intro exI [of _ p]) (simp add: same_rest_def)
  next
    case False
    obtain p1 where p1: "refresh_step order p p1" "refresh_at p1 \<noteq> FOff" "refresh_rank (refresh_at p1) < refresh_rank (refresh_at p)"
      using refresh_advances [OF less.prems(1,2) False less.prems(3,4)] by blast
    have sr: "same_rest p p1" by (rule refresh_same_rest [OF p1(1)])
    have "\<exists>p'. (refresh_step order)\<^sup>*\<^sup>* p1 p' \<and> refresh_at p' = FEnd \<and> same_rest p1 p'"
      by (rule less.hyps [OF p1(3) refresh_lock [OF p1(1) less.prems(1)] p1(2)])
         (use sr less.prems(3,4) in \<open>simp_all add: same_rest_def\<close>)
    then obtain p' where "(refresh_step order)\<^sup>*\<^sup>* p1 p'" "refresh_at p' = FEnd" "same_rest p1 p'" by blast
    with p1(1) sr show ?thesis by (intro exI [of _ p']) (simp add: same_rest_def converse_rtranclp_into_rtranclp)
  qed
qed

subsection \<open>Reaching the exit\<close>

definition may_exit :: "env \<Rightarrow> (session_map \<Rightarrow> string list) \<Rightarrow> Config \<Rightarrow> 'cb program \<Rightarrow> bool" where
  "may_exit env order cfg p \<longleftrightarrow> (\<exists>p'. (own_step env order cfg)\<^sup>*\<^sup>* p p' \<and> main_at p' = MExit)"

lemma may_exit_path: "(own_step env order cfg)\<^sup>*\<^sup>* p p' \<Longrightarrow> may_exit env order cfg p' \<Longrightarrow> may_exit env order cfg p"
  unfolding may_exit_def by (meson rtranclp_trans)

lemma may_exit_main: "main_step env cfg p p' \<Longrightarrow> may_exit env order cfg p' \<Longrightarrow> may_exit env order cfg p"
  by (rule may_exit_path [OF r_into_rtranclp]) (simp_all add: own_step_def)

lemma own_paths:
  "(refresh_step order)\<^sup>*\<^sup>* p p' \<Longrightarrow> (own_step env order cfg)\<^sup>*\<^sup>* p p'"
  "(reactor_step env)\<^sup>*\<^sup>* p p' \<Longrightarrow> (own_step env order cfg)\<^sup>*\<^sup>* p p'"
  by (erule rtranclp_mono [THEN predicate2D, rotated]; auto simp: own_step_def)+

lemma own_path_inv:
  assumes "(own_step env order cfg)\<^sup>*\<^sup>* p p'" "program_inv r p" "env_ok env"
  shows "program_inv r p'"
  using assms(1) by induction (use assms(2,3) own_step_inv in auto)

lemma main_keeps: "main_step env cfg p p' \<Longrightarrow> program_inv r p \<Longrightarrow> env_ok env \<Longrightarrow> program_inv r p'"
  using own_step_inv [of env "\<lambda>m. []" cfg p p' r] by (simp add: own_step_def)

text \<open>The refresh thread ends and can be joined.\<close>

lemma refresh_join:
  assumes "program_inv r p" "env_ok env" "main_at p \<in> {MQuitJoin, MDestroyJoin}"
    and "\<And>p'. refresh_at p' = FEnd \<Longrightarrow> main_at p' = main_at p \<Longrightarrow> refresh_joinable (ui p') = refresh_joinable (ui p) \<Longrightarrow>
           program_inv r p' \<Longrightarrow> may_exit env order cfg p'"
  shows "may_exit env order cfg p"
proof -
  have inv: "lock_inv p" "flow_inv p" using assms(1) by (simp_all add: program_inv_def)
  have "refresh_at p \<noteq> FOff" "\<not> tui_running (ui p)" "\<forall>k. main_at p \<noteq> MDraw k"
    using inv(2) assms(3) unfolding flow_inv_def by fastforce+
  from refresh_finishes [OF inv(1) this] obtain p' where p': "(refresh_step order)\<^sup>*\<^sup>* p p'" "refresh_at p' = FEnd" "same_rest p p'"
    by metis
  have path: "(own_step env order cfg)\<^sup>*\<^sup>* p p'" by (rule own_paths(1) [OF p'(1)])
  have "may_exit env order cfg p'"
    using p'(3) by (intro assms(4) [OF p'(2) _ _ own_path_inv [OF path assms(1,2)]]) (simp_all add: same_rest_def)
  with path show ?thesis by (rule may_exit_path)
qed

lemma destroy_join_exits:
  fixes p :: "'a program"
  assumes "program_inv r p" "env_ok env" "main_at p = MDestroyJoin"
  shows "may_exit env order cfg p"
proof (rule refresh_join [OF assms(1,2)])
  fix p' :: "'a program"
  assume p': "refresh_at p' = FEnd" "main_at p' = main_at p"
  have at_exit: "may_exit env order cfg q" if "main_at q = MExit" for q :: "'a program" using that by (auto simp: may_exit_def)
  have at: "main_at p' = MDestroyJoin" using p'(2) assms(3) by simp
  show "may_exit env order cfg p'"
  proof (cases "refresh_joinable (ui p')")
    case True
    show ?thesis by (rule may_exit_main [OF destroy_joins [OF at True p'(1)] at_exit]) simp
  next
    case False
    show ?thesis by (rule may_exit_main [OF destroy_joined [OF at False] at_exit]) simp
  qed
qed (simp add: assms(3))

lemma destroy_exits':
  assumes "program_inv r p" "env_ok env" "main_at p \<in> {MDestroy, MDestroyExit}"
  shows "may_exit env order cfg p"
proof -
  have ex: "may_exit env order cfg q" if "program_inv r q" "main_at q = MDestroyExit" for q
    by (rule may_exit_main [OF destroy_exits [OF that(2)] destroy_join_exits [OF main_keeps [OF destroy_exits [OF that(2)] that(1) assms(2)] assms(2)]])
       simp
  show ?thesis
  proof (cases "main_at p = MDestroy")
    case True
    show ?thesis
      by (rule may_exit_main [OF tui_destroyed [OF True] ex [OF main_keeps [OF tui_destroyed [OF True] assms(1,2)]]]) simp
  qed (use assms ex in auto)
qed

lemma join_exits:
  assumes "program_inv r p" "env_ok env" "main_at p = MJoin" "reactor_at p = Entered" "\<not> running (mem (shared p))"
  shows "may_exit env order cfg p"
proof -
  obtain b where "conc_inv b (shared p)" using assms(1,4) by (auto simp: program_inv_def core_inv_def live_def)
  from stopped_loop_ends [OF this assms(2,5)] obtain s' where s': "(loop_only env)\<^sup>*\<^sup>* (shared p) s'" "loop s' = LDone" by blast
  define p1 where "p1 = p\<lparr>shared := s'\<rparr>"
  have path: "(own_step env order cfg)\<^sup>*\<^sup>* p p1" unfolding p1_def by (rule own_paths(2) [OF lift_loop_path [OF s'(1) assms(4)]])
  have inv1: "program_inv r p1" by (rule own_path_inv [OF path assms(1,2)])
  have "main_step env cfg p1 (p1\<lparr>main_at := MDestroy\<rparr>)" by (rule joins_reactor) (simp_all add: p1_def assms s')
  from may_exit_main [OF this destroy_exits' [OF main_keeps [OF this inv1 assms(2)] assms(2)]] have "may_exit env order cfg p1" by simp
  with path show ?thesis by (rule may_exit_path)
qed

lemma stop_write_exits:
  assumes "program_inv r p" "env_ok env" "main_at p = MStopWrite" "reactor_at p = Entered" "\<not> running (mem (shared p))"
  shows "may_exit env order cfg p"
  by (rule may_exit_main [OF stop_writes [OF assms(3)] join_exits [OF main_keeps [OF stop_writes [OF assms(3)] assms(1,2)] assms(2)]])
     (use assms in \<open>simp_all add: thread_step_running\<close>)

lemma stop_exits:
  assumes "program_inv r p" "env_ok env" "main_at p = MStop"
  shows "may_exit env order cfg p"
proof -
  have ent: "may_exit env order cfg q" if "program_inv r q" "main_at q = MStop" "reactor_at q = Entered" for q
    by (rule may_exit_main [OF stop_reactor [OF that(2)] stop_write_exits [OF main_keeps [OF stop_reactor [OF that(2)] that(1) assms(2)] assms(2)]])
       (simp_all add: that)
  show ?thesis
  proof (cases "reactor_at p = Entered")
    case False
    then have sp: "reactor_at p = Spawned"
      using assms(1,3) by (cases "reactor_at p") (auto simp: program_inv_def flow_inv_def)
    have st: "own_step env order cfg p (p\<lparr>reactor_at := Entered, shared := (shared p)\<lparr>mem := run_start env (mem (shared p)), loop := LCheck\<rparr>\<rparr>)"
      using enters_run [OF sp] by (simp add: own_step_def)
    show ?thesis
      by (rule may_exit_path [OF r_into_rtranclp [of "own_step env order cfg", OF st] ent [OF own_step_inv [OF st assms(1,2)]]]) (simp_all add: assms(3))
  qed (use ent assms in blast)
qed

text \<open>Before the reactor is stopped the main thread can always get to the stop.\<close>

lemma loop_exits:
  assumes "program_inv r p" "env_ok env" "main_at p = MLoop"
  shows "may_exit env order cfg p"
  by (rule may_exit_main [OF screen_ends [OF assms(3)] stop_exits [OF main_keeps [OF screen_ends [OF assms(3)] assms(1,2)] assms(2)]]) simp

lemma quit_join_exits:
  fixes p :: "'a program"
  assumes "program_inv r p" "env_ok env" "main_at p = MQuitJoin"
  shows "may_exit env order cfg p"
proof (rule refresh_join [OF assms(1,2)])
  fix p' :: "'a program"
  assume p': "refresh_at p' = FEnd" "main_at p' = main_at p" "program_inv r p'"
  have at: "main_at p' = MQuitJoin" using p'(2) assms(3) by simp
  show "may_exit env order cfg p'"
  proof (cases "refresh_joinable (ui p')")
    case True
    note st = quit_joins [OF at True p'(1)]
    show ?thesis by (rule may_exit_main [OF st loop_exits [OF main_keeps [OF st p'(3) assms(2)] assms(2)]]) simp
  next
    case False
    note st = quit_joined [OF at False]
    show ?thesis by (rule may_exit_main [OF st loop_exits [OF main_keeps [OF st p'(3) assms(2)] assms(2)]]) simp
  qed
qed (simp add: assms(3))

lemma early_exits:
  assumes "program_inv r p" "env_ok env" "main_at p \<in> {MSpawn, MTuiRun, MSpawnRefresh, MQuitExit} \<or> (\<exists>k. main_at p = MDraw k)"
  shows "may_exit env order cfg p"
proof -
  have refresh: "may_exit env order cfg q" if "program_inv r q" "main_at q = MSpawnRefresh" for q
    by (rule may_exit_main [OF spawn_refresh [OF that(2)] loop_exits [OF main_keeps [OF spawn_refresh [OF that(2)] that(1) assms(2)] assms(2)]]) simp
  have run: "may_exit env order cfg q" if "program_inv r q" "main_at q = MTuiRun" for q
    by (rule may_exit_main [OF tui_enters [OF that(2)] refresh [OF main_keeps [OF tui_enters [OF that(2)] that(1) assms(2)]]]) simp
  have spawn: "may_exit env order cfg q" if "program_inv r q" "main_at q = MSpawn" for q
    by (rule may_exit_main [OF spawn_reactor [OF that(2)] run [OF main_keeps [OF spawn_reactor [OF that(2)] that(1) assms(2)]]]) simp
  have quit: "may_exit env order cfg q" if "program_inv r q" "main_at q = MQuitExit" for q
    by (rule may_exit_main [OF quit_exits [OF that(2)] quit_join_exits [OF main_keeps [OF quit_exits [OF that(2)] that(1) assms(2)] assms(2)]]) simp
  have draw: "may_exit env order cfg q" if "program_inv r q" "main_at q = MDraw k" for q k
    by (rule may_exit_main [OF draws [OF that(2)] loop_exits [OF main_keeps [OF draws [OF that(2)] that(1) assms(2)] assms(2)]]) simp
  show ?thesis using assms(1,3) refresh run spawn quit draw by auto
qed

subsection \<open>A lost stop\<close>

text \<open>The main thread has stored its stop and the reactor's thread has not, or sets the flag again.\<close>

definition stop_lost :: "'cb program \<Rightarrow> bool" where
  "stop_lost p \<longleftrightarrow> main_at p \<in> {MStopWrite, MJoin} \<and> (reactor_at p \<noteq> Entered \<or> running (mem (shared p)))"

lemma stop_lost_main:
  assumes "main_step env cfg p p'" "stop_lost p" "program_inv r p"
  shows "stop_lost p'"
  using assms(1)
proof cases
  case joins_reactor
  then have "\<not> running (mem (shared p))" using assms(3) by (simp add: program_inv_def core_inv_def live_def)
  with joins_reactor assms(2) show ?thesis by (simp add: stop_lost_def)
qed (use assms(2) in \<open>auto simp: stop_lost_def thread_step_running\<close>)

lemma stop_lost_reactor:
  assumes "reactor_step env p p'" "stop_lost p" "program_inv r p"
  shows "stop_lost p'"
  using assms(1)
proof cases
  case enters_run
  then have "reactor_inv (mem (shared p))" using assms(3) by (simp add: program_inv_def core_inv_def fresh_def)
  from run_start_spec(2) [OF this] enters_run assms(2) show ?thesis by (simp add: stop_lost_def)
next
  case loop_runs
  then show ?thesis using assms(2) by (simp add: stop_lost_def loop_step_running)
qed

lemma stop_lost_stays:
  assumes "(own_step env order cfg)\<^sup>*\<^sup>* p p'" "stop_lost p" "program_inv r p" "env_ok env"
  shows "stop_lost p'"
proof -
  from assms(1) have "stop_lost p' \<and> program_inv r p'"
  proof induction
    case (step q q')
    from step.hyps(2) consider "main_step env cfg q q'" | "refresh_step order q q'" | "reactor_step env q q'"
      unfolding own_step_def by blast
    then have "stop_lost q'"
    proof cases
      case 2
      from refresh_same_rest [OF this] step.IH show ?thesis by (simp add: same_rest_def stop_lost_def)
    qed (use step.IH stop_lost_main stop_lost_reactor in blast)+
    with step.IH own_step_inv [OF step.hyps(2) _ assms(4)] show ?case by blast
  qed (use assms in simp)
  then show ?thesis ..
qed

lemma exits_iff:
  assumes "program_inv r p" "env_ok env"
  shows "may_exit env order cfg p \<longleftrightarrow> \<not> stop_lost p"
proof
  assume "may_exit env order cfg p"
  then obtain p' where p': "(own_step env order cfg)\<^sup>*\<^sup>* p p'" "main_at p' = MExit" unfolding may_exit_def by blast
  show "\<not> stop_lost p"
  proof
    assume "stop_lost p"
    from stop_lost_stays [OF p'(1) this assms] p'(2) show False by (simp add: stop_lost_def)
  qed
next
  assume "\<not> stop_lost p"
  then show "may_exit env order cfg p"
    using early_exits [OF assms] loop_exits [OF assms] quit_join_exits [OF assms] stop_exits [OF assms] stop_write_exits [OF assms]
      join_exits [OF assms] destroy_exits' [OF assms] destroy_join_exits [OF assms]
    by (cases "main_at p") (auto simp: stop_lost_def may_exit_def)
qed

subsection \<open>What is on the screen\<close>

definition rows_of :: "'cb reactor \<Rightarrow> tui_app \<Rightarrow> bool" where
  "rows_of r a \<longleftrightarrow> map hs_path (handler_rows a) = map path (handlers r)"

definition shown_inv :: "Config \<Rightarrow> 'cb reactor \<Rightarrow> 'cb program \<Rightarrow> bool" where
  "shown_inv cfg r p \<longleftrightarrow>
     published p \<noteq> [] \<and> (\<not> in_section (refresh_at p) \<longrightarrow> same_data (ui p) (last (published p))) \<and>
     (\<forall>(k, e) \<in> set (drawn p). \<exists>a \<in> set (published p). e = draw_panel cfg k a) \<and>
     (refresh_at p \<in> {FUptime, FPost} \<longrightarrow> rows_of r (ui p)) \<and>
     (\<forall>a \<in> set (published p). a = tui_new \<or> rows_of r a)"

lemma rows_of_simps [simp]:
  "rows_of r (ui_log es a) = rows_of r a" "rows_of r (a\<lparr>tui_running := x\<rparr>) = rows_of r a"
  "rows_of r (a\<lparr>refresh_joinable := x\<rparr>) = rows_of r a" "rows_of r (a\<lparr>uptime_seconds := u\<rparr>) = rows_of r a"
  by (simp_all add: rows_of_def ui_log_def)

lemma status_rows: "map hs_path (get_handler_statuses m) = map path (handlers m)"
  by (auto simp: get_handler_statuses_def Let_def split: TopicPriority.split)

lemma core_handlers: "core_inv r p \<Longrightarrow> handlers (mem (shared p)) = handlers r"
  by (auto simp: core_inv_def fresh_def live_def conc_invs same_setup_def split: if_splits)

lemma main_shown:
  assumes "main_step env cfg p p'" "shown_inv cfg r p" "program_inv r p"
  shows "shown_inv cfg r p'"
  using assms(1)
proof cases
  case (draws k)
  then have "data_mutex p = Some ByMain" using assms(3) by (auto simp: program_inv_def lock_inv_def)
  then have "\<not> in_section (refresh_at p)" using assms(3) by (simp add: program_inv_def lock_inv_def)
  then have "same_data (ui p) (last (published p))" "last (published p) \<in> set (published p)"
    using assms(2) by (auto simp: shown_inv_def)
  with draw_same_data [OF this(1)] draws assms(2) show ?thesis by (auto simp: shown_inv_def)
next
  case spawn_refresh
  then have "refresh_at p = FOff" using assms(3) by (simp add: program_inv_def flow_inv_def)
  then show ?thesis using spawn_refresh assms(2) by (simp add: shown_inv_def)
qed (use assms(2) in \<open>auto simp: shown_inv_def\<close>)

lemma refresh_shown:
  assumes "refresh_step order p p'" "shown_inv cfg r p" "program_inv r p"
  shows "shown_inv cfg r p'"
  using assms(1)
proof cases
  case reads_handlers
  have "rows_of r ((ui p)\<lparr>handler_rows := get_handler_statuses (mem (shared p))\<rparr>)"
    using core_handlers [of r p] assms(3) by (simp add: rows_of_def status_rows program_inv_def)
  then show ?thesis using reads_handlers assms(2) by (simp add: shown_inv_def)
next
  case (reads_window prio n d)
  moreover have "after_channel prio \<noteq> FUptime" "after_channel prio \<noteq> FPost" by (cases prio; simp)+
  ultimately show ?thesis using assms(2) by (simp add: shown_inv_def)
next
  case posts
  then show ?thesis using assms(2) by (auto simp: shown_inv_def)
qed (use assms(2) in \<open>simp_all add: shown_inv_def\<close>)

lemma other_shown:
  "reactor_step env p p' \<Longrightarrow> shown_inv cfg r p \<Longrightarrow> shown_inv cfg r p'"
  "outside_step env p p' \<Longrightarrow> shown_inv cfg r p \<Longrightarrow> shown_inv cfg r p'"
  by (erule reactor_step.cases, simp_all add: shown_inv_def) (erule outside_step.cases, simp_all add: shown_inv_def)

lemma program_reachable_shown:
  assumes "program_reachable env order cfg r p" "reactor_inv r" "idle r" "env_ok env"
  shows "shown_inv cfg r p"
  using assms(1)
proof induction
  case program_begins
  show ?case by (simp add: shown_inv_def program_start_def)
next
  case (program_goes_on p p')
  have inv: "program_inv r p" by (rule program_reachable_inv [OF program_goes_on(1) assms(2-4)])
  from program_goes_on(2) consider "main_step env cfg p p'" | "refresh_step order p p'" | "reactor_step env p p'" | "outside_step env p p'"
    unfolding program_step_def own_step_def by blast
  then show ?case
    using main_shown [OF _ program_goes_on(3) inv] refresh_shown [OF _ program_goes_on(3) inv] other_shown program_goes_on(3)
    by cases blast+
qed

subsection \<open>Properties\<close>

text \<open>
  C14. Whatever the interleaving, every panel on the screen shows the data one complete
  refresh left, never a mix of two, and lists either no handler or all registered ones in
  order: the screen's thread and the refresh thread are never both inside the mutex.
\<close>

theorem panels_show_complete_refreshes:
  assumes "reactor_inv r" "idle r" "env_ok env" "program_reachable env order cfg r p"
  shows "(\<forall>(k, e) \<in> set (drawn p). \<exists>a \<in> set (published p). e = draw_panel cfg k a) \<and>
     (\<forall>a \<in> set (published p). a = tui_new \<or> map hs_path (handler_rows a) = map path (handlers r)) \<and>
     \<not> ((\<exists>k. main_at p = MDraw k) \<and> in_section (refresh_at p))"
proof -
  have "shown_inv cfg r p" "lock_inv p"
    using program_reachable_shown [OF assms(4,1,2,3)] program_reachable_inv [OF assms(4,1,2,3)] by (simp_all add: program_inv_def)
  then show ?thesis by (auto simp: shown_inv_def rows_of_def lock_inv_def)
qed

text \<open>
  C12. The program can end by its own threads from exactly those states in which the stop of
  the reactor is not lost, that is, stored before the reactor's thread got to \<^verbatim>\<open>run\<close>,
  which sets the flag again: then the main thread joins a thread that does not end. When
  the main thread is through, the loop has left \<^verbatim>\<open>run\<close> and the refresh thread is joined.
\<close>

theorem program_ends_iff_stop_not_lost:
  assumes "reactor_inv r" "idle r" "env_ok env" "program_reachable env order cfg r p"
  shows "((\<exists>p'. (own_step env order cfg)\<^sup>*\<^sup>* p p' \<and> main_at p' = MExit) \<longleftrightarrow>
            \<not> (main_at p \<in> {MStopWrite, MJoin} \<and> (reactor_at p \<noteq> Entered \<or> running (mem (shared p))))) \<and>
         (main_at p = MExit \<longrightarrow> loop (shared p) = LDone \<and> refresh_at p = FEnd)"
proof -
  have inv: "program_inv r p" by (rule program_reachable_inv [OF assms(4,1,2,3)])
  then have "main_at p = MExit \<longrightarrow> loop (shared p) = LDone \<and> refresh_at p = FEnd"
    by (auto simp: program_inv_def flow_inv_def)
  with exits_iff [OF inv assms(3), of order cfg] show ?thesis by (simp add: may_exit_def stop_lost_def)
qed

text \<open>The UI is up; and it was quit before the reactor's thread ran.\<close>

definition ui_open :: "nat program" where
  "ui_open = (program_start two_topics)
     \<lparr>reactor_at := Spawned, main_at := MLoop, refresh_at := FCheck,
      ui := ui_log [''spawn refresh'', ''Loop''] (tui_new\<lparr>tui_running := True, refresh_joinable := True\<rparr>)\<rparr>"

definition quit_early :: "nat program" where
  "quit_early = ui_open\<lparr>main_at := MStopWrite, shared := stop_store 0 (shared ui_open)\<rparr>"

lemma reach_main: "program_reachable env order cfg r p \<Longrightarrow> main_step env cfg p p' \<Longrightarrow> program_reachable env order cfg r p'"
  by (erule program_goes_on) (simp add: program_step_def own_step_def)

lemma ui_open_reachable: "program_reachable env order cfg two_topics ui_open"
proof -
  define p1 where "p1 = (program_start two_topics)\<lparr>reactor_at := Spawned, main_at := MTuiRun\<rparr>"
  define p2 where "p2 = p1\<lparr>main_at := MSpawnRefresh, ui := (ui p1)\<lparr>tui_running := True\<rparr>\<rparr>"
  define p3 where "p3 = p2\<lparr>main_at := MLoop, refresh_at := FCheck,
      ui := ui_log [''spawn refresh'', ''Loop''] ((ui p2)\<lparr>refresh_joinable := True\<rparr>)\<rparr>"
  have "program_reachable env order cfg two_topics p1"
    unfolding p1_def by (rule reach_main [OF program_begins spawn_reactor]) (simp add: program_start_def)
  then have "program_reachable env order cfg two_topics p2"
    unfolding p2_def by (rule reach_main [OF _ tui_enters]) (simp add: p1_def)
  then have "program_reachable env order cfg two_topics p3"
    unfolding p3_def by (rule reach_main [OF _ spawn_refresh]) (simp add: p2_def)
  moreover have "p3 = ui_open"
    by (simp add: p3_def p2_def p1_def ui_open_def program_start_def)
  ultimately show ?thesis by simp
qed

lemma quit_early_reachable: "program_reachable env order cfg two_topics quit_early"
proof -
  have "program_reachable env order cfg two_topics (ui_open\<lparr>main_at := MStop\<rparr>)"
    by (rule reach_main [OF ui_open_reachable screen_ends]) (simp add: ui_open_def)
  then have "program_reachable env order cfg two_topics
      (ui_open\<lparr>main_at := MStop, shared := stop_store 0 (shared ui_open), main_at := MStopWrite\<rparr>)"
    using reach_main [OF _ stop_reactor [of "ui_open\<lparr>main_at := MStop\<rparr>" env cfg]] by simp
  moreover have "ui_open\<lparr>main_at := MStop, shared := stop_store 0 (shared ui_open), main_at := MStopWrite\<rparr> = quit_early"
    by (simp add: quit_early_def ui_open_def program_start_def)
  ultimately show ?thesis by simp
qed

theorem panels_show_complete_refreshes_witness:
  "\<exists>p. program_reachable waking_env (\<lambda>m. []) config_default two_topics p \<and>
     (\<exists>e. drawn p = [(PHandlers, e)] \<and> (\<exists>a \<in> set (published p). e = draw_panel config_default PHandlers a))"
proof -
  define p1 where "p1 = ui_open\<lparr>main_at := MDraw PHandlers, data_mutex := Some ByMain\<rparr>"
  define p2 where "p2 = p1\<lparr>main_at := MLoop, data_mutex := None,
      drawn := drawn p1 @ [(PHandlers, draw_panel config_default PHandlers (ui p1))]\<rparr>"
  have "program_reachable waking_env (\<lambda>m. []) config_default two_topics p1"
    unfolding p1_def by (rule reach_main [OF ui_open_reachable draw_locks]) (simp_all add: ui_open_def program_start_def)
  then have r2: "program_reachable waking_env (\<lambda>m. []) config_default two_topics p2"
    unfolding p2_def by (rule reach_main [OF _ draws]) (simp add: p1_def)
  have "drawn p2 = [(PHandlers, draw_panel config_default PHandlers (ui p1))]"
    by (simp add: p2_def p1_def ui_open_def program_start_def)
  with panels_show_complete_refreshes [OF two_topics_inv two_topics_idle waking_env_ok(1) r2] r2 show ?thesis by auto
qed

theorem program_ends_iff_stop_not_lost_witness:
  "(\<exists>p'. (own_step waking_env (\<lambda>m. []) config_default)\<^sup>*\<^sup>* (program_start two_topics) p' \<and> main_at p' = MExit) \<and>
   \<not> (\<exists>p'. (own_step waking_env (\<lambda>m. []) config_default)\<^sup>*\<^sup>* quit_early p' \<and> main_at p' = MExit)"
  using program_ends_iff_stop_not_lost [OF two_topics_inv two_topics_idle waking_env_ok(1) program_begins, of "\<lambda>m. []" config_default]
    program_ends_iff_stop_not_lost [OF two_topics_inv two_topics_idle waking_env_ok(1) quit_early_reachable, of "\<lambda>m. []" config_default]
  by (simp add: program_start_def quit_early_def ui_open_def)

end
