(* ===== verification/Program_Liveness.thy ===== *)
theory Program_Liveness
  imports Reactor_Liveness Program_Shutdown
begin

text \<open>
  The whole program in UI mode under a scheduler that is fair to its own three threads: once
  the main thread is past the screen's loop and the reactor is inside \<^verbatim>\<open>run\<close>, the
  program ends.
\<close>

datatype program_thread = MainThread | ReactorThread | RefreshThread

fun program_agent :: "env \<Rightarrow> (session_map \<Rightarrow> string list) \<Rightarrow> Config \<Rightarrow> program_thread \<Rightarrow> 'cb program \<Rightarrow> 'cb program \<Rightarrow> bool" where
  "program_agent env order cfg MainThread p p' = main_step env cfg p p'"
| "program_agent env order cfg ReactorThread p p' = reactor_step env p p'"
| "program_agent env order cfg RefreshThread p p' = refresh_step order p p'"

lemma program_step_cases:
  assumes "program_step env order cfg p p'"
  obtains (by_main) "main_step env cfg p p'" | (by_refresh) "refresh_step order p p'"
    | (by_reactor) "reactor_step env p p'" | (by_outside) "outside_step env p p'"
  using assms unfolding program_step_def own_step_def by blast

definition program_ok :: "env \<Rightarrow> 'cb reactor \<Rightarrow> 'cb program \<Rightarrow> bool" where
  "program_ok env r p \<longleftrightarrow> env_ok env \<and> program_inv r p"

lemma program_ok_step: "program_ok env r p \<Longrightarrow> program_step env order cfg p p' \<Longrightarrow> program_ok env r p'"
  unfolding program_ok_def using program_step_inv by blast

lemma program_ok_conc: "program_ok env r p \<Longrightarrow> reactor_at p = Entered \<Longrightarrow> \<exists>b. conc_ok env b (shared p)"
  by (auto simp: program_ok_def program_inv_def core_inv_def live_def conc_ok_def)

lemma program_ok_run:
  assumes "run_of (program_step env order cfg) \<sigma>" "\<sigma> 0 = program_start r" "reactor_inv r" "idle r" "env_ok env"
  shows "program_ok env r (\<sigma> n)"
proof (rule run_keeps [OF assms(1), of _ 0])
  show "program_ok env r (\<sigma> 0)"
    using program_reachable_inv [OF program_begins assms(3-5)] assms(2,5) by (simp add: program_ok_def)
qed (simp_all add: program_ok_step)

subsection \<open>The stop is made\<close>

definition stop_due :: "env \<Rightarrow> 'cb reactor \<Rightarrow> 'cb program \<Rightarrow> bool" where
  "stop_due env r p \<longleftrightarrow> program_ok env r p \<and> main_at p = MStop \<and> reactor_at p = Entered"

definition stop_made :: "env \<Rightarrow> 'cb reactor \<Rightarrow> 'cb program \<Rightarrow> bool" where
  "stop_made env r p \<longleftrightarrow> program_ok env r p \<and> main_at p \<in> {MStopWrite, MJoin} \<and> reactor_at p = Entered \<and> \<not> running (mem (shared p))"

lemma reactor_keeps: "reactor_step env p p' \<Longrightarrow> reactor_at p = Entered \<Longrightarrow> main_at p' = main_at p \<and> reactor_at p' = Entered \<and>
    refresh_at p' = refresh_at p \<and> ui p' = ui p \<and> loop_only env (shared p) (shared p')"
  by (erule reactor_step.cases) (auto simp: loop_only_def)

lemma outside_keeps: "outside_step env p p' \<Longrightarrow> main_at p' = main_at p \<and> reactor_at p' = reactor_at p \<and>
    refresh_at p' = refresh_at p \<and> ui p' = ui p"
  by (erule outside_step.cases) simp_all

lemma refresh_keeps: "refresh_step order p p' \<Longrightarrow> main_at p' = main_at p \<and> reactor_at p' = reactor_at p \<and> shared p' = shared p"
  using refresh_same_rest [of order p p'] by (simp add: same_rest_def)

interpretation making: ranked_progress "program_step env order cfg" "program_agent env order cfg"
  "stop_due env r" "stop_made env r" "\<lambda>p. 0" "\<lambda>p. MainThread" for env order cfg r
proof
  fix p p' :: "'a program"
  assume p: "stop_due env r p" "\<not> stop_made env r p"
  then have at: "program_ok env r p" "main_at p = MStop" "reactor_at p = Entered" by (simp_all add: stop_due_def)
  show "\<exists>p'. program_agent env order cfg MainThread p p'" using stop_reactor [OF at(2)] by auto
  have made: "stop_made env r p'" if "main_step env cfg p p'" for p'
  proof -
    have ok: "program_ok env r p'" using program_ok_step [OF at(1), of order cfg p'] that by (simp add: program_step_def own_step_def)
    from that show ?thesis by cases (use at ok in \<open>simp_all add: stop_made_def\<close>)
  qed
  then show "stop_made env r p' \<or> (0 :: nat) < 0" if "program_agent env order cfg MainThread p p'" using that by simp
  assume st: "program_step env order cfg p p'"
  then show "stop_made env r p' \<or> stop_due env r p' \<and> ((0 :: nat) < 0 \<or> 0 = (0 :: nat) \<and> MainThread = MainThread)"
    using at made program_ok_step [OF at(1) st]
    by (cases rule: program_step_cases) (auto simp: stop_due_def dest: reactor_keeps outside_keeps refresh_keeps)
qed

subsection \<open>The reactor's thread is joined\<close>

definition join_rank :: "'cb program \<Rightarrow> nat" where
  "join_rank p = stop_rank (shared p) + (if main_at p = MStopWrite then 1 else 0)"

definition join_helper :: "'cb program \<Rightarrow> program_thread" where
  "join_helper p = (if main_at p = MStopWrite \<or> loop (shared p) = LDone then MainThread else ReactorThread)"

text \<open>A step of the others changes nothing the rank depends on.\<close>

lemma outside_conc: "outside_step env p p' \<Longrightarrow> conc_step env (shared p) (shared p') \<and>
    loop (shared p') = loop (shared p) \<and> handled (shared p') = handled (shared p)"
  by (erule outside_step.cases)
     (simp_all add: thread_step_frame callback_enters thread_moves liveliness_changes stop_enters, simp add: stop_store_def)

lemma stop_rank_other:
  assumes "conc_ok env b s" "conc_step env s s' \<or> s' = s" "loop s' = loop s" "handled s' = handled s" "taken_in s' = taken_in s"
  shows "stop_rank s' = stop_rank s"
proof -
  have "conc_ok env b s'" using assms(1,2) conc_ok_step by auto
  then have "slots (background_cache (mem s')) = slots (background_cache (mem s))" using assms(1) conc_ok_slots by metis
  then show ?thesis using assms(3-5) by (simp add: stop_rank_def)
qed

lemma stop_made_conc: "stop_made env r p \<Longrightarrow> \<exists>b. conc_ok env b (shared p) \<and> stopping env b (shared p)"
  using program_ok_conc unfolding stop_made_def stopping_def by blast

text \<open>What the main thread still does, and the loop's own step.\<close>

lemma joining_main:
  assumes "main_step env cfg p p'" "stop_made env r p" "taken_in (shared p') = taken_in (shared p)"
  shows "main_at p = MStopWrite \<and> main_at p' = MJoin \<and> stop_rank (shared p') = stop_rank (shared p) \<and>
      \<not> running (mem (shared p')) \<and> reactor_at p' = Entered \<or>
    main_at p = MJoin \<and> loop (shared p) = LDone \<and> main_at p' = MDestroy"
  using assms(1)
proof cases
  case stop_writes
  obtain b where b: "conc_ok env b (shared p)" using stop_made_conc [OF assms(2)] by blast
  let ?s' = "thread_step env 0 (shared p) (pcs (shared p) 0)"
  have "conc_step env (shared p) ?s' \<or> ?s' = shared p"
    by (cases "pcs (shared p) 0 = Outside") (simp_all add: thread_moves del: thread_step.simps, simp)
  then have "stop_rank ?s' = stop_rank (shared p)"
    by (rule stop_rank_other [OF b]) (use assms(3) stop_writes in \<open>simp_all add: thread_step_frame thread_step_loop del: thread_step.simps\<close>)
  then show ?thesis using stop_writes assms(2) by (simp add: stop_made_def thread_step_running)
qed (use assms(2) in \<open>auto simp: stop_made_def\<close>)

lemma joining_reactor:
  assumes "reactor_step env p p'" "stop_made env r p"
  shows "join_rank p' < join_rank p \<and> \<not> running (mem (shared p'))"
proof -
  obtain b where b: "stopping env b (shared p)" using stop_made_conc [OF assms(2)] by blast
  from assms(1) show ?thesis
  proof cases
    case loop_runs
    from loop_lowers_stop [OF b loop_runs(3)] show ?thesis
      using loop_runs(1) assms(2) by (simp add: join_rank_def loop_step_running stop_made_def)
  qed (use assms(2) in \<open>simp add: stop_made_def\<close>)
qed

lemma joining_outside:
  assumes "outside_step env p p'" "stop_made env r p" "taken_in (shared p') = taken_in (shared p)"
  shows "join_rank p' = join_rank p \<and> join_helper p' = join_helper p \<and> \<not> running (mem (shared p'))"
proof -
  obtain b where b: "conc_ok env b (shared p)" using stop_made_conc [OF assms(2)] by blast
  note o = outside_conc [OF assms(1)]
  have "stop_rank (shared p') = stop_rank (shared p)"
    by (rule stop_rank_other [OF b]) (use o assms(3) in simp_all)
  moreover have "\<not> running (mem (shared p'))" using o assms(2) conc_step_stopped [of env "shared p" "shared p'"] by (simp add: stop_made_def)
  ultimately show ?thesis using outside_keeps [OF assms(1)] o by (simp add: join_rank_def join_helper_def)
qed

interpretation joining: ranked_progress "\<lambda>p p'. program_step env order cfg p p' \<and> taken_in (shared p') = taken_in (shared p)"
  "program_agent env order cfg" "stop_made env r" "\<lambda>p. main_at p = MDestroy" join_rank join_helper for env order cfg r
proof
  fix p p' :: "'a program"
  assume p: "stop_made env r p" "main_at p \<noteq> MDestroy"
  then have at: "program_ok env r p" "main_at p \<in> {MStopWrite, MJoin}" "reactor_at p = Entered" "\<not> running (mem (shared p))"
    by (simp_all add: stop_made_def)
  show "\<exists>p'. program_agent env order cfg (join_helper p) p p'"
    using stop_writes [of p env cfg] joins_reactor [of p env cfg] loop_runs [of p env] at(2,3) by (auto simp: join_helper_def)
  show "main_at p' = MDestroy \<or> join_rank p' < join_rank p"
    if act: "program_agent env order cfg (join_helper p) p p'"
      and st: "program_step env order cfg p p' \<and> taken_in (shared p') = taken_in (shared p) \<or> p' = p"
  proof (cases "join_helper p")
    case MainThread
    then have "main_step env cfg p p'" using act by simp
    from joining_main [OF this p(1)] show ?thesis using st MainThread by (auto simp: join_rank_def join_helper_def split: if_splits)
  next
    case ReactorThread
    then show ?thesis using act joining_reactor [OF _ p(1)] by simp
  next
    case RefreshThread
    then show ?thesis by (simp add: join_helper_def split: if_splits)
  qed
  assume "program_step env order cfg p p' \<and> taken_in (shared p') = taken_in (shared p)"
  then have st: "program_step env order cfg p p'" and tk: "taken_in (shared p') = taken_in (shared p)" by simp_all
  have ok: "program_ok env r p'" by (rule program_ok_step [OF at(1) st])
  from st show "main_at p' = MDestroy \<or> stop_made env r p' \<and> (join_rank p' < join_rank p \<or> join_rank p' = join_rank p \<and> join_helper p' = join_helper p)"
  proof (cases rule: program_step_cases)
    case by_main
    from joining_main [OF this p(1) tk] show ?thesis using ok by (auto simp: stop_made_def join_rank_def)
  next
    case by_refresh
    from refresh_keeps [OF this] show ?thesis using p(1) ok by (simp add: stop_made_def join_rank_def join_helper_def)
  next
    case by_reactor
    from joining_reactor [OF this p(1)] reactor_keeps [OF this at(3)] show ?thesis using ok at(2) by (simp add: stop_made_def)
  next
    case by_outside
    from joining_outside [OF this p(1) tk] outside_keeps [OF this] show ?thesis using ok at(2,3) by (simp add: stop_made_def)
  qed
qed

subsection \<open>The screen's object is destroyed\<close>

definition tearing_down :: "env \<Rightarrow> 'cb reactor \<Rightarrow> 'cb program \<Rightarrow> bool" where
  "tearing_down env r p \<longleftrightarrow> program_ok env r p \<and> main_at p \<in> {MDestroy, MDestroyExit, MDestroyJoin}"

definition tear_rank :: "'cb program \<Rightarrow> nat" where
  "tear_rank p = (if main_at p = MDestroy then 40 else if main_at p = MDestroyExit then 20 + refresh_rank (refresh_at p)
     else refresh_rank (refresh_at p))"

definition tear_helper :: "'cb program \<Rightarrow> program_thread" where
  "tear_helper p = (if main_at p = MDestroyJoin \<and> refresh_at p \<noteq> FEnd then RefreshThread else MainThread)"

lemma refresh_lowers:
  assumes "refresh_step order p p'" "\<not> tui_running (ui p)"
  shows "refresh_rank (refresh_at p') < refresh_rank (refresh_at p)"
  using assms(1) by cases (use assms(2) after_channel_rank in simp_all)

lemma channel_rank_bound: "channel_rank prio \<le> 2"
  by (cases prio) simp_all

lemma refresh_rank_bound: "refresh_rank pc \<le> 16"
proof (cases pc)
  case (FProcessed prio)
  then show ?thesis using channel_rank_bound [of prio] by simp
next
  case (FDropped prio n)
  then show ?thesis using channel_rank_bound [of prio] by simp
next
  case (FWindow prio n d)
  then show ?thesis using channel_rank_bound [of prio] by simp
qed simp_all

lemma tearing_main:
  assumes "main_step env cfg p p'" "tearing_down env r p"
  shows "main_at p' = MExit \<or> main_at p' \<in> {MDestroyExit, MDestroyJoin} \<and> tear_rank p' < tear_rank p"
  using assms(1) by cases (use assms(2) refresh_rank_bound [of "refresh_at p"] in \<open>auto simp: tearing_down_def tear_rank_def\<close>)

lemma tearing_flow:
  assumes "tearing_down env r p"
  shows "flow_inv p" "lock_inv p" "refresh_at p \<noteq> FOff" "\<forall>k. main_at p \<noteq> MDraw k"
    "main_at p \<noteq> MDestroy \<Longrightarrow> \<not> tui_running (ui p)" "reactor_at p = Entered" "loop (shared p) = LDone"
proof -
  have at: "main_at p \<in> {MDestroy, MDestroyExit, MDestroyJoin}" and inv: "flow_inv p" "lock_inv p"
    using assms by (simp_all add: tearing_down_def program_ok_def program_inv_def)
  show "flow_inv p" "lock_inv p" by (rule inv)+
  show "refresh_at p \<noteq> FOff" using at inv(1) unfolding flow_inv_def by fastforce
  show "\<forall>k. main_at p \<noteq> MDraw k" using at by auto
  show "\<not> tui_running (ui p)" if "main_at p \<noteq> MDestroy" using at that inv(1) unfolding flow_inv_def by fastforce
  show "reactor_at p = Entered" "loop (shared p) = LDone" using at inv(1) unfolding flow_inv_def by fastforce+
qed

lemma tearing_refresh:
  assumes "refresh_step order p p'" "tearing_down env r p"
  shows "main_at p' = main_at p \<and> (tear_rank p' < tear_rank p \<or> main_at p = MDestroy)"
  using refresh_lowers [OF assms(1)] tearing_flow(5) [OF assms(2)] refresh_keeps [OF assms(1)] by (auto simp: tear_rank_def)

interpretation destroying: ranked_progress "program_step env order cfg" "program_agent env order cfg"
  "tearing_down env r" "\<lambda>p. main_at p = MExit" tear_rank tear_helper for env order cfg r
proof
  fix p p' :: "'a program"
  assume p: "tearing_down env r p" "main_at p \<noteq> MExit"
  note at = tearing_flow [OF p(1)]
  show "\<exists>p'. program_agent env order cfg (tear_helper p) p p'"
  proof (cases "main_at p = MDestroyJoin \<and> refresh_at p \<noteq> FEnd")
    case True
    then show ?thesis using refresh_advances [OF at(2,3), of order] at(4,5) by (auto simp: tear_helper_def)
  next
    case False
    then show ?thesis
      using p(1) tui_destroyed [of p env cfg] destroy_exits [of p env cfg] destroy_joins [of p env cfg] destroy_joined [of p env cfg]
      by (auto simp: tear_helper_def tearing_down_def)
  qed
  show "main_at p' = MExit \<or> tear_rank p' < tear_rank p" if "program_agent env order cfg (tear_helper p) p p'"
    using that tearing_main [OF _ p(1), of cfg p'] tearing_refresh [OF _ p(1), of order p']
    by (auto simp: tear_helper_def split: if_splits)
  assume st: "program_step env order cfg p p'"
  have keep: "tearing_down env r p'" if "main_at p' \<in> {MDestroy, MDestroyExit, MDestroyJoin}"
    using program_ok_step [OF _ st] p(1) that by (simp add: tearing_down_def)
  have ats: "main_at p \<in> {MDestroy, MDestroyExit, MDestroyJoin}" using p(1) by (simp add: tearing_down_def)
  from st show "main_at p' = MExit \<or> tearing_down env r p' \<and> (tear_rank p' < tear_rank p \<or> tear_rank p' = tear_rank p \<and> tear_helper p' = tear_helper p)"
  proof (cases rule: program_step_cases)
    case by_main
    from tearing_main [OF this p(1)] show ?thesis using keep by auto
  next
    case by_refresh
    from tearing_refresh [OF this p(1)] show ?thesis using keep ats by (auto simp: tear_rank_def tear_helper_def)
  next
    case by_reactor
    from reactor_keeps [OF this at(6)] show ?thesis using keep ats by (simp add: tear_rank_def tear_helper_def)
  next
    case by_outside
    from outside_keeps [OF this] show ?thesis using keep ats by (simp add: tear_rank_def tear_helper_def)
  qed
qed

subsection \<open>Property\<close>

text \<open>
  C13. Under a scheduler that is weakly fair to the program's three threads the program ends
  after the main thread's own stop: once the screen's loop is over and the main thread is
  about to stop a reactor that is inside \<^verbatim>\<open>run\<close>, and the queue takes no further
  sample, the loop returns, both threads are joined and the main thread gets to its end.
\<close>

theorem fair_program_ends:
  assumes "reactor_inv r" "idle r" "env_ok env"
    and "run_of (program_step env order cfg) \<sigma>" "\<sigma> 0 = program_start r" "weakly_fair (program_agent env order cfg) \<sigma>"
    and "main_at (\<sigma> n) = MStop" "reactor_at (\<sigma> n) = Entered" "\<forall>m \<ge> n. taken_in (shared (\<sigma> m)) = taken_in (shared (\<sigma> n))"
  shows "\<exists>m \<ge> n. main_at (\<sigma> m) = MExit \<and> loop (shared (\<sigma> m)) = LDone \<and> refresh_at (\<sigma> m) = FEnd"
proof -
  have ok: "program_ok env r (\<sigma> m)" for m by (rule program_ok_run [OF assms(4,5,1,2,3)])
  have "stop_due env r (\<sigma> n)" using ok assms(7,8) by (simp add: stop_due_def)
  from making.reaches [OF assms(4,6) this] obtain k where k: "k \<ge> n" "stop_made env r (\<sigma> k)" by blast
  have run: "run_of (\<lambda>p p'. program_step env order cfg p p' \<and> taken_in (shared p') = taken_in (shared p)) (\<lambda>m. \<sigma> (k + m))"
    by (rule run_of_suffix [OF assms(4)]) (use assms(9) k(1) le_SucI le_trans in metis)
  have "stop_made env r (\<sigma> (k + 0))" using k(2) by simp
  from joining.reaches [OF run weakly_fair_suffix [OF assms(6)] this] obtain j where "main_at (\<sigma> (k + j)) = MDestroy" by blast
  then have "tearing_down env r (\<sigma> (k + j))" using ok by (simp add: tearing_down_def)
  from destroying.reaches [OF assms(4,6) this] obtain m where m: "m \<ge> k + j" "main_at (\<sigma> m) = MExit" by blast
  then have "loop (shared (\<sigma> m)) = LDone \<and> refresh_at (\<sigma> m) = FEnd"
    using ok [of m] by (auto simp: program_ok_def program_inv_def flow_inv_def)
  with m k(1) show ?thesis by (intro exI [of _ m]) simp
qed

subsection \<open>Witness\<close>

text \<open>The three threads in turn, nobody else: the queue takes nothing.\<close>

definition quiet :: "'cb program \<Rightarrow> bool" where
  "quiet p \<longleftrightarrow> taken_in (shared p) = [] \<and> (pcs (shared p) 0 = Outside \<or> (\<exists>fd. pcs (shared p) 0 = Waking fd))"

lemma quiet_own:
  assumes "quiet p" "own_step env order cfg p p'"
  shows "quiet p'"
proof -
  from assms(2) consider "main_step env cfg p p'" | "refresh_step order p p'" | "reactor_step env p p'"
    unfolding own_step_def by blast
  then show ?thesis
  proof cases
    case 1
    then show ?thesis by cases (use assms(1) in \<open>auto simp: quiet_def stop_store_def set_thread_def\<close>)
  next
    case 2
    from refresh_keeps [OF this] assms(1) show ?thesis by (simp add: quiet_def)
  next
    case 3
    then show ?thesis by cases (use assms(1) in \<open>simp_all add: quiet_def loop_step_taken loop_step_pcs\<close>)
  qed
qed

definition taking_turns :: "nat \<Rightarrow> program_thread" where
  "taking_turns n = (if n mod 3 = 0 then MainThread else if n mod 3 = 1 then ReactorThread else RefreshThread)"

lemma turns_come: "\<exists>m \<ge> n. taking_turns m = a"
proof -
  have "3 * n mod 3 = 0" "(3 * n + 1) mod 3 = 1" "(3 * n + 2) mod 3 = 2" by presburger+
  then have "taking_turns (3 * n) = MainThread" "taking_turns (3 * n + 1) = ReactorThread" "taking_turns (3 * n + 2) = RefreshThread"
    by (simp_all add: taking_turns_def)
  moreover have "n \<le> 3 * n" "n \<le> 3 * n + 1" "n \<le> 3 * n + 2" by simp_all
  ultimately show ?thesis by (cases a) blast+
qed

lemma reaches_stop:
  "\<exists>p. (own_step env order cfg)\<^sup>*\<^sup>* (program_start r) p \<and> main_at p = MStop \<and> reactor_at p = Entered"
proof -
  let ?S = "own_step env order cfg"
  define p1 where "p1 = (program_start r)\<lparr>reactor_at := Spawned, main_at := MTuiRun\<rparr>"
  define p2 where "p2 = p1\<lparr>main_at := MSpawnRefresh, ui := (ui p1)\<lparr>tui_running := True\<rparr>\<rparr>"
  define p3 where "p3 = p2\<lparr>main_at := MLoop, refresh_at := FCheck,
      ui := ui_log [''spawn refresh'', ''Loop''] ((ui p2)\<lparr>refresh_joinable := True\<rparr>)\<rparr>"
  define p4 where "p4 = p3\<lparr>reactor_at := Entered,
      shared := (shared p3)\<lparr>mem := run_start env (mem (shared p3)), loop := LCheck\<rparr>\<rparr>"
  have "?S (program_start r) p1" unfolding own_step_def p1_def by (intro disjI1 spawn_reactor) (simp add: program_start_def)
  moreover have "?S p1 p2" unfolding own_step_def p2_def by (intro disjI1 tui_enters) (simp add: p1_def)
  moreover have "?S p2 p3" unfolding own_step_def p3_def by (intro disjI1 spawn_refresh) (simp add: p2_def)
  moreover have "?S p3 p4" unfolding own_step_def p4_def by (intro disjI2 enters_run) (simp add: p3_def p2_def p1_def)
  moreover have "?S p4 (p4\<lparr>main_at := MStop\<rparr>)" unfolding own_step_def by (intro disjI1 screen_ends) (simp add: p4_def p3_def)
  ultimately have "?S\<^sup>*\<^sup>* (program_start r) (p4\<lparr>main_at := MStop\<rparr>)" by (simp add: converse_rtranclp_into_rtranclp)
  then show ?thesis by (intro exI [of _ "p4\<lparr>main_at := MStop\<rparr>"]) (simp add: p4_def)
qed

theorem fair_program_ends_witness:
  "\<exists>\<sigma> m. run_of (program_step waking_env (\<lambda>m. []) config_default) \<sigma> \<and> \<sigma> 0 = program_start one_topic \<and>
     weakly_fair (program_agent waking_env (\<lambda>m. []) config_default) \<sigma> \<and> main_at (\<sigma> m) = MExit"
proof -
  let ?own = "own_step waking_env (\<lambda>m. []) config_default" and ?act = "program_agent waking_env (\<lambda>m. []) config_default"
  have act: "\<And>a (p :: nat program) p'. ?act a p p' \<Longrightarrow> ?own p p'"
  proof -
    fix a and p p' :: "nat program"
    show "?act a p p' \<Longrightarrow> ?own p p'" by (cases a) (simp_all add: own_step_def)
  qed
  obtain p where p: "?own\<^sup>*\<^sup>* (program_start one_topic) p" "main_at p = MStop" "reactor_at p = Entered" using reaches_stop by blast
  obtain \<rho> where \<rho>: "run_of ?own \<rho>" "weakly_fair ?act \<rho>" "\<rho> 0 = p" using fair_run_exists [of ?act ?own taking_turns p] act turns_come by metis
  with p(1) obtain \<sigma> k where \<sigma>: "run_of ?own \<sigma>" "weakly_fair ?act \<sigma>" "\<sigma> 0 = program_start one_topic" "\<forall>n. \<sigma> (k + n) = \<rho> n"
    using run_from_path [of ?own _ \<rho> ?act] by metis
  have run: "run_of (program_step waking_env (\<lambda>m. []) config_default) \<sigma>"
    using \<sigma>(1) by (auto simp: run_of_def program_step_def)
  have "quiet (\<sigma> m)" for m
    by (rule run_keeps [OF \<sigma>(1), of quiet 0]) (simp_all add: \<sigma>(3) quiet_own, simp add: quiet_def program_start_def)
  then have tk: "\<forall>m \<ge> k. taken_in (shared (\<sigma> m)) = taken_in (shared (\<sigma> k))" by (simp add: quiet_def)
  have "\<sigma> k = p" using \<sigma>(4) \<rho>(3) by (metis add_0_right)
  then have "\<exists>m \<ge> k. main_at (\<sigma> m) = MExit \<and> loop (shared (\<sigma> m)) = LDone \<and> refresh_at (\<sigma> m) = FEnd"
    by (intro fair_program_ends [OF one_topic_ok waking_env_ok(1) run \<sigma>(3,2) _ _ tk]) (simp_all add: p)
  with run \<sigma>(2,3) show ?thesis by blast
qed

end
