(* ===== verification/Main_Program.thy ===== *)
theory Main_Program
  imports Program_Shutdown
begin

text \<open>
  \<^verbatim>\<open>main\<close> of \<^verbatim>\<open>src/main.cpp\<close> from the command line to its exit status, in both
  modes. The UI mode is the machine of \<^verbatim>\<open>Program_Threads\<close>; without the UI the main
  thread calls \<^verbatim>\<open>run\<close> itself and only signals and Zenoh's threads act beside it.
\<close>

subsection \<open>The mode without the UI\<close>

text \<open>
  The steps of \<^verbatim>\<open>run\<close> are now those of the main thread, which the machine's
  \<^verbatim>\<open>reactor_at\<close> follows: first it is before \<^verbatim>\<open>run\<close>, where signals may already
  come. The other two threads of the machine do not exist.
\<close>

definition plain_start :: "'cb reactor \<Rightarrow> 'cb program" where
  "plain_start r = (program_start r)\<lparr>reactor_at := Spawned\<rparr>"

definition plain_step :: "env \<Rightarrow> 'cb program \<Rightarrow> 'cb program \<Rightarrow> bool" where
  "plain_step env p p' \<longleftrightarrow> reactor_step env p p' \<or> outside_step env p p'"

inductive plain_reachable :: "env \<Rightarrow> 'cb reactor \<Rightarrow> 'cb program \<Rightarrow> bool" for env r where
  plain_begins: "plain_reachable env r (plain_start r)"
| plain_goes_on: "plain_reachable env r p \<Longrightarrow> plain_step env p p' \<Longrightarrow> plain_reachable env r p'"

definition run_returned :: "'cb program \<Rightarrow> bool" where
  "run_returned p \<longleftrightarrow> reactor_at p = Entered \<and> loop (shared p) = LDone"

lemma plain_reachable_core:
  assumes "plain_reachable env r p" "reactor_inv r" "idle r" "env_ok env"
  shows "core_inv r p"
  using assms(1)
proof induction
  case plain_begins
  show ?case using assms(2,3) by (simp add: core_inv_def plain_start_def program_start_def fresh_def)
next
  case (plain_goes_on p p')
  then show ?case using reactor_core outside_core assms(4) unfolding plain_step_def by blast
qed

lemma core_fault: "core_inv r p \<Longrightarrow> conc_fault (shared p) = None"
  by (auto simp: core_inv_def fresh_def live_def conc_invs split: if_splits)

text \<open>Before \<^verbatim>\<open>run\<close> has set the flag, and while it stands, no own step leads out.\<close>

definition goes_on :: "'cb program \<Rightarrow> bool" where
  "goes_on p \<longleftrightarrow> reactor_at p \<noteq> Entered \<or> running (mem (shared p))"

lemma goes_on_step:
  assumes "reactor_step env p p'" "goes_on p" "core_inv r p"
  shows "goes_on p'"
  using assms(1)
proof cases
  case enters_run
  then have "reactor_inv (mem (shared p))" using assms(3) by (simp add: core_inv_def fresh_def)
  from run_start_spec(2) [OF this] enters_run show ?thesis by (simp add: goes_on_def)
next
  case loop_runs
  then show ?thesis using assms(2) by (simp add: goes_on_def loop_step_running)
qed

lemma goes_on_path:
  assumes "(reactor_step env)\<^sup>*\<^sup>* p p'" "goes_on p" "core_inv r p" "env_ok env"
  shows "goes_on p' \<and> core_inv r p'"
  using assms(1)
  by induction (use assms(2-4) goes_on_step reactor_core in blast)+

lemma goes_on_not_returned: "goes_on p \<Longrightarrow> core_inv r p \<Longrightarrow> \<not> run_returned p"
  by (auto simp: goes_on_def core_inv_def live_def run_returned_def)

lemma returns_iff:
  assumes "core_inv r p" "env_ok env"
  shows "(\<exists>p'. (reactor_step env)\<^sup>*\<^sup>* p p' \<and> run_returned p') \<longleftrightarrow> \<not> goes_on p"
proof
  assume "\<exists>p'. (reactor_step env)\<^sup>*\<^sup>* p p' \<and> run_returned p'"
  then show "\<not> goes_on p" using goes_on_path [OF _ _ assms] goes_on_not_returned by blast
next
  assume "\<not> goes_on p"
  then have at: "reactor_at p = Entered" "\<not> running (mem (shared p))" by (simp_all add: goes_on_def)
  then obtain b where "conc_inv b (shared p)" using assms(1) by (auto simp: core_inv_def live_def)
  from stopped_loop_ends [OF this assms(2) at(2)] obtain s' where "(loop_only env)\<^sup>*\<^sup>* (shared p) s'" "loop s' = LDone" by blast
  with lift_loop_path [OF _ at(1)] at(1) show "\<exists>p'. (reactor_step env)\<^sup>*\<^sup>* p p' \<and> run_returned p'"
    by (intro exI [of _ "p\<lparr>shared := s'\<rparr>"]) (simp add: run_returned_def)
qed

subsection \<open>The exit status\<close>

text \<open>
  How \<^verbatim>\<open>main\<close> can end: in its set-up, at the end of the UI mode, when \<^verbatim>\<open>run\<close>
  returns without the UI, or by a fault of memory.
\<close>

inductive main_ends ::
    "'n yaml \<Rightarrow> ctor_env \<Rightarrow> string option \<Rightarrow> int \<Rightarrow> env \<Rightarrow> (session_map \<Rightarrow> string list) \<Rightarrow> string list \<Rightarrow> exit_status \<Rightarrow> bool"
  for y ce var now env order argv where
  setup_ends: "main_setup y ce var now argv = Inl st \<Longrightarrow> main_ends y ce var now env order argv st"
| ui_ends: "main_setup y ce var now argv = Inr (cfg, r) \<Longrightarrow> enabled (tui cfg) \<Longrightarrow>
    program_reachable env order cfg r p \<Longrightarrow> main_at p = MExit \<Longrightarrow> main_ends y ce var now env order argv (Exit 0)"
| ui_faults: "main_setup y ce var now argv = Inr (cfg, r) \<Longrightarrow> enabled (tui cfg) \<Longrightarrow>
    program_reachable env order cfg r p \<Longrightarrow> conc_fault (shared p) \<noteq> None \<Longrightarrow> main_ends y ce var now env order argv Crash"
| plain_ends: "main_setup y ce var now argv = Inr (cfg, r) \<Longrightarrow> \<not> enabled (tui cfg) \<Longrightarrow>
    plain_reachable env r p \<Longrightarrow> run_returned p \<Longrightarrow> main_ends y ce var now env order argv (Exit 0)"
| plain_faults: "main_setup y ce var now argv = Inr (cfg, r) \<Longrightarrow> \<not> enabled (tui cfg) \<Longrightarrow>
    plain_reachable env r p \<Longrightarrow> conc_fault (shared p) \<noteq> None \<Longrightarrow> main_ends y ce var now env order argv Crash"

subsection \<open>The reactor main sets up\<close>

lemma register_idle: "idle r \<Longrightarrow> idle (register_handler p prio cb r)"
  by (simp add: idle_def register_handler_def Let_def)

lemma register_config_idle: "idle r \<Longrightarrow> idle (register_config cfg r)"
proof -
  have "idle r \<Longrightarrow> idle (fold (\<lambda>hc. let prio = parse_priority (hc_priority hc) in register_handler (hc_path hc) prio prio) hcs r)" for hcs
    by (induction hcs arbitrary: r) (simp_all add: Let_def register_idle)
  then show "idle r \<Longrightarrow> idle (register_config cfg r)" by (simp add: register_config_def)
qed

lemma reactor_new_idle: "idle (reactor_new lk fd now)"
  using mpsc_new_inv(2) [of 9, where 'a = CriticalSample]
  by (simp add: idle_def reactor_new_def waiting_def)

lemma main_setup_result:
  assumes "load y (main_config_path argv) config_default = Inr (ok, cfg)"
    and "res = fst (construct ce var (zenoh_config_path (zenoh cfg)) (estop_publish_path (liveliness cfg)) (lv_key (liveliness cfg)) now)"
  shows "main_setup y ce var now argv = (case res of Inl msg \<Rightarrow> Inl (Exit 1) | Inr r \<Rightarrow> if ok then Inr (cfg, register_config cfg r) else Inl (Exit 1))"
  using assms by (cases ok) (auto simp: main_setup_def split: sum.splits)

lemma main_setup_ready:
  assumes "main_setup y ce var now argv = Inr (cfg, r)"
  shows "reactor_inv r \<and> idle r"
proof -
  obtain r0 where r0: "fst (construct ce var (zenoh_config_path (zenoh cfg)) (estop_publish_path (liveliness cfg)) (lv_key (liveliness cfg)) now) = Inr r0"
    "r = register_config cfg r0"
    using assms by (auto simp: main_setup_def split: sum.splits bool.splits)
  then obtain fd where "r0 = reactor_new (lv_key (liveliness cfg)) fd now" using construct_reactor by blast
  then show ?thesis by (simp add: r0(2) register_config_inv reactor_new_inv register_config_idle reactor_new_idle)
qed

text \<open>Without the UI: \<^verbatim>\<open>run\<close> is entered, a signal arrives, the loop ends.\<close>

lemma plain_path: "(reactor_step env)\<^sup>*\<^sup>* p p' \<Longrightarrow> plain_reachable env r p \<Longrightarrow> plain_reachable env r p'"
  by (induction rule: rtranclp_induct) (auto intro: plain_goes_on simp: plain_step_def)

lemma plain_can_return:
  assumes "reactor_inv r" "idle r" "env_ok env"
  shows "\<exists>p. plain_reachable env r p \<and> run_returned p"
proof -
  define p1 where "p1 = (plain_start r)\<lparr>reactor_at := Entered, shared := (shared (plain_start r))\<lparr>mem := run_start env (mem (shared (plain_start r))), loop := LCheck\<rparr>\<rparr>"
  define p2 where "p2 = p1\<lparr>shared := stop_store 1 (shared p1)\<rparr>"
  have "plain_reachable env r p1"
    unfolding p1_def
    by (rule plain_goes_on [OF plain_begins]) (simp add: plain_step_def, rule disjI1, rule enters_run, simp add: plain_start_def)
  moreover have "outside_step env p1 p2"
    unfolding p2_def by (rule signal_stops) (simp_all add: p1_def plain_start_def program_start_def)
  ultimately have p2: "plain_reachable env r p2" using plain_goes_on by (auto simp: plain_step_def)
  have "\<not> goes_on p2" by (simp add: p2_def p1_def goes_on_def stop_store_def set_thread_def core_steps)
  then obtain p' where "(reactor_step env)\<^sup>*\<^sup>* p2 p'" "run_returned p'"
    using returns_iff [OF plain_reachable_core [OF p2 assms] assms(3)] by blast
  then show ?thesis using plain_path [OF _ p2] by blast
qed

lemma ui_can_end:
  assumes "reactor_inv r" "idle r" "env_ok env"
  shows "\<exists>p. program_reachable env order cfg r p \<and> main_at p = MExit"
proof -
  have reach: "program_reachable env order cfg r p'"
    if "(own_step env order cfg)\<^sup>*\<^sup>* p p'" "program_reachable env order cfg r p" for p p'
    using that by (induction rule: rtranclp_induct) (auto intro: program_goes_on simp: program_step_def)
  have "may_exit env order cfg (program_start r)"
    using exits_iff [OF program_reachable_inv [OF program_begins assms] assms(3)] by (simp add: stop_lost_def program_start_def)
  then show ?thesis using reach [OF _ program_begins] unfolding may_exit_def by blast
qed

lemma no_fault:
  assumes "reactor_inv r" "idle r" "env_ok env"
  shows "program_reachable env order cfg r p \<Longrightarrow> conc_fault (shared p) = None"
    and "plain_reachable env r p \<Longrightarrow> conc_fault (shared p) = None"
proof -
  assume "program_reachable env order cfg r p"
  from program_reachable_inv [OF this assms] show "conc_fault (shared p) = None" by (simp add: program_inv_def core_fault [of r])
next
  assume "plain_reachable env r p"
  from plain_reachable_core [OF this assms] show "conc_fault (shared p) = None" by (rule core_fault)
qed

lemma main_status:
  assumes "env_ok env"
  shows "main_ends y ce var now env order argv st \<longleftrightarrow> st = (case main_setup y ce var now argv of Inl st' \<Rightarrow> st' | Inr _ \<Rightarrow> Exit 0)"
proof (cases "main_setup y ce var now argv")
  case (Inl st')
  then show ?thesis by (auto intro: setup_ends elim: main_ends.cases)
next
  case (Inr cr)
  obtain cfg r where cr: "cr = (cfg, r)" by (cases cr)
  have ok: "reactor_inv r" "idle r" using main_setup_ready [of y ce var now argv cfg r] Inr cr by simp_all
  have "main_ends y ce var now env order argv (Exit 0)"
    using ui_ends [of y ce var now argv cfg r env order] plain_ends [of y ce var now argv cfg r env, where order = order] Inr cr
      ui_can_end [OF ok assms, where order = order and cfg = cfg] plain_can_return [OF ok assms] by (cases "enabled (tui cfg)") auto
  moreover have "st = Exit 0" if "main_ends y ce var now env order argv st"
    using that Inr cr no_fault [OF ok assms] by cases auto
  ultimately show ?thesis using Inr by auto
qed

subsection \<open>Properties\<close>

text \<open>
  C33. The mode without the UI, under every interleaving with Zenoh's threads and signals:
  the main thread by its own steps returns from \<^verbatim>\<open>run\<close> from exactly those reachable
  states in which it is inside \<^verbatim>\<open>run\<close> and the flag is cleared. A stop before
  \<^verbatim>\<open>run\<close> is lost, and \<^verbatim>\<open>run\<close> returns only after a stop.
\<close>

theorem plain_run_returns_iff_stopped:
  assumes "reactor_inv r" "idle r" "env_ok env" "plain_reachable env r p"
  shows "((\<exists>p'. (reactor_step env)\<^sup>*\<^sup>* p p' \<and> run_returned p') \<longleftrightarrow> reactor_at p = Entered \<and> \<not> running (mem (shared p))) \<and>
    (run_returned p \<longrightarrow> \<not> running (mem (shared p))) \<and> conc_fault (shared p) = None"
proof -
  have inv: "core_inv r p" by (rule plain_reachable_core [OF assms(4,1-3)])
  then have "run_returned p \<longrightarrow> \<not> running (mem (shared p))" by (auto simp: core_inv_def live_def run_returned_def)
  with returns_iff [OF inv assms(3)] core_fault [OF inv] show ?thesis by (simp add: goes_on_def)
qed

text \<open>A signal before \<^verbatim>\<open>run\<close>, and no other: \<^verbatim>\<open>run\<close> never returns by itself.\<close>

theorem plain_run_returns_iff_stopped_witness:
  "\<exists>p. plain_reachable waking_env two_topics p \<and> reactor_at p = Entered \<and> 
     \<not> (\<exists>p'. (reactor_step waking_env)\<^sup>*\<^sup>* p p' \<and> run_returned p')"
proof -
  define p1 where "p1 = (plain_start two_topics)\<lparr>shared := stop_store 1 (shared (plain_start two_topics))\<rparr>"
  define p2 where "p2 = p1\<lparr>reactor_at := Entered, shared := (shared p1)\<lparr>mem := run_start waking_env (mem (shared p1)), loop := LCheck\<rparr>\<rparr>"
  have "outside_step waking_env (plain_start two_topics) p1"
    unfolding p1_def by (rule signal_stops) (simp_all add: plain_start_def program_start_def)
  then have p1: "plain_reachable waking_env two_topics p1" by (intro plain_goes_on [OF plain_begins]) (simp add: plain_step_def)
  have step: "reactor_step waking_env p1 p2" unfolding p2_def by (rule enters_run) (simp add: p1_def plain_start_def)
  then have p2: "plain_reachable waking_env two_topics p2" by (intro plain_goes_on [OF p1]) (simp add: plain_step_def)
  have "core_inv two_topics p1" by (rule plain_reachable_core [OF p1 two_topics_inv two_topics_idle waking_env_ok(1)])
  then have "goes_on p2" by (rule goes_on_step [OF step, rotated]) (simp add: p1_def goes_on_def plain_start_def)
  moreover have "reactor_at p2 = Entered" by (simp add: p2_def)
  ultimately show ?thesis
    using plain_run_returns_iff_stopped [OF two_topics_inv two_topics_idle waking_env_ok(1) p2] p2 by (auto simp: goes_on_def)
qed



end
