(* ===== verification/Teardown.thy ===== *)
theory Teardown
  imports Lifecycle Reactor_Run
begin

text \<open>
  The end of the \<^verbatim>\<open>try\<close> block of \<^verbatim>\<open>main\<close>: the destructor of the reactor, one call
  at a time, against what may still run, Zenoh's callbacks of the background subscriptions
  and the signal handler with its \<^verbatim>\<open>g_reactor\<close>. An access to something that is already
  gone is recorded.
\<close>

subsection \<open>State\<close>

text \<open>The destructor of \<^verbatim>\<open>src/reactor.cpp\<close>, then that of the members.\<close>

datatype dtor_pc =
    DtorStop | DtorStopWrite | DtorCloseFd | DtorRing | DtorPublisher | DtorClose | DtorSession | DtorMembers | DtorOver

text \<open>
  Inside the data callback at its accesses to the members, or before its write of the
  eventfd; inside the liveliness callback before it publishes.
\<close>

datatype call_pc = NotCalled | InData CallbackContext | BeforeWrite int | InLiveliness

datatype misuse = DeadObject | ClosedFd int | DroppedPublisher

datatype who = FromZenoh | FromSignal

record teardown =
  dtor :: dtor_pc
  held :: "resource list"
  object_alive :: bool
  in_call :: "nat \<Rightarrow> call_pc"
  signal_fd :: "int option"
  misused :: "(who \<times> misuse) list"

definition touch :: "who \<Rightarrow> misuse \<Rightarrow> bool \<Rightarrow> teardown \<Rightarrow> teardown" where
  "touch w m available p = (if available then p else p\<lparr>misused := misused p @ [(w, m)]\<rparr>)"

subsection \<open>Steps\<close>

text \<open>One call of the destructor.\<close>

fun dtor_step :: "int \<Rightarrow> dtor_pc \<Rightarrow> teardown \<Rightarrow> teardown" where
  "dtor_step fd DtorStop p = p\<lparr>dtor := (if fd \<ge> 0 then DtorStopWrite else DtorCloseFd)\<rparr>"
| "dtor_step fd DtorStopWrite p = p\<lparr>dtor := DtorCloseFd\<rparr>"
| "dtor_step fd DtorCloseFd p = p\<lparr>held := (if fd \<ge> 0 then remove1 (EventFd fd) (held p) else held p), dtor := DtorRing\<rparr>"
| "dtor_step fd DtorRing p = p\<lparr>held := remove1 IoRing (held p), dtor := DtorPublisher\<rparr>"
| "dtor_step fd DtorPublisher p = p\<lparr>held := remove1 ZPublisher (held p), dtor := DtorClose\<rparr>"
| "dtor_step fd DtorClose p = p\<lparr>dtor := DtorSession\<rparr>"
| "dtor_step fd DtorSession p = p\<lparr>held := remove1 ZSession (held p), dtor := DtorMembers\<rparr>"
| "dtor_step fd DtorMembers p = p\<lparr>object_alive := False, dtor := DtorOver\<rparr>"
| "dtor_step fd DtorOver p = p"

text \<open>
  Zenoh calls back until its session is closed; \<open>waits\<close> says whether \<^verbatim>\<open>z_close\<close> waits for
  the callbacks that are running. The last rules are those of the signal handler: the flag
  is a member of the object, the eventfd another resource.
\<close>

definition session_open :: "teardown \<Rightarrow> bool" where
  "session_open p \<longleftrightarrow> dtor p \<notin> {DtorSession, DtorMembers, DtorOver}"

inductive teardown_step :: "bool \<Rightarrow> 'cb reactor \<Rightarrow> teardown \<Rightarrow> teardown \<Rightarrow> bool" for waits r where
  destroys: "dtor p \<noteq> DtorOver \<Longrightarrow> (dtor p = DtorClose \<Longrightarrow> waits \<Longrightarrow> \<forall>t. in_call p t = NotCalled) \<Longrightarrow>
    teardown_step waits r p (dtor_step (wakeup_fd r) (dtor p) p)"
| data_enters: "session_open p \<Longrightarrow> in_call p t = NotCalled \<Longrightarrow> ctx \<in> set (contexts r) \<Longrightarrow>
    teardown_step waits r p (p\<lparr>in_call := (in_call p)(t := InData ctx)\<rparr>)"
| data_touches: "in_call p t = InData ctx \<Longrightarrow>
    pc = NotCalled \<or> ctx_priority ctx = CRITICAL \<and> pc = BeforeWrite (ctx_wakeup_fd ctx) \<Longrightarrow>
    teardown_step waits r p (touch FromZenoh DeadObject (object_alive p) (p\<lparr>in_call := (in_call p)(t := pc)\<rparr>))"
| data_writes: "in_call p t = BeforeWrite fd \<Longrightarrow>
    teardown_step waits r p (touch FromZenoh (ClosedFd fd) (EventFd fd \<in> set (held p)) (p\<lparr>in_call := (in_call p)(t := NotCalled)\<rparr>))"
| liveliness_enters: "session_open p \<Longrightarrow> in_call p t = NotCalled \<Longrightarrow>
    teardown_step waits r p (p\<lparr>in_call := (in_call p)(t := InLiveliness)\<rparr>)"
| liveliness_publishes: "in_call p t = InLiveliness \<Longrightarrow>
    teardown_step waits r p (touch FromZenoh DroppedPublisher (ZPublisher \<in> set (held p)) (p\<lparr>in_call := (in_call p)(t := NotCalled)\<rparr>))"
| signal_stores: "signal_fd p = None \<Longrightarrow>
    teardown_step waits r p (touch FromSignal DeadObject (object_alive p)
      (p\<lparr>signal_fd := (if wakeup_fd r \<ge> 0 then Some (wakeup_fd r) else None)\<rparr>))"
| signal_writes: "signal_fd p = Some fd \<Longrightarrow>
    teardown_step waits r p (touch FromSignal (ClosedFd fd) (EventFd fd \<in> set (held p)) (p\<lparr>signal_fd := None\<rparr>))"

definition teardown_start :: "resource list \<Rightarrow> teardown" where
  "teardown_start res = \<lparr>dtor = DtorStop, held = res, object_alive = True, in_call = (\<lambda>t. NotCalled),
     signal_fd = None, misused = []\<rparr>"

subsection \<open>What can be misused when\<close>

fun past_close :: "dtor_pc \<Rightarrow> bool" where
  "past_close DtorStop = False" | "past_close DtorStopWrite = False" | "past_close DtorCloseFd = False" | "past_close pc = True"

fun past_publisher :: "dtor_pc \<Rightarrow> bool" where
  "past_publisher DtorClose = True" | "past_publisher DtorSession = True" | "past_publisher DtorMembers = True"
| "past_publisher DtorOver = True" | "past_publisher pc = False"

definition too_late :: "'cb reactor \<Rightarrow> dtor_pc \<Rightarrow> who \<Rightarrow> misuse \<Rightarrow> bool" where
  "too_late r pc w m \<longleftrightarrow>
     m = ClosedFd (wakeup_fd r) \<and> past_close pc \<or> w = FromZenoh \<and> m = DroppedPublisher \<and> past_publisher pc \<or>
     w = FromSignal \<and> m = DeadObject \<and> pc = DtorOver"

definition teardown_inv :: "'cb reactor \<Rightarrow> teardown \<Rightarrow> bool" where
  "teardown_inv r p \<longleftrightarrow>
     (\<not> past_close (dtor p) \<longrightarrow> EventFd (wakeup_fd r) \<in> set (held p)) \<and>
     (\<not> past_publisher (dtor p) \<longrightarrow> ZPublisher \<in> set (held p)) \<and>
     (object_alive p \<longleftrightarrow> dtor p \<noteq> DtorOver) \<and>
     (\<not> session_open p \<longrightarrow> (\<forall>t. in_call p t = NotCalled)) \<and>
     (\<forall>t fd. in_call p t = BeforeWrite fd \<longrightarrow> fd = wakeup_fd r) \<and>
     (\<forall>t ctx. in_call p t = InData ctx \<longrightarrow> ctx_wakeup_fd ctx = wakeup_fd r) \<and>
     (\<forall>fd. signal_fd p = Some fd \<longrightarrow> fd = wakeup_fd r) \<and>
     (\<forall>(w, m) \<in> set (misused p). too_late r (dtor p) w m)"

definition contexts_ok :: "'cb reactor \<Rightarrow> bool" where
  "contexts_ok r \<longleftrightarrow> (\<forall>ctx \<in> set (contexts r). ctx_wakeup_fd ctx = wakeup_fd r)"

lemma past_simps: "past_publisher pc \<Longrightarrow> past_close pc"
  by (cases pc) simp_all

lemma dtor_step_inv:
  assumes "teardown_inv r p" "dtor p = DtorClose \<Longrightarrow> \<forall>t. in_call p t = NotCalled"
  shows "teardown_inv r (dtor_step (wakeup_fd r) (dtor p) p)"
  using assms by (cases "dtor p") (auto simp: teardown_inv_def session_open_def too_late_def)

lemma touch_inv:
  assumes "teardown_inv r p" "\<not> available \<Longrightarrow> too_late r (dtor p) w m"
  shows "teardown_inv r (touch w m available p)"
  using assms by (simp add: teardown_inv_def touch_def session_open_def)

lemma call_inv:
  assumes "teardown_inv r p" "pc \<noteq> NotCalled \<Longrightarrow> session_open p" "\<And>fd. pc = BeforeWrite fd \<Longrightarrow> fd = wakeup_fd r"
    and "\<And>ctx. pc = InData ctx \<Longrightarrow> ctx_wakeup_fd ctx = wakeup_fd r"
  shows "teardown_inv r (p\<lparr>in_call := (in_call p)(t := pc)\<rparr>)"
  using assms unfolding teardown_inv_def session_open_def by simp blast

lemma signal_inv: "teardown_inv r p \<Longrightarrow> fd = None \<or> fd = Some (wakeup_fd r) \<Longrightarrow> teardown_inv r (p\<lparr>signal_fd := fd\<rparr>)"
  by (auto simp: teardown_inv_def session_open_def)

text \<open>What is not there has been given back.\<close>

lemma gone:
  assumes "teardown_inv r p"
  shows "EventFd (wakeup_fd r) \<notin> set (held p) \<Longrightarrow> too_late r (dtor p) w (ClosedFd (wakeup_fd r))"
    and "ZPublisher \<notin> set (held p) \<Longrightarrow> too_late r (dtor p) FromZenoh DroppedPublisher"
    and "\<not> object_alive p \<Longrightarrow> too_late r (dtor p) FromSignal DeadObject"
    and "in_call p t \<noteq> NotCalled \<Longrightarrow> session_open p \<and> object_alive p"
    and "in_call p t = BeforeWrite fd \<Longrightarrow> fd = wakeup_fd r"
    and "in_call p t = InData ctx \<Longrightarrow> ctx_wakeup_fd ctx = wakeup_fd r"
    and "signal_fd p = Some fd \<Longrightarrow> fd = wakeup_fd r"
  using assms unfolding teardown_inv_def too_late_def session_open_def by blast+

lemma teardown_step_inv:
  assumes "teardown_step True r p p'" "teardown_inv r p" "contexts_ok r"
  shows "teardown_inv r p'"
  using assms(1)
proof cases
  case destroys
  then show ?thesis using dtor_step_inv [OF assms(2)] by simp
next
  case (data_enters t ctx)
  then show ?thesis using assms(3) by (auto simp: contexts_ok_def intro!: call_inv [OF assms(2)])
next
  case (data_touches t ctx pc)
  then show ?thesis using gone(4,6) [OF assms(2), of t]
    by (auto intro!: touch_inv call_inv [OF assms(2)])
next
  case (data_writes t fd)
  then show ?thesis using gone(1,5) [OF assms(2)] by (auto intro!: touch_inv call_inv [OF assms(2)])
next
  case (liveliness_enters t)
  then show ?thesis by (auto intro!: call_inv [OF assms(2)])
next
  case (liveliness_publishes t)
  then show ?thesis using gone(2) [OF assms(2)] by (auto intro!: touch_inv call_inv [OF assms(2)])
next
  case signal_stores
  then show ?thesis using gone(3) [OF assms(2)] by (auto intro!: touch_inv signal_inv [OF assms(2)])
next
  case (signal_writes fd)
  then show ?thesis using gone(1,7) [OF assms(2)] by (auto intro!: touch_inv signal_inv [OF assms(2)])
qed

subsection \<open>Runs\<close>

definition all_resources :: "'cb reactor \<Rightarrow> resource list" where
  "all_resources r = [ZSession, ZPublisher, IoRing, EventFd (wakeup_fd r)]"

lemma teardown_reachable_inv:
  assumes "(teardown_step True r)\<^sup>*\<^sup>* (teardown_start (all_resources r)) p" "contexts_ok r"
  shows "teardown_inv r p"
  using assms(1)
proof induction
  case base
  show ?case by (simp add: teardown_inv_def teardown_start_def all_resources_def session_open_def)
next
  case (step p p')
  then show ?case using teardown_step_inv assms(2) by blast
qed

text \<open>The destructor on its own, from \<open>p\<close> by \<open>n\<close> calls.\<close>

fun dtor_run :: "'cb reactor \<Rightarrow> nat \<Rightarrow> teardown \<Rightarrow> teardown" where
  "dtor_run r 0 p = p"
| "dtor_run r (Suc n) p = dtor_run r n (dtor_step (wakeup_fd r) (dtor p) p)"

lemma dtor_step_calls: "in_call (dtor_step fd pc p) = in_call p"
  by (cases pc) simp_all

fun calls_left :: "dtor_pc \<Rightarrow> nat" where
  "calls_left DtorStop = 5" | "calls_left DtorStopWrite = 4" | "calls_left DtorCloseFd = 3" | "calls_left DtorRing = 2"
| "calls_left DtorPublisher = 1" | "calls_left pc = 0"

lemma dtor_run_path:
  assumes "0 \<le> wakeup_fd r \<and> n \<le> calls_left (dtor p) \<or> (\<forall>t. in_call p t = NotCalled)"
  shows "(teardown_step waits r)\<^sup>*\<^sup>* p (dtor_run r n p)"
  using assms
proof (induction n arbitrary: p)
  case (Suc n)
  let ?q = "dtor_step (wakeup_fd r) (dtor p) p"
  have "(teardown_step waits r)\<^sup>*\<^sup>* p ?q"
  proof (cases "dtor p = DtorOver")
    case False
    then have "teardown_step waits r p ?q" by (rule destroys) (use Suc.prems in auto)
    then show ?thesis by blast
  qed simp
  moreover have "(teardown_step waits r)\<^sup>*\<^sup>* ?q (dtor_run r n ?q)"
    by (rule Suc.IH) (use Suc.prems in \<open>cases "dtor p"; auto simp: dtor_step_calls split: if_splits\<close>)
  ultimately show ?case by simp
qed simp

lemma dtor_run_destructs: "dtor (dtor_run r 8 (teardown_start res)) = DtorOver \<and>
    held (dtor_run r 8 (teardown_start res)) = snd (destruct r res) \<and> \<not> object_alive (dtor_run r 8 (teardown_start res))"
  by (cases "wakeup_fd r \<ge> 0") (simp_all add: numeral_eq_Suc teardown_start_def destruct_def Let_def stop_def io_def)

text \<open>The three misuses happen: a callback or a signal that comes, or goes on, too late.\<close>

lemma start_simps [simp]:
  "dtor (teardown_start res) = DtorStop" "in_call (teardown_start res) = (\<lambda>t. NotCalled)" "object_alive (teardown_start res)"
  "misused (teardown_start res) = []" "signal_fd (teardown_start res) = None" "held (teardown_start res) = res"
  by (simp_all add: teardown_start_def)

lemma path_between:
  "R\<^sup>*\<^sup>* a b \<Longrightarrow> R\<^sup>*\<^sup>* b c \<Longrightarrow> R c d \<Longrightarrow> R\<^sup>*\<^sup>* a d"
  by (meson rtranclp.rtrancl_into_rtrancl rtranclp_trans)

lemma written_late:
  assumes "contexts_ok r" "0 \<le> wakeup_fd r" "ctx \<in> set (contexts r)" "ctx_priority ctx = CRITICAL"
  shows "\<exists>p. (teardown_step waits r)\<^sup>*\<^sup>* (teardown_start (all_resources r)) p \<and> (FromZenoh, ClosedFd (wakeup_fd r)) \<in> set (misused p)"
proof -
  let ?S = "teardown_step waits r" and ?p0 = "teardown_start (all_resources r)"
  define p1 where "p1 = ?p0\<lparr>in_call := (in_call ?p0)(0 := InData ctx)\<rparr>"
  define p2 where "p2 = p1\<lparr>in_call := (in_call p1)(0 := BeforeWrite (wakeup_fd r))\<rparr>"
  let ?p3 = "dtor_run r 3 p2"
  let ?p4 = "touch FromZenoh (ClosedFd (wakeup_fd r)) (EventFd (wakeup_fd r) \<in> set (held ?p3)) (?p3\<lparr>in_call := (in_call ?p3)(0 := NotCalled)\<rparr>)"
  have "?S ?p0 p1" unfolding p1_def by (rule data_enters) (use assms(3) in \<open>simp_all add: session_open_def\<close>)
  moreover have "?S p1 p2"
    using data_touches [of p1 0 ctx "BeforeWrite (wakeup_fd r)" waits r] assms(1,3,4)
    by (simp add: p2_def touch_def) (simp add: p1_def contexts_ok_def)
  ultimately have "?S\<^sup>*\<^sup>* ?p0 p2" by (meson converse_rtranclp_into_rtranclp r_into_rtranclp)
  moreover have "?S\<^sup>*\<^sup>* p2 ?p3" by (rule dtor_run_path) (use assms(2) in \<open>simp add: p2_def p1_def\<close>)
  moreover have "?S ?p3 ?p4" by (rule data_writes) (use assms(2) in \<open>simp add: p2_def p1_def numeral_eq_Suc\<close>)
  ultimately have "?S\<^sup>*\<^sup>* ?p0 ?p4" by (rule path_between)
  moreover have "EventFd (wakeup_fd r) \<notin> set (held ?p3)"
    using assms(2) by (simp add: p2_def p1_def numeral_eq_Suc all_resources_def)
  then have "(FromZenoh, ClosedFd (wakeup_fd r)) \<in> set (misused ?p4)" by (simp add: touch_def)
  ultimately show ?thesis by blast
qed

lemma published_late:
  assumes "0 \<le> wakeup_fd r"
  shows "\<exists>p. (teardown_step waits r)\<^sup>*\<^sup>* (teardown_start (all_resources r)) p \<and> (FromZenoh, DroppedPublisher) \<in> set (misused p)"
proof -
  let ?S = "teardown_step waits r" and ?p0 = "teardown_start (all_resources r)"
  define p1 where "p1 = ?p0\<lparr>in_call := (in_call ?p0)(0 := InLiveliness)\<rparr>"
  let ?p3 = "dtor_run r 5 p1"
  let ?p4 = "touch FromZenoh DroppedPublisher (ZPublisher \<in> set (held ?p3)) (?p3\<lparr>in_call := (in_call ?p3)(0 := NotCalled)\<rparr>)"
  have "?S\<^sup>*\<^sup>* ?p0 p1" unfolding p1_def by (rule r_into_rtranclp, rule liveliness_enters) (simp_all add: session_open_def)
  moreover have "?S\<^sup>*\<^sup>* p1 ?p3" by (rule dtor_run_path) (use assms in \<open>simp add: p1_def\<close>)
  moreover have "?S ?p3 ?p4" by (rule liveliness_publishes) (use assms in \<open>simp add: p1_def numeral_eq_Suc\<close>)
  ultimately have "?S\<^sup>*\<^sup>* ?p0 ?p4" by (rule path_between)
  moreover have "ZPublisher \<notin> set (held ?p3)"
    using assms by (simp add: p1_def numeral_eq_Suc all_resources_def)
  then have "(FromZenoh, DroppedPublisher) \<in> set (misused ?p4)" by (simp add: touch_def)
  ultimately show ?thesis by blast
qed

lemma destructor_alone:
  assumes "0 \<le> wakeup_fd r"
  shows "\<exists>p. (teardown_step waits r)\<^sup>*\<^sup>* (teardown_start (all_resources r)) p \<and> dtor p = DtorOver \<and> misused p = [] \<and>
     held p = snd (destruct r (all_resources r)) \<and> held p = [] \<and> \<not> object_alive p \<and> signal_fd p = None"
proof -
  let ?d = "dtor_run r 8 (teardown_start (all_resources r))"
  have "misused ?d = []" "signal_fd ?d = None" "held ?d = []"
    using assms by (simp_all add: numeral_eq_Suc all_resources_def)
  then show ?thesis
    using dtor_run_path [of r 8 "teardown_start (all_resources r)" waits] dtor_run_destructs [of r "all_resources r"]
    by (intro exI [of _ ?d]) simp
qed

lemma stopped_late:
  assumes "0 \<le> wakeup_fd r"
  shows "\<exists>p. (teardown_step waits r)\<^sup>*\<^sup>* (teardown_start (all_resources r)) p \<and> (FromSignal, DeadObject) \<in> set (misused p)"
proof -
  obtain d where d: "(teardown_step waits r)\<^sup>*\<^sup>* (teardown_start (all_resources r)) d" "\<not> object_alive d" "signal_fd d = None"
    using destructor_alone [OF assms] by blast
  from rtranclp.rtrancl_into_rtrancl [OF d(1) signal_stores [OF d(3)]] show ?thesis
    using d(2) by (intro exI conjI) (assumption, simp add: touch_def)
qed

subsection \<open>Property\<close>

text \<open>
  C26. The teardown of the reactor races with what it does not wait for. While the session is
  open a callback can write the eventfd after its descriptor is closed, and publish on the
  dropped publisher; a signal can stop the object after its end. If closing the session
  waits for running callbacks, these and a late write of a signal are the only misuses, and
  only in those windows; the destructor on its own gives everything back.
\<close>

theorem teardown_races:
  assumes "contexts_ok r" "0 \<le> wakeup_fd r" "ctx \<in> set (contexts r)" "ctx_priority ctx = CRITICAL"
  shows "(\<forall>p w m. (teardown_step True r)\<^sup>*\<^sup>* (teardown_start (all_resources r)) p \<and> (w, m) \<in> set (misused p) \<longrightarrow>
      m = ClosedFd (wakeup_fd r) \<and> past_close (dtor p) \<or> w = FromZenoh \<and> m = DroppedPublisher \<and> past_publisher (dtor p) \<or>
      w = FromSignal \<and> m = DeadObject \<and> dtor p = DtorOver) \<and>
    (\<forall>x \<in> {(FromZenoh, ClosedFd (wakeup_fd r)), (FromZenoh, DroppedPublisher), (FromSignal, DeadObject)}.
       \<exists>p. (teardown_step waits r)\<^sup>*\<^sup>* (teardown_start (all_resources r)) p \<and> x \<in> set (misused p)) \<and>
    (\<exists>p. (teardown_step waits r)\<^sup>*\<^sup>* (teardown_start (all_resources r)) p \<and> dtor p = DtorOver \<and> misused p = [] \<and>
       held p = snd (destruct r (all_resources r)) \<and> held p = [])"
proof -
  have "too_late r (dtor p) w m"
    if "(teardown_step True r)\<^sup>*\<^sup>* (teardown_start (all_resources r)) p" "(w, m) \<in> set (misused p)" for p w m
    using teardown_reachable_inv [OF that(1) assms(1)] that(2) by (auto simp: teardown_inv_def)
  then show ?thesis
    using written_late [OF assms] published_late [OF assms(2)] stopped_late [OF assms(2)] destructor_alone [OF assms(2)]
    unfolding too_late_def by blast
qed

theorem teardown_races_witness:
  "\<exists>p. (teardown_step True (run_start sample_env two_topics))\<^sup>*\<^sup>* (teardown_start (all_resources (run_start sample_env two_topics))) p \<and>
     (FromZenoh, ClosedFd 5) \<in> set (misused p)"
proof -
  let ?r = "run_start sample_env two_topics"
  let ?ctx = "\<lparr>ctx_handler_hash = fnv1a_hash ''a'', ctx_priority = CRITICAL, ctx_wakeup_fd = 5\<rparr>"
  have "contexts_ok ?r" using run_start_spec(3) [OF two_topics_inv, of sample_env] by (simp add: contexts_ok_def subscribed_def ctx_ok_def)
  moreover have "wakeup_fd ?r = 5" "?ctx \<in> set (contexts ?r)"
    by (simp_all add: run_start_def two_topics_def register_handler_def reactor_new_def Let_def subscribe_def
        subscribe_liveliness_def arm_poll_eventfd_def pre_allocate_handlers_def io_def spdlog_def sample_env_def)
  ultimately show ?thesis using teardown_races [of ?r ?ctx True] by simp
qed

end
