(* ===== verification/Spec2Isabelle.thy ===== *)
theory Spec2Isabelle
  imports MPSC_Refinement Cache_Concurrent Session_Concurrent Stats_Concurrent Kernel_Locks
    Reactor_Spec Message_Types Frame_Liveness Stats_Race Program_Liveness Main_Program Teardown
begin

text \<open>
  FlowKernel: a verification library for the C++ kernel in \<^verbatim>\<open>src/\<close> and
  \<^verbatim>\<open>include/\<close>.

  \<^bold>\<open>The program.\<close> FlowKernel receives Zenoh samples and dispatches them to handlers by
  priority. \<^verbatim>\<open>main\<close> loads a YAML file (\<^verbatim>\<open>src/config.cpp\<close>), registers one
  handler for each configured topic, and runs a \<^verbatim>\<open>DataFlowReactor\<close>
  (\<^verbatim>\<open>src/reactor.cpp\<close>). Zenoh's threads enter through
  \<^verbatim>\<open>zenoh_data_callback\<close>: CRITICAL and NORMAL samples go into one bounded
  multi-producer ring (\<^verbatim>\<open>mpsc_queue.hpp\<close>), BACKGROUND samples into the slot of
  their topic, which keeps the newest only (\<^verbatim>\<open>latest_cache.hpp\<close>); a CRITICAL
  sample also writes an eventfd. The loop's thread repeats \<^verbatim>\<open>handle_events\<close>:
  account the drops, empty the ring, empty the slots, wait on the io_uring for the eventfd
  or 50 ms. Topics are keyed by their FNV-1a hash (\<^verbatim>\<open>common.hpp\<close>). The terminal UI
  (\<^verbatim>\<open>src/tui/tui_app.cpp\<close>) reads the statistics and can reset them.

  \<^bold>\<open>The theories.\<close>
  \<^item> \<^verbatim>\<open>FK_Prelude\<close>: machine types, the memory errors (an access outside the buffer,
    a read or destructor call on a dead object, a construction over a live one), ring-index
    arithmetic, \<^verbatim>\<open>drain_loop\<close> for \<^verbatim>\<open>while (q.pop(x))\<close>.
  \<^item> \<^verbatim>\<open>Fifo_Interface\<close>: the locale of a bounded FIFO that counts what it rejects, and
    what its clients derive from that contract alone.
  \<^item> \<^verbatim>\<open>MPSC_Queue\<close>: the ring over raw storage with object lifetimes, as sequential
    operations; interprets the FIFO contract. \<^verbatim>\<open>MPSC_Concurrent\<close>: the same code one
    atomic access at a time, with any number of producers, one consumer and stale index loads.
    \<^verbatim>\<open>MPSC_Refinement\<close>: those steps implement an abstract FIFO without ring or lock.
  \<^item> \<^verbatim>\<open>Common_Hash\<close>: \<^verbatim>\<open>fnv1a_hash\<close> on 64-bit words.
  \<^item> \<^verbatim>\<open>Spin_Lock\<close>: the spin-lock protocol of a slot as a locale, giving atomicity of
    the locked sections. \<^verbatim>\<open>Latest_Cache\<close>: slots and their map over a heap of slot
    objects, pre-allocation, the fast lookup, drain and drop totals.
    \<^verbatim>\<open>Cache_Concurrent\<close>: the map under its \<^verbatim>\<open>shared_mutex\<close>, with any number
    of threads inside its operations and puts at any moment.
  \<^item> \<^verbatim>\<open>Binary64\<close>: doubles as rationals rounded to 53 bits, ties to even, with an
    error bound. \<^verbatim>\<open>Stats\<close>: latency windows and percentiles. \<^verbatim>\<open>Sessions\<close>: the
    robot id of a key and the last-seen table. \<^verbatim>\<open>Stats_Concurrent\<close> and
    \<^verbatim>\<open>Session_Concurrent\<close>: both under their mutexes, access by access.
  \<^item> \<^verbatim>\<open>Lock_Order\<close>: threads that make calls which acquire and release locks, and the
    locale of calls that acquire in increasing rank. \<^verbatim>\<open>Kernel_Locks\<close>: what every function of
    the program locks, as its interpretation.
  \<^item> \<^verbatim>\<open>Reactor_Model\<close>: the record of the reactor and one definition for each member
    function of \<^verbatim>\<open>reactor.hpp\<close>, both Zenoh callbacks, the start-up part of
    \<^verbatim>\<open>run\<close>. \<^verbatim>\<open>Reactor\<close>: invariant, routing, dispatch.
    \<^verbatim>\<open>Reactor_Accounting\<close>: what the counters mean over whole runs.
    \<^verbatim>\<open>Reactor_Run\<close>: \<^verbatim>\<open>run\<close>, \<^verbatim>\<open>stop\<close>, the eventfd and the
    one-shot poll. \<^verbatim>\<open>Reactor_Spec\<close>: the abstract dataflow and the refinement.
  \<^item> \<^verbatim>\<open>Reactor_Threads\<close>, \<^verbatim>\<open>Reactor_Concurrent\<close>: the loop cut into its single
    accesses and interleaved with callbacks and stops at every point.
    \<^verbatim>\<open>Message_Types\<close>: what kind of message is where.
    \<^verbatim>\<open>Stats_Race\<close>: \<^verbatim>\<open>reset_stats\<close> against the loop's drop accounting.
  \<^item> \<^verbatim>\<open>Program_Threads\<close>, \<^verbatim>\<open>Program_Shutdown\<close>: the UI mode of the program with its
    main, reactor and refresh threads, the mutex of the displayed data, callbacks and signals;
    from which states the program can end, and that panels never show half a refresh.
  \<^item> \<^verbatim>\<open>Fair_Runs\<close>: infinite runs, weak fairness, and the locale
    \<^verbatim>\<open>ranked_progress\<close> with the one rule for progress under fairness.
    \<^verbatim>\<open>Reactor_Liveness\<close> interprets it twice on the loop, \<^verbatim>\<open>Frame_Liveness\<close>
    once on its slots, \<^verbatim>\<open>Program_Liveness\<close> three times on the whole program. This
    theory joins configuration, registration and loop in one theorem.
  \<^item> \<^verbatim>\<open>Lifecycle\<close>: constructor, destructor and the resources they hold.
    \<^verbatim>\<open>Teardown\<close>: the destructor against callbacks and signals that come late.
  \<^item> \<^verbatim>\<open>Config_Load\<close>: the structs of \<^verbatim>\<open>config.hpp\<close> with their defaults, the
    loader statement by statement. \<^verbatim>\<open>TUI\<close>: formatting, the element tree of every
    panel, keys, start and stop. \<^verbatim>\<open>Main_App\<close>: \<^verbatim>\<open>main\<close> up to
    its choice of mode, and the callback it registers. \<^verbatim>\<open>Main_Program\<close>: the mode
    without the UI under interleaving, and the exit status of both modes.

  \<^bold>\<open>What is shown.\<close> For the ring: memory safety, FIFO order, conservation and
  progress, first for sequential calls, then for every interleaving. For the cache: a slot is
  a register that hands out the newest frame once, no frame is unaccounted for, pointers
  handed out stay valid, readers see a map that does not change, and the drop total read
  while frames arrive is the exact total of one moment of the call. For the reactor:
  every pass ends without a fault and calls exactly the right handlers in order; drop and
  frame counters add up over any run; a list of sessions and a summary of latencies are those
  of one moment; the locks of all components together cannot deadlock; the sequential reactor implements an abstract dataflow
  specification; under interleaving handlers only get verified messages, the calls keep the
  order of the queue, no BACKGROUND frame is lost uncounted and no CRITICAL sample or stop is
  slept through. Under a weakly fair scheduler every sample the queue took is handled, so
  that a sample on a configured topic reaches its callback; and while no further sample is
  taken held frames are handled, a stopped loop returns and the program ends after its own
  stop. The exit status is 1 after a failed set-up and otherwise 0. A producer
  that never pauses keeps the loop in its queue for ever.

  Several theorems state what goes wrong: a poll whose re-submission fails is never armed
  again, a second \<^verbatim>\<open>run\<close> frees contexts still in use, a reset racing with the loop
  wraps the drop counters, two callbacks that overtake each other set the
  last-seen time of a robot back, CRITICAL samples wait behind NORMAL ones, a latency with a future
  timestamp wraps, the destructor closes what running callbacks and the signal handler use.

  \<^bold>\<open>Parameters.\<close> Code outside the repository is an argument. The record
  \<^verbatim>\<open>env\<close> holds the FlatBuffers verifier and builder, the steady clock, the iteration
  order of the hash map, whether Zenoh accepts a key expression or a subscription, whether the
  submission queue has an entry, and what the wait returns; the last three may depend
  on every call made so far (\<^verbatim>\<open>io_trace\<close>). yaml-cpp with the file system is the
  record \<^verbatim>\<open>yaml\<close>; what a constructor's system calls return is
  \<^verbatim>\<open>ctor_env\<close>. Hypotheses on them are named: \<^verbatim>\<open>env_ok\<close> (an iteration
  visits every key once), \<^verbatim>\<open>kernel_wakes\<close> and \<^verbatim>\<open>kernel_quiet\<close> (an armed
  poll on a readable eventfd completes a wait, an unarmed one does not).

  \<^bold>\<open>Bounds and termination.\<close> The ring has the code's 512 slots, of which 511 are
  used; the theorems on the ring alone hold for every power of two. A latency window holds
  1000 values. \<^verbatim>\<open>drain_loop\<close> and the destructor's loop are partial functions whose
  result is proved to exist. \<^verbatim>\<open>run_loop\<close> recurses over a script that says what other
  threads do between the passes, which is its only bound; since a pass is atomic there, it
  says nothing about threads that keep a pass from ending. Whether \<^verbatim>\<open>run\<close> returns under
  interleaving is what \<^verbatim>\<open>stopped_loop_returns\<close>,
  \<^verbatim>\<open>plain_run_returns_iff_stopped\<close>, \<^verbatim>\<open>fair_program_ends\<close> and
  \<^verbatim>\<open>sustained_load_starves\<close> state. A push takes at most five steps once it holds the
  lock, a pop at most four.

  \<^bold>\<open>Granularity.\<close> In \<^verbatim>\<open>Reactor_Model\<close> a callback, a pass and a reset are atomic.
  \<^verbatim>\<open>Reactor_Threads\<close> splits callbacks, passes and stops, with one push, pop, put,
  take or drop total as a step; \<^verbatim>\<open>MPSC_Concurrent\<close>, \<^verbatim>\<open>Spin_Lock\<close> and
  \<^verbatim>\<open>Cache_Concurrent\<close> split those. Sections under the two mutexes of the reactor
  and resets are one step there; \<^verbatim>\<open>Session_Concurrent\<close>,
  \<^verbatim>\<open>Stats_Concurrent\<close> and \<^verbatim>\<open>Stats_Race\<close> split them.

  \<^bold>\<open>Not modelled.\<close> The text of log messages (the model records which are logged);
  the inside of the FTXUI screen loop, which here draws, hands over keys and may end; memory orderings weaker than the
  ring's acquire and release pairs, so a data race is only seen through its interleavings;
  the reads of \<^verbatim>\<open>print_drop_stats\<close> one by one, since they only repeat those of the
  drop total; the \<^verbatim>\<open>pmr\<close> pool and \<^verbatim>\<open>CacheAligned\<close>, which affect no
  result; exceptions from allocation; handlers that call back into the reactor, which run under
  the lock of the cache's map when they get a BACKGROUND frame; the generated
  FlatBuffers header, the Rust port, tests and scripts. Doubles have no infinities or NaN:
  no operation of the code on reachable values overflows their range.
\<close>

subsection \<open>From the configuration to the callback\<close>

text \<open>The handlers of the configuration, and what is registered for them.\<close>

lemma configured_target:
  assumes "distinct (map (\<lambda>hc. fnv1a_hash (hc_path hc)) (cfg_handlers cfg))" "hc \<in> set (cfg_handlers cfg)"
  shows "callback (target (register_config cfg (reactor_new lk fd now)) (fnv1a_hash (hc_path hc))) = parse_priority (hc_priority hc) \<and>
    (\<forall>h \<in> set (handlers (register_config cfg (reactor_new lk fd now))). path_hash h = fnv1a_hash (hc_path hc) \<longrightarrow>
       priority h = parse_priority (hc_priority hc))"
proof -
  let ?r = "register_config cfg (reactor_new lk fd now)"
  have hi: "handlers_inv ?r" using register_config_inv [OF reactor_new_inv] by (simp add: reactor_inv_def)
  have hs: "map (\<lambda>h. (path h, priority h, callback h)) (handlers ?r) =
      map (\<lambda>hc. (hc_path hc, parse_priority (hc_priority hc), parse_priority (hc_priority hc))) (cfg_handlers cfg)"
    using register_config_handlers [of cfg "reactor_new lk fd now"] by (simp add: reactor_new_def)
  have "map path_hash (handlers ?r) = map (\<lambda>h. fnv1a_hash (path h)) (handlers ?r)"
    using hi by (simp add: handlers_inv_def)
  also have "\<dots> = map (\<lambda>(p, _). fnv1a_hash p) (map (\<lambda>h. (path h, priority h, callback h)) (handlers ?r))" by simp
  also have "\<dots> = map (\<lambda>hc. fnv1a_hash (hc_path hc)) (cfg_handlers cfg)" by (simp only: hs) simp
  finally have d: "distinct (map path_hash (handlers ?r))" using assms(1) by simp
  have "(hc_path hc, parse_priority (hc_priority hc), parse_priority (hc_priority hc)) \<in> set (map (\<lambda>h. (path h, priority h, callback h)) (handlers ?r))"
    using assms(2) by (simp only: hs) auto
  then obtain h where h: "h \<in> set (handlers ?r)" "path h = hc_path hc" "priority h = parse_priority (hc_priority hc)"
    "callback h = parse_priority (hc_priority hc)" by auto
  moreover have ph: "path_hash h = fnv1a_hash (hc_path hc)" using hi h(1,2) by (simp add: handlers_inv_def)
  ultimately have t: "target ?r (fnv1a_hash (hc_path hc)) = h" using target_unique [OF hi d h(1)] by simp
  have "h' = h" if "h' \<in> set (handlers ?r)" "path_hash h' = fnv1a_hash (hc_path hc)" for h'
    using target_unique [OF hi d that(1)] that(2) t by simp
  then show ?thesis using t h by blast
qed

text \<open>The place of a taken sample in what is handled later, and its call among the new ones.\<close>

lemma taken_sample_called:
  assumes "run_of (conc_step env) \<sigma>" "\<And>m. conc_ok env b (\<sigma> m)" "n \<le> m"
    and "taken_in (\<sigma> (Suc n)) = taken_in (\<sigma> n) @ [(cs, prio)]" "length (taken_in (\<sigma> n)) < length (lefts (handled (\<sigma> m)))" "Suc n \<le> m"
  shows "\<exists>rest. lefts (handled (\<sigma> m)) = map fst (taken_in (\<sigma> n)) @ cs # rest"
    and "handled_call b (Inl cs) \<in> set (drop (length (calls (mem (\<sigma> n)))) (calls (mem (\<sigma> m))))"
proof -
  let ?k = "length (taken_in (\<sigma> n))" and ?l = "\<lambda>m. lefts (handled (\<sigma> m))"
  have "\<exists>ys. taken_in (\<sigma> m) = taken_in (\<sigma> (Suc n)) @ ys"
    by (rule run_extends [OF assms(1) _ assms(6)]) (simp_all add: conc_step_taken)
  then obtain ys where ys: "taken_in (\<sigma> m) = taken_in (\<sigma> n) @ (cs, prio) # ys" using assms(4) by auto
  have order: "map fst (taken_in (\<sigma> i)) = ?l i @ in_hand (loop (\<sigma> i)) @ queue_list (critical_queue (mem (\<sigma> i)))" for i
    using assms(2) [of i] by (simp add: conc_ok_def conc_invs)
  have "take (length (?l m)) (map fst (taken_in (\<sigma> m))) = ?l m" by (simp add: order del: take_map)
  then have "?l m = map fst (taken_in (\<sigma> n)) @ cs # map fst (take (length (?l m) - Suc ?k) ys)"
    using assms(5) by (simp add: ys take_map take_Cons' Suc_diff_Suc)
  then show "\<exists>rest. ?l m = map fst (taken_in (\<sigma> n)) @ cs # rest" by blast
  then have at: "?l m ! ?k = cs" by (auto simp: nth_append)
  have "\<exists>xs. handled (\<sigma> m) = handled (\<sigma> n) @ xs"
    by (rule run_extends [OF assms(1) _ assms(3)]) (simp_all add: conc_step_handled)
  then obtain xs where xs: "handled (\<sigma> m) = handled (\<sigma> n) @ xs" ..
  have le: "length (?l n) \<le> ?k" using order [of n] by (metis length_append length_map le_add1)
  then have "cs = lefts xs ! (?k - length (?l n))" "?k - length (?l n) < length (lefts xs)"
    using at assms(5) by (auto simp: xs nth_append)
  then have "Inl cs \<in> set xs" using in_lefts by (metis nth_mem)
  moreover have "calls (mem (\<sigma> i)) = calls b @ map (handled_call b) (handled (\<sigma> i))" for i
    using assms(2) [of i] by (simp add: conc_ok_def conc_invs)
  ultimately show "handled_call b (Inl cs) \<in> set (drop (length (calls (mem (\<sigma> n)))) (calls (mem (\<sigma> m))))"
    by (simp add: xs)
qed

text \<open>
  C1. From the configuration to the callback, for a configuration no two of whose paths have
  the same hash, so that none is repeated: a sample received on a configured CRITICAL or
  NORMAL topic while the queue has room is, under every interleaving that schedules the loop
  again and again and without a stop, handled exactly behind the samples the queue had taken
  before. This adds a call to those made when it was received: of the callback
  \<^verbatim>\<open>main\<close> registered for that entry, with the sample's bytes and the priority the
  entry names.
\<close>

theorem configured_sample_reaches_callback:
  assumes "fst (construct ce var zpath epath lkey now) = Inr r0" "env_ok env"
    and "hc \<in> set (cfg_handlers cfg)" "parse_priority (hc_priority hc) \<noteq> BACKGROUND"
    and "distinct (map (\<lambda>hc. fnv1a_hash (hc_path hc)) (cfg_handlers cfg))"
    and "run_of (conc_step env) \<sigma>" "\<sigma> 0 = conc_start env (register_config cfg r0)" "weakly_fair (loop_agent env) \<sigma>"
    and "\<forall>m. running (mem (\<sigma> m))"
    and "pcs (\<sigma> n) t = Sending ctx smp" "ctx_handler_hash ctx = fnv1a_hash (hc_path hc)"
    and "\<sigma> (Suc n) = thread_step env t (\<sigma> n) (pcs (\<sigma> n) t)" "length (queue_list (critical_queue (mem (\<sigma> n)))) < 511"
  shows "\<exists>m > n. \<exists>cs rest. cs_handler_hash cs = fnv1a_hash (hc_path hc) \<and> cs_payload cs = z_payload smp \<and>
     lefts (handled (\<sigma> m)) = map fst (taken_in (\<sigma> n)) @ cs # rest \<and>
     calls (mem (\<sigma> m)) = map (handled_call (mem (\<sigma> m))) (handled (\<sigma> m)) \<and>
     handled_call (mem (\<sigma> m)) (Inl cs) = (parse_priority (hc_priority hc), z_payload smp) \<and>
     (parse_priority (hc_priority hc), z_payload smp) \<in> set (drop (length (calls (mem (\<sigma> n)))) (calls (mem (\<sigma> m))))"
proof -
  let ?r = "register_config cfg r0"
  let ?cs = "new_sample env ctx (z_payload smp) (mem (\<sigma> n))"
  obtain fd where r0: "r0 = reactor_new lkey fd now" using construct_reactor [OF assms(1)] by blast
  have r: "reactor_inv ?r" "idle ?r"
    by (simp_all add: r0 register_config_inv reactor_new_inv register_config_idle reactor_new_idle)
  have ok: "conc_ok env (run_start env ?r) (\<sigma> m)" for m by (rule conc_ok_run [OF assms(6,7) r assms(2)])
  note tgt = configured_target [OF assms(5,3), of lkey fd now, folded r0]
  from context_topic [OF sending_context(2) [OF ok assms(10)]] have "ctx_priority ctx \<noteq> BACKGROUND"
    using tgt assms(4,11) by (auto simp: topic_of_def run_start_same)
  from send_taken [OF ok assms(10) this assms(13)] have taken: "taken_in (\<sigma> (Suc n)) = taken_in (\<sigma> n) @ [(?cs, ctx_priority ctx)]"
    using assms(12) by simp
  then have i: "length (taken_in (\<sigma> n)) < length (taken_in (\<sigma> (Suc n)))" by simp
  obtain m where m: "m \<ge> Suc n" "length (taken_in (\<sigma> n)) < length (lefts (handled (\<sigma> m)))"
    using taken_reaches_handler [OF r assms(2,6-9) i] by blast
  have n: "n \<le> m" "m > n" using m(1) by simp_all
  note sent = taken_sample_called [OF assms(6) ok n(1) taken m(2,1)]
  have call: "handled_call (run_start env ?r) (Inl ?cs) = (parse_priority (hc_priority hc), z_payload smp)"
    using tgt assms(11) by (simp add: handled_call_def queued_call_def new_sample_def run_start_same)
  have st: "same_setup (run_start env ?r) (mem (\<sigma> m))" using ok [of m] by (simp add: conc_ok_def conc_invs)
  have same: "handled_call (mem (\<sigma> m)) = handled_call (run_start env ?r)"
    by (intro ext) (simp only: handled_call_def setup_targets(2,3) [OF st])
  have "calls ?r = []" by (simp add: r0 register_config_calls) (simp add: reactor_new_def)
  then have "calls (run_start env ?r) = []" using run_start_shape [of env ?r] by auto
  then have calls: "calls (mem (\<sigma> m)) = map (handled_call (mem (\<sigma> m))) (handled (\<sigma> m))"
    using ok [of m] by (simp add: conc_ok_def conc_invs same run_start_same)
  have cs: "cs_handler_hash ?cs = fnv1a_hash (hc_path hc)" "cs_payload ?cs = z_payload smp"
    by (simp_all add: new_sample_def assms(11))
  obtain rest where rest: "lefts (handled (\<sigma> m)) = map fst (taken_in (\<sigma> n)) @ ?cs # rest" using sent(1) by blast
  show ?thesis
    by (rule exI [of _ m], rule conjI [OF n(2)], rule exI [of _ ?cs], rule exI [of _ rest])
       (use cs rest calls call sent(2) in \<open>simp only: same simp_thms\<close>)
qed

definition one_entry :: Config where
  "one_entry = config_default\<lparr>cfg_handlers := [\<lparr>hc_path = ''n'', hc_priority = ''NORMAL'', hc_description = ''d''\<rparr>]\<rparr>"

text \<open>One configured topic, one sample, then the loop on its own.\<close>

theorem configured_sample_reaches_callback_witness:
  "\<exists>\<sigma> m. run_of (conc_step waking_env) \<sigma> \<and> weakly_fair (loop_agent waking_env) \<sigma> \<and>
     \<sigma> 0 = conc_start waking_env (register_config one_entry (reactor_new ''l'' 5 0)) \<and>
     (NORMAL, [1]) \<in> set (drop (length (calls (mem (\<sigma> 2)))) (calls (mem (\<sigma> m))))"
proof -
  let ?ce = "sample_ctor\<lparr>ring_init_result := 0, config_default_ok := (\<lambda>v. True)\<rparr>"
  have ce: "fst (construct ?ce None ''z'' ''e'' ''l'' 0) = Inr (reactor_new ''l'' 5 0 :: TopicPriority reactor)"
    by (simp add: construct_def declare_estop_publisher_def setup_io_uring_def sample_ctor_def Let_def)
  let ?r = "register_config one_entry (reactor_new ''l'' 5 0)"
  let ?\<sigma> = "one_sample_run waking_env ?r one_ctx one_sample"
  have r: "reactor_inv ?r" "idle ?r" by (simp_all add: register_config_inv reactor_new_inv register_config_idle reactor_new_idle)
  have ctx: "one_ctx \<in> set (contexts (run_start waking_env ?r))"
    by (simp add: one_entry_def register_config_def parse_priority_def one_ctx_def register_handler_def reactor_new_def Let_def
        run_start_def subscribe_def subscribe_liveliness_def arm_poll_eventfd_def pre_allocate_handlers_def io_def spdlog_def
        waking_env_def sample_env_def)
  note run = one_sample_run [OF r ctx one_topic_ctx(2)]
  let ?hc = "\<lparr>hc_path = ''n'', hc_priority = ''NORMAL'', hc_description = ''d''\<rparr>"
  have "\<exists>m > 2. \<exists>cs rest. cs_handler_hash cs = fnv1a_hash (hc_path ?hc) \<and> cs_payload cs = z_payload one_sample \<and>
     lefts (handled (?\<sigma> m)) = map fst (taken_in (?\<sigma> 2)) @ cs # rest \<and>
     calls (mem (?\<sigma> m)) = map (handled_call (mem (?\<sigma> m))) (handled (?\<sigma> m)) \<and>
     handled_call (mem (?\<sigma> m)) (Inl cs) = (parse_priority (hc_priority ?hc), z_payload one_sample) \<and>
     (parse_priority (hc_priority ?hc), z_payload one_sample) \<in> set (drop (length (calls (mem (?\<sigma> 2)))) (calls (mem (?\<sigma> m))))"
    by (rule configured_sample_reaches_callback [OF ce waking_env_ok(1) _ _ _ run(1,3,2,4,5) _ run(6)])
       (use run(7) in \<open>simp_all add: one_entry_def parse_priority_def one_ctx_def\<close>)
  then have "\<exists>m. (parse_priority (hc_priority ?hc), z_payload one_sample) \<in> set (drop (length (calls (mem (?\<sigma> 2)))) (calls (mem (?\<sigma> m))))"
    by blast
  then have "\<exists>m. (NORMAL, [1]) \<in> set (drop (length (calls (mem (?\<sigma> 2)))) (calls (mem (?\<sigma> m))))"
    by (simp add: parse_priority_def one_sample_def)
  with run(1-3) show ?thesis by blast
qed

end
